(* ===== verification/Borge_Prelude.thy ===== *)
theory Borge_Prelude
  imports Main "HOL-Library.Word"
begin

text \<open>
  Shared vocabulary of the development: bytes and fixed-width Go integers, the slice
  operations the Go code performs on byte arrays, the fixed-width big- and little-endian
  codecs of Go's \<^verbatim>\<open>encoding/binary\<close>, and the lemma collections the component theories use.

  Conventions used everywhere.
  \<^item> \<open>byte\<close> is \<open>8 word\<close>, \<open>uint32\<close> is \<open>32 word\<close>, \<open>uint64\<close> is \<open>64 word\<close>.
    A Go \<open>int\<close> that only counts is a \<open>nat\<close>; one that may be negative is an \<open>int\<close>, and
    where it may overflow the 64-bit wrap-around is written out.
  \<^item> An \<open>(value, error)\<close> result is a sum: \<open>Inl\<close> is the error, \<open>Inr\<close> the value.
  \<^item> A loop that the source does not bound is a \<^theory_text>\<open>partial_function (option)\<close>; \<open>None\<close>
    then means that the call does not return.
\<close>

unbundle bit_operations_syntax

type_synonym byte = "8 word"
type_synonym bytes = "8 word list"
type_synonym uint16 = "16 word"
type_synonym uint32 = "32 word"
type_synonym uint64 = "64 word"

text \<open>Facts about byte-level encodings, and facts that bound a length or an offset.\<close>

named_theorems codec_simps
named_theorems bound_intros

section \<open>Slices\<close>

text \<open>\<open>slice off n xs\<close> is Go's \<open>xs[off:off+n]\<close> for a range that lies inside \<open>xs\<close>;
  \<open>blit off ys xs\<close> is \<open>copy(xs[off:], ys)\<close> for a source that fits.\<close>

definition slice :: "nat \<Rightarrow> nat \<Rightarrow> 'a list \<Rightarrow> 'a list" where
  "slice off n xs = take n (drop off xs)"

definition blit :: "nat \<Rightarrow> 'a list \<Rightarrow> 'a list \<Rightarrow> 'a list" where
  "blit off ys xs = take off xs @ ys @ drop (off + length ys) xs"

lemma length_slice [simp]: "off + n \<le> length xs \<Longrightarrow> length (slice off n xs) = n"
  by (simp add: slice_def)

lemma length_blit [simp]: "off + length ys \<le> length xs \<Longrightarrow> length (blit off ys xs) = length xs"
  by (simp add: blit_def)

lemma slice_blit_same:
  "off + length ys \<le> length xs \<Longrightarrow> n = length ys \<Longrightarrow> slice off n (blit off ys xs) = ys"
  by (simp add: slice_def blit_def)

lemma slice_blit_before:
  "off + length ys \<le> length xs \<Longrightarrow> a + n \<le> off \<Longrightarrow> slice a n (blit off ys xs) = slice a n xs"
proof -
  assume "off + length ys \<le> length xs" "a + n \<le> off"
  then have "take n (drop a (take off xs)) = take n (drop a xs)"
    by (simp add: drop_take min_def)
  moreover have "n \<le> length (drop a (take off xs))"
    using \<open>off + length ys \<le> length xs\<close> \<open>a + n \<le> off\<close> by simp
  ultimately show ?thesis
    using \<open>off + length ys \<le> length xs\<close> \<open>a + n \<le> off\<close> by (simp add: slice_def blit_def)
qed

lemma slice_blit_after:
  assumes "off + length ys \<le> length xs" and "off + length ys \<le> a"
  shows "slice a n (blit off ys xs) = slice a n xs"
proof -
  have "drop a (blit off ys xs) = drop (a - (off + length ys)) (drop (off + length ys) xs)"
    using assms by (simp add: blit_def)
  also have "\<dots> = drop a xs" using assms by simp
  finally show ?thesis by (simp add: slice_def)
qed

lemma slice_append_left: "off + n \<le> length xs \<Longrightarrow> slice off n (xs @ ys) = slice off n xs"
  by (simp add: slice_def)

lemma slice_append_right: "length xs \<le> off \<Longrightarrow> slice off n (xs @ ys) = slice (off - length xs) n ys"
  by (simp add: slice_def)

text \<open>Fixed-size records in one dense array: record \<open>k\<close> of width \<open>w\<close> starts at \<open>k * w\<close>.\<close>

lemma block_fits: "k < n \<Longrightarrow> k * w + w \<le> n * (w::nat)"
  by (metis Suc_leI add.commute mult_Suc mult_le_mono1)

lemma slice_blit_block:
  assumes len: "length xs = n * w" and k: "k < n" and j: "j < n" and ys: "length ys = w"
  shows "slice (j * w) w (blit (k * w) ys xs) = (if j = k then ys else slice (j * w) w xs)"
proof -
  have fits: "k * w + length ys \<le> length xs"
    using block_fits [OF k, of w] len ys by simp
  consider "j = k" | "j < k" | "k < j" by linarith
  then show ?thesis
  proof cases
    case 1
    then show ?thesis using fits ys by (simp add: slice_blit_same)
  next
    case 2
    then show ?thesis using fits block_fits [OF 2, of w] by (simp add: slice_blit_before)
  next
    case 3
    then show ?thesis using fits ys block_fits [OF 3, of w] by (simp add: slice_blit_after)
  qed
qed

section \<open>Fixed-width integer codecs\<close>

text \<open>\<open>le_enc k v\<close> are the low \<open>k\<close> bytes of \<open>v\<close>, least significant first;
  \<open>be_enc\<close> is the same most significant first.\<close>

fun le_enc :: "nat \<Rightarrow> nat \<Rightarrow> bytes" where
  "le_enc 0 v = []"
| "le_enc (Suc k) v = word_of_nat (v mod 256) # le_enc k (v div 256)"

fun le_dec :: "bytes \<Rightarrow> nat" where
  "le_dec [] = 0"
| "le_dec (b # bs) = unat b + 256 * le_dec bs"

definition be_enc :: "nat \<Rightarrow> nat \<Rightarrow> bytes" where
  "be_enc k v = rev (le_enc k v)"

definition be_dec :: "bytes \<Rightarrow> nat" where
  "be_dec bs = le_dec (rev bs)"

lemma length_le_enc [simp]: "length (le_enc k v) = k"
  by (induction k arbitrary: v) auto

lemma length_be_enc [simp]: "length (be_enc k v) = k"
  by (simp add: be_enc_def)

lemma unat_byte_of_mod: "unat (word_of_nat (v mod 256) :: byte) = v mod 256"
  by (simp add: unat_of_nat)

lemma unat_byte_less: "unat (b :: byte) < 256"
  using unsigned_less [of b] by simp

lemma le_dec_enc [codec_simps]: "le_dec (le_enc k v) = v mod 256 ^ k"
proof (induction k arbitrary: v)
  case 0
  then show ?case by simp
next
  case (Suc k)
  have "v mod 256 + 256 * (v div 256 mod 256 ^ k) = v mod (256 * 256 ^ k)"
    by (simp add: mod_mult2_eq)
  then show ?case by (simp add: Suc unat_byte_of_mod)
qed

lemma be_dec_enc [codec_simps]: "be_dec (be_enc k v) = v mod 256 ^ k"
  by (simp add: be_dec_def be_enc_def le_dec_enc)

lemma le_dec_bound [bound_intros]: "le_dec bs < 256 ^ length bs"
proof (induction bs)
  case Nil
  then show ?case by simp
next
  case (Cons b bs)
  have "unat b + 256 * le_dec bs < 256 + 256 * le_dec bs"
    using unat_byte_less [of b] by simp
  also have "\<dots> = 256 * Suc (le_dec bs)" by simp
  also have "\<dots> \<le> 256 * 256 ^ length bs"
    using Cons by (intro mult_le_mono2) simp
  finally show ?case by simp
qed

lemma be_dec_bound [bound_intros]: "be_dec bs < 256 ^ length bs"
  using le_dec_bound [of "rev bs"] by (simp add: be_dec_def)

lemma le_enc_dec: "le_enc (length bs) (le_dec bs) = bs"
proof (induction bs)
  case Nil
  then show ?case by simp
next
  case (Cons b bs)
  have "(unat b + 256 * le_dec bs) div 256 = le_dec bs"
    using unat_byte_less [of b] by simp
  moreover have "(unat b + 256 * le_dec bs) mod 256 = unat b"
    using unat_byte_less [of b] by simp
  ultimately show ?case using Cons by simp
qed

text \<open>Go's typed accessors. A value of the word type is written in full width.\<close>

definition put_u32_le :: "uint32 \<Rightarrow> bytes" where
  "put_u32_le w = le_enc 4 (unat w)"

definition get_u32_le :: "bytes \<Rightarrow> uint32" where
  "get_u32_le bs = word_of_nat (le_dec (take 4 bs))"

definition get_u64_le :: "bytes \<Rightarrow> uint64" where
  "get_u64_le bs = word_of_nat (le_dec (take 8 bs))"

lemma length_put_u32_le [simp]: "length (put_u32_le w) = 4"
  by (simp add: put_u32_le_def)

lemma get_put_u32_le [codec_simps]: "get_u32_le (put_u32_le w @ rest) = w"
proof -
  have "unat w < 256 ^ 4" using unsigned_less [of w] by simp
  then show ?thesis
    by (simp add: get_u32_le_def put_u32_le_def le_dec_enc)
qed

lemma put_get_u32_le: "4 \<le> length bs \<Longrightarrow> put_u32_le (get_u32_le bs) = take 4 bs"
proof -
  assume "4 \<le> length bs"
  then have l: "length (take 4 bs) = 4" by simp
  have "le_dec (take 4 bs) < 2 ^ 32" using le_dec_bound [of "take 4 bs"] l by simp
  then have "unat (word_of_nat (le_dec (take 4 bs)) :: uint32) = le_dec (take 4 bs)"
    by (simp add: unat_of_nat)
  then show ?thesis using le_enc_dec [of "take 4 bs"] l by (simp add: put_u32_le_def get_u32_le_def)
qed

lemma put_u32_le_inj: "put_u32_le a = put_u32_le b \<Longrightarrow> a = b"
  using get_put_u32_le [of a "[]"] get_put_u32_le [of b "[]"] by simp

section \<open>Sums and options\<close>

text \<open>Sequencing of fallible calls: the first error is returned.\<close>

definition bind_res :: "'e + 'a \<Rightarrow> ('a \<Rightarrow> 'e + 'b) \<Rightarrow> 'e + 'b" where
  "bind_res m f = (case m of Inl e \<Rightarrow> Inl e | Inr x \<Rightarrow> f x)"

lemma bind_res_simps [simp]:
  "bind_res (Inl e) f = Inl e"
  "bind_res (Inr x) f = f x"
  by (simp_all add: bind_res_def)

lemma bind_res_Inr: "bind_res m f = Inr y \<longleftrightarrow> (\<exists>x. m = Inr x \<and> f x = Inr y)"
  by (cases m) auto

text \<open>Counting with a predicate, as the index and the hash table keep their counters.\<close>

lemma length_filter_update:
  assumes "i < length xs"
  shows "length (filter P (xs[i := y])) + (if P (xs ! i) then 1 else 0)
    = length (filter P xs) + (if P y then 1 else (0::nat))"
proof -
  have "filter P xs = filter P (take i xs) @ filter P [xs ! i] @ filter P (drop (Suc i) xs)"
    using id_take_nth_drop [OF assms] by (metis append_Cons append_Nil filter_append)
  moreover have "filter P (xs[i := y]) = filter P (take i xs) @ filter P [y] @ filter P (drop (Suc i) xs)"
    using upd_conv_take_nth_drop [OF assms, of y] by (metis append_Cons append_Nil filter_append)
  ultimately show ?thesis by simp
qed

end
