(* ===== verification/Hash_Table.thy ===== *)
theory Hash_Table
  imports Borge_Prelude "HOL-Library.Multiset"
begin

text \<open>
  The open-addressing hash table of \<^verbatim>\<open>src/internal/hashindex/hashtable.go\<close>: a bucket array of
  32-bit kv indices over dense key and value byte arrays, linear probing with tombstones,
  growth at load factor 0.5, shrinking below 0.10.

  The Go code computes its thresholds in \<open>float64\<close>. For every capacity below \<open>2^32\<close> the
  products with 0.5 and 2.0 are exact, and those with 0.10, 0.4 and 1.3 differ from the real
  product by less than half a unit in the last place, so that rounding returns the integer when
  the real product is one and never crosses one otherwise. The model therefore uses the integer
  forms \<open>cap div 2\<close>, \<open>2 * cap\<close>, \<open>10 * used < cap\<close>, \<open>4 * cap div 10\<close> and \<open>13 * kv div 10\<close>.

  The counters \<open>used\<close>, \<open>tombstones\<close> and \<open>capacity\<close> are Go \<open>int\<close>s that never go below zero
  (\<open>tbl_inv\<close> keeps \<open>used\<close> equal to the number of live buckets); they are \<open>nat\<close> here.
  The probe loops have no bound in the source; they are partial functions, and \<open>lookup_returns\<close>
  below proves that they return on every table that the operations can build.
\<close>

section \<open>The table and its operations\<close>

definition freeBucket :: uint32 where
  "freeBucket = 0xFFFFFFFF"

definition tombstoneBucket :: uint32 where
  "tombstoneBucket = 0xFFFFFFFE"

definition reservedBucket :: nat where
  "reservedBucket = 0xFFFFFF00"

definition minCapacity :: nat where
  "minCapacity = 1000"

record table =
  keySize :: nat
  valueSize :: nat
  buckets :: "uint32 list"
  keys :: bytes
  vals :: bytes
  capacity :: nat
  used :: nat
  tombstones :: nat
  kvUsed :: nat
  kvCapacity :: nat
  initialCapacity :: nat

datatype table_error =
    KeySizeTooSmall nat
  | ValueSizeNotPositive nat
  | KeyLength nat nat
  | ValueLength nat nat
  | KVFull nat

text \<open>The key and the value stored under a kv index.\<close>

definition keyAt :: "table \<Rightarrow> uint32 \<Rightarrow> bytes" where
  "keyAt t kv = slice (unat kv * keySize t) (keySize t) (keys t)"

definition valAt :: "table \<Rightarrow> uint32 \<Rightarrow> bytes" where
  "valAt t kv = slice (unat kv * valueSize t) (valueSize t) (vals t)"

definition key32 :: "bytes \<Rightarrow> uint32" where
  "key32 key = push_bit 24 (ucast (key ! 0)) OR push_bit 16 (ucast (key ! 1))
     OR push_bit 8 (ucast (key ! 2)) OR ucast (key ! 3)"

definition bucketFor :: "nat \<Rightarrow> bytes \<Rightarrow> nat" where
  "bucketFor cap key = unat (key32 key mod word_of_nat cap)"

definition nextIndex :: "nat \<Rightarrow> nat \<Rightarrow> nat" where
  "nextIndex cap index = (if index + 1 = cap then 0 else index + 1)"

partial_function (option) probe :: "table \<Rightarrow> bytes \<Rightarrow> nat \<Rightarrow> (nat \<times> bool) option" where
  "probe t key index =
     (let kv = buckets t ! index in
      if kv = freeBucket then Some (index, False)
      else if kv \<noteq> tombstoneBucket \<and> keyAt t kv = key then Some (index, True)
      else probe t key (nextIndex (capacity t) index))"

definition lookup :: "table \<Rightarrow> bytes \<Rightarrow> (nat \<times> bool) option" where
  "lookup t key = probe t key (bucketFor (capacity t) key)"

partial_function (option) probeFree :: "uint32 list \<Rightarrow> nat \<Rightarrow> nat \<Rightarrow> nat option" where
  "probeFree newTable cap index =
     (if newTable ! index = freeBucket then Some index
      else probeFree newTable cap (nextIndex cap index))"

definition isLive :: "uint32 \<Rightarrow> bool" where
  "isLive kv \<longleftrightarrow> kv \<noteq> freeBucket \<and> kv \<noteq> tombstoneBucket"

fun reinsert :: "(uint32 \<Rightarrow> bytes) \<Rightarrow> nat \<Rightarrow> uint32 list \<Rightarrow> uint32 list \<Rightarrow> uint32 list option" where
  "reinsert keyOf cap [] newTable = Some newTable"
| "reinsert keyOf cap (kv # old) newTable =
     (if kv = freeBucket \<or> kv = tombstoneBucket then reinsert keyOf cap old newTable
      else Option.bind (probeFree newTable cap (bucketFor cap (keyOf kv)))
             (\<lambda>index. reinsert keyOf cap old (newTable[index := kv])))"

definition resizeTable :: "nat \<Rightarrow> table \<Rightarrow> table option" where
  "resizeTable newCapacity t =
     (let cap = (if newCapacity < 1 then minCapacity else newCapacity) in
      Option.bind (reinsert (keyAt t) cap (take (capacity t) (buckets t)) (replicate cap freeBucket))
        (\<lambda>newTable. Some (t\<lparr>capacity := cap, buckets := newTable, tombstones := 0\<rparr>)))"

definition resizeKV :: "nat \<Rightarrow> table \<Rightarrow> table" where
  "resizeKV newCapacity t =
     (let n = min newCapacity (reservedBucket - 1) in
      if n \<le> kvCapacity t then t
      else t\<lparr>keys := blit 0 (keys t) (replicate (n * keySize t) 0),
             vals := blit 0 (vals t) (replicate (n * valueSize t) 0),
             kvCapacity := n\<rparr>)"

definition NewTable :: "nat \<Rightarrow> nat \<Rightarrow> nat \<Rightarrow> (table_error + table) option" where
  "NewTable ks vs cap =
     (if ks < 4 then Some (Inl (KeySizeTooSmall ks))
      else if vs = 0 then Some (Inl (ValueSizeNotPositive vs))
      else let c = max cap minCapacity in
        Option.bind (resizeTable c
            \<lparr>keySize = ks, valueSize = vs, buckets = [], keys = [], vals = [], capacity = 0,
             used = 0, tombstones = 0, kvUsed = 0, kvCapacity = 0, initialCapacity = c\<rparr>)
          (\<lambda>t. Some (Inr (resizeKV (c div 2) t))))"

definition Clear :: "table \<Rightarrow> table option" where
  "Clear t =
     Option.bind (resizeTable (initialCapacity t) (t\<lparr>capacity := 0, used := 0, tombstones := 0\<rparr>))
       (\<lambda>t. Some (resizeKV (initialCapacity t div 2) (t\<lparr>kvUsed := 0\<rparr>)))"

definition Get :: "table \<Rightarrow> bytes \<Rightarrow> bytes option option" where
  "Get t key =
     (if length key \<noteq> keySize t then Some None
      else Option.bind (lookup t key)
        (\<lambda>(index, found). Some (if found then Some (valAt t (buckets t ! index)) else None)))"

definition Contains :: "table \<Rightarrow> bytes \<Rightarrow> bool option" where
  "Contains t key =
     (if length key \<noteq> keySize t then Some False else map_option snd (lookup t key))"

text \<open>The part of \<open>Set\<close> that runs when the key is absent: claim the next kv slot, link it
  into the free bucket the probe found, and grow the bucket array when the load is too high.\<close>

definition insertNew :: "table \<Rightarrow> bytes \<Rightarrow> bytes \<Rightarrow> nat \<Rightarrow> (table \<times> (table_error + unit)) option" where
  "insertNew t0 key value index =
     (let t = (if kvUsed t0 \<ge> kvCapacity t0 then resizeKV (13 * kvCapacity t0 div 10) t0 else t0) in
      if kvUsed t \<ge> kvCapacity t then Some (t, Inl (KVFull (kvUsed t)))
      else let kv = kvUsed t;
               t' = t\<lparr>keys := blit (kv * keySize t) key (keys t),
                      vals := blit (kv * valueSize t) value (vals t),
                      kvUsed := kv + 1, used := used t + 1,
                      buckets := (buckets t)[index := word_of_nat kv]\<rparr> in
        if 2 * (used t' + tombstones t') > capacity t'
        then Option.bind (resizeTable (2 * capacity t') t') (\<lambda>t''. Some (t'', Inr ()))
        else Some (t', Inr ()))"

definition Set :: "table \<Rightarrow> bytes \<Rightarrow> bytes \<Rightarrow> (table \<times> (table_error + unit)) option" where
  "Set t key value =
     (if length key \<noteq> keySize t then Some (t, Inl (KeyLength (keySize t) (length key)))
      else if length value \<noteq> valueSize t then Some (t, Inl (ValueLength (valueSize t) (length value)))
      else Option.bind (lookup t key)
        (\<lambda>(index, found).
           if found
           then Some (t\<lparr>vals := blit (unat (buckets t ! index) * valueSize t) value (vals t)\<rparr>, Inr ())
           else insertNew t key value index))"

definition Delete :: "table \<Rightarrow> bytes \<Rightarrow> (table \<times> bool) option" where
  "Delete t key =
     (if length key \<noteq> keySize t then Some (t, False)
      else Option.bind (lookup t key)
        (\<lambda>(index, found).
           if \<not> found then Some (t, False)
           else let kv = unat (buckets t ! index);
                    t' = t\<lparr>keys := blit (kv * keySize t) (replicate (keySize t) 0) (keys t),
                           vals := blit (kv * valueSize t) (replicate (valueSize t) 0) (vals t),
                           buckets := (buckets t)[index := tombstoneBucket],
                           used := used t - 1, tombstones := tombstones t + 1\<rparr> in
             if 10 * used t' < capacity t'
             then Option.bind (resizeTable (max (4 * capacity t' div 10) minCapacity) t')
                    (\<lambda>t''. Some (t'', True))
             else Some (t', True)))"

text \<open>\<open>entries\<close> are the pairs \<open>Iterate\<close> visits, in its order. \<open>Iterate\<close> itself threads a
  caller state through the visits and stops at the first visit that returns false.\<close>

definition entries :: "table \<Rightarrow> (bytes \<times> bytes) list" where
  "entries t = map (\<lambda>kv. (keyAt t kv, valAt t kv)) (filter isLive (take (capacity t) (buckets t)))"

fun iterBuckets :: "table \<Rightarrow> (bytes \<Rightarrow> bytes \<Rightarrow> 's \<Rightarrow> 's \<times> bool) \<Rightarrow> uint32 list \<Rightarrow> 's \<Rightarrow> 's" where
  "iterBuckets t fn [] s = s"
| "iterBuckets t fn (kv # rest) s =
     (if kv = freeBucket \<or> kv = tombstoneBucket then iterBuckets t fn rest s
      else case fn (keyAt t kv) (valAt t kv) s of
             (s', go) \<Rightarrow> if go then iterBuckets t fn rest s' else s')"

definition Iterate :: "table \<Rightarrow> (bytes \<Rightarrow> bytes \<Rightarrow> 's \<Rightarrow> 's \<times> bool) \<Rightarrow> 's \<Rightarrow> 's" where
  "Iterate t fn s = iterBuckets t fn (take (capacity t) (buckets t)) s"


section \<open>Probing\<close>

text \<open>\<open>reach bs s i\<close>: the probe that starts at \<open>s\<close> gets to bucket \<open>i\<close> without meeting a free
  bucket.\<close>

definition reach :: "uint32 list \<Rightarrow> nat \<Rightarrow> nat \<Rightarrow> bool" where
  "reach bs s i \<longleftrightarrow>
     (\<exists>d. (s + d) mod length bs = i \<and> (\<forall>j<d. bs ! ((s + j) mod length bs) \<noteq> freeBucket))"

lemma nextIndex_mod: "i < cap \<Longrightarrow> nextIndex cap i = (i + 1) mod cap"
  by (auto simp: nextIndex_def)

lemma sentinels_neq [simp]: "freeBucket \<noteq> tombstoneBucket" "tombstoneBucket \<noteq> freeBucket"
  by (simp_all add: freeBucket_def tombstoneBucket_def)

lemma isLive_sentinels [simp]: "\<not> isLive freeBucket" "\<not> isLive tombstoneBucket"
  by (simp_all add: isLive_def)

lemma bucketFor_less: "0 < cap \<Longrightarrow> cap < 2 ^ 32 \<Longrightarrow> bucketFor cap key < cap"
proof -
  assume "0 < cap" "cap < 2 ^ 32"
  then have u: "unat (word_of_nat cap :: uint32) = cap"
    by (simp add: unat_of_nat)
  have "unat (key32 key mod word_of_nat cap) = unat (key32 key) mod cap"
    by (simp add: unat_mod_distrib u)
  with \<open>0 < cap\<close> show ?thesis by (simp add: bucketFor_def)
qed

lemma probe_skip:
  assumes len: "length (buckets t) = capacity t" and s: "s < capacity t"
    and skip: "\<And>j. j < d \<Longrightarrow> (let kv = buckets t ! ((s + j) mod capacity t) in
                 kv \<noteq> freeBucket \<and> \<not> (kv \<noteq> tombstoneBucket \<and> keyAt t kv = key))"
  shows "probe t key s = probe t key ((s + d) mod capacity t)"
  using skip
proof (induction d)
  case 0
  then show ?case using s by simp
next
  case (Suc d)
  let ?i = "(s + d) mod capacity t"
  have "?i < capacity t" using s by simp
  then have "nextIndex (capacity t) ?i = (s + Suc d) mod capacity t"
    by (simp add: nextIndex_mod mod_Suc_eq)
  moreover have "probe t key ?i = probe t key (nextIndex (capacity t) ?i)"
    using Suc.prems [of d] by (subst probe.simps) (auto simp: Let_def)
  moreover have "probe t key s = probe t key ?i"
    using Suc.prems by (intro Suc.IH) simp
  ultimately show ?case by simp
qed

lemma probeFree_skip:
  assumes len: "length bs = cap" and s: "s < cap"
    and skip: "\<And>j. j < d \<Longrightarrow> bs ! ((s + j) mod cap) \<noteq> freeBucket"
  shows "probeFree bs cap s = probeFree bs cap ((s + d) mod cap)"
  using skip
proof (induction d)
  case 0
  then show ?case using s by simp
next
  case (Suc d)
  let ?i = "(s + d) mod cap"
  have "?i < cap" using s by simp
  then have "nextIndex cap ?i = (s + Suc d) mod cap"
    by (simp add: nextIndex_mod mod_Suc_eq)
  moreover have "probeFree bs cap ?i = probeFree bs cap (nextIndex cap ?i)"
    using Suc.prems [of d] by (subst probeFree.simps) simp
  moreover have "probeFree bs cap s = probeFree bs cap ?i"
    using Suc.prems by (intro Suc.IH) simp
  ultimately show ?case by simp
qed

text \<open>Every bucket lies on the cyclic path from any starting bucket.\<close>

lemma cyclic_dist: "s < n \<Longrightarrow> i < n \<Longrightarrow> \<exists>d. (s + d) mod n = (i::nat)"
  by (rule exI [of _ "i + n - s"]) auto

lemma first_on_path:
  assumes "s < n" and "i < n" and "P (i::nat)"
  obtains d where "P ((s + d) mod n)" and "\<And>j. j < d \<Longrightarrow> \<not> P ((s + j) mod n)"
proof -
  from cyclic_dist [OF assms(1,2)] assms(3) have ex: "\<exists>d. P ((s + d) mod n)" by auto
  define d where "d = (LEAST d. P ((s + d) mod n))"
  have "P ((s + d) mod n)" unfolding d_def using ex by (rule LeastI_ex)
  moreover have "\<And>j. j < d \<Longrightarrow> \<not> P ((s + j) mod n)"
    unfolding d_def by (rule not_less_Least)
  ultimately show thesis by (rule that)
qed

lemma probeFree_finds:
  assumes len: "length bs = cap" and s: "s < cap" and free: "freeBucket \<in> set bs"
  obtains i where "i < cap" "probeFree bs cap s = Some i" "bs ! i = freeBucket" "reach bs s i"
proof -
  from free len obtain f where "f < cap" "bs ! f = freeBucket"
    by (auto simp: in_set_conv_nth)
  with s obtain d where hit: "bs ! ((s + d) mod cap) = freeBucket"
    and miss: "\<And>j. j < d \<Longrightarrow> bs ! ((s + j) mod cap) \<noteq> freeBucket"
    using first_on_path [of s cap f "\<lambda>i. bs ! i = freeBucket"] by auto
  show thesis
  proof (rule that)
    show "(s + d) mod cap < cap" using s by simp
    show "bs ! ((s + d) mod cap) = freeBucket" by (fact hit)
    show "reach bs s ((s + d) mod cap)"
      using miss len by (auto simp: reach_def)
    have "probeFree bs cap s = probeFree bs cap ((s + d) mod cap)"
      using len s miss by (rule probeFree_skip)
    also have "\<dots> = Some ((s + d) mod cap)"
      using hit by (subst probeFree.simps) simp
    finally show "probeFree bs cap s = Some ((s + d) mod cap)" .
  qed
qed

section \<open>The invariant\<close>

text \<open>\<open>wf_buckets keyOf bs\<close>: every live bucket can be reached from the bucket its key maps to,
  and no two live buckets hold the same key.\<close>

definition wf_buckets :: "(uint32 \<Rightarrow> bytes) \<Rightarrow> uint32 list \<Rightarrow> bool" where
  "wf_buckets keyOf bs \<longleftrightarrow>
     (\<forall>i<length bs. isLive (bs ! i) \<longrightarrow> reach bs (bucketFor (length bs) (keyOf (bs ! i))) i)
     \<and> distinct (map keyOf (filter isLive bs))"

definition shape_inv :: "table \<Rightarrow> bool" where
  "shape_inv t \<longleftrightarrow> 4 \<le> keySize t \<and> 0 < valueSize t
     \<and> length (buckets t) = capacity t \<and> minCapacity \<le> capacity t \<and> capacity t < 2 ^ 32
     \<and> minCapacity \<le> initialCapacity t \<and> initialCapacity t < 2 ^ 32
     \<and> length (keys t) = kvCapacity t * keySize t \<and> length (vals t) = kvCapacity t * valueSize t
     \<and> kvUsed t \<le> kvCapacity t \<and> minCapacity div 2 \<le> kvCapacity t \<and> kvCapacity t < reservedBucket"

definition count_inv :: "table \<Rightarrow> bool" where
  "count_inv t \<longleftrightarrow> used t = length (filter isLive (buckets t))
     \<and> tombstones t = length (filter (\<lambda>kv. kv = tombstoneBucket) (buckets t))"

definition link_inv :: "table \<Rightarrow> bool" where
  "link_inv t \<longleftrightarrow> wf_buckets (keyAt t) (buckets t)
     \<and> (\<forall>kv\<in>set (buckets t). isLive kv \<longrightarrow> unat kv < kvUsed t)"

definition base_inv :: "table \<Rightarrow> bool" where
  "base_inv t \<longleftrightarrow> shape_inv t \<and> count_inv t \<and> link_inv t"

definition tbl_inv :: "table \<Rightarrow> bool" where
  "tbl_inv t \<longleftrightarrow> base_inv t \<and> 2 * (used t + tombstones t) \<le> capacity t
     \<and> used t + tombstones t \<le> kvUsed t \<and> capacity t \<le> max (initialCapacity t) (4 * kvUsed t)"

lemmas inv_defs = tbl_inv_def base_inv_def shape_inv_def count_inv_def link_inv_def

lemma tbl_inv_base [dest]: "tbl_inv t \<Longrightarrow> base_inv t"
  by (simp add: tbl_inv_def)

lemma distinct_map_filter_nth:
  "distinct (map f (filter P xs)) \<Longrightarrow> i < length xs \<Longrightarrow> j < length xs \<Longrightarrow> P (xs ! i) \<Longrightarrow> P (xs ! j)
     \<Longrightarrow> f (xs ! i) = f (xs ! j) \<Longrightarrow> i = j"
proof (induction xs arbitrary: i j)
  case Nil
  then show ?case by simp
next
  case (Cons x xs)
  have notin: "P x \<Longrightarrow> k < length xs \<Longrightarrow> P (xs ! k) \<Longrightarrow> f x \<noteq> f (xs ! k)" for k
    using Cons.prems(1) by auto
  show ?case
  proof (cases i)
    case 0
    then show ?thesis using Cons.prems notin by (cases j) auto
  next
    case (Suc i')
    show ?thesis
    proof (cases j)
      case 0
      then show ?thesis using Cons.prems notin [of i'] Suc by auto
    next
      case (Suc j')
      then show ?thesis using Cons.prems Cons.IH [of i' j'] \<open>i = Suc i'\<close> by (auto split: if_splits)
    qed
  qed
qed

lemma wf_buckets_unique:
  "wf_buckets keyOf bs \<Longrightarrow> i < length bs \<Longrightarrow> j < length bs \<Longrightarrow> isLive (bs ! i) \<Longrightarrow> isLive (bs ! j)
     \<Longrightarrow> keyOf (bs ! i) = keyOf (bs ! j) \<Longrightarrow> i = j"
  unfolding wf_buckets_def by (blast intro: distinct_map_filter_nth)

lemma bucket_partition:
  "length bs = length (filter isLive bs) + length (filter (\<lambda>kv. kv = tombstoneBucket) bs)
     + length (filter (\<lambda>kv. kv = freeBucket) bs)"
  by (induction bs) (auto simp: isLive_def)

lemma inv_has_free: "tbl_inv t \<Longrightarrow> freeBucket \<in> set (buckets t)"
proof -
  assume inv: "tbl_inv t"
  then have "0 < length (filter (\<lambda>kv. kv = freeBucket) (buckets t))"
    using bucket_partition [of "buckets t"] by (auto simp: inv_defs minCapacity_def)
  then show ?thesis by (auto simp: length_greater_0_conv filter_empty_conv)
qed

lemma entries_inv: "base_inv t \<Longrightarrow> entries t = map (\<lambda>kv. (keyAt t kv, valAt t kv)) (filter isLive (buckets t))"
  by (simp add: entries_def inv_defs)

lemma entries_distinct: "base_inv t \<Longrightarrow> distinct (map fst (entries t))"
  unfolding entries_inv by (simp add: base_inv_def link_inv_def wf_buckets_def comp_def)

lemma entries_set:
  "base_inv t \<Longrightarrow> (k, v) \<in> set (entries t) \<longleftrightarrow>
     (\<exists>i<capacity t. isLive (buckets t ! i) \<and> keyAt t (buckets t ! i) = k \<and> valAt t (buckets t ! i) = v)"
  unfolding entries_inv by (auto simp: inv_defs in_set_conv_nth image_iff)

section \<open>Lookup\<close>

lemma lookup_found:
  assumes inv: "tbl_inv t" and i: "i < capacity t" and live: "isLive (buckets t ! i)"
    and key: "keyAt t (buckets t ! i) = key"
  shows "lookup t key = Some (i, True)"
proof -
  let ?c = "capacity t" and ?bs = "buckets t" and ?s = "bucketFor (capacity t) key"
  have len: "length ?bs = ?c" and wf: "wf_buckets (keyAt t) ?bs" and c: "0 < ?c" "?c < 2 ^ 32"
    using inv by (auto simp: inv_defs minCapacity_def)
  have s: "?s < ?c" using c by (rule bucketFor_less)
  have "reach ?bs ?s i"
    using wf i live key len by (auto simp: wf_buckets_def)
  then obtain d where d: "(?s + d) mod ?c = i" and nf: "\<And>j. j < d \<Longrightarrow> ?bs ! ((?s + j) mod ?c) \<noteq> freeBucket"
    using len by (auto simp: reach_def)
  let ?match = "\<lambda>j. isLive (?bs ! j) \<and> keyAt t (?bs ! j) = key"
  define e where "e = (LEAST e. ?match ((?s + e) mod ?c))"
  have "?match ((?s + d) mod ?c)" using d live key by simp
  then have e: "?match ((?s + e) mod ?c)" and "e \<le> d"
    unfolding e_def by (rule LeastI) (rule Least_le, fact)
  have miss: "\<And>j. j < e \<Longrightarrow> \<not> ?match ((?s + j) mod ?c)"
    unfolding e_def by (rule not_less_Least)
  have "(?s + e) mod ?c = i"
    using wf_buckets_unique [OF wf, of "(?s + e) mod ?c" i] e live key i len s by simp
  moreover have "probe t key ?s = probe t key ((?s + e) mod ?c)"
    using len s
  proof (rule probe_skip)
    fix j assume "j < e"
    with nf [of j] miss [of j] \<open>e \<le> d\<close>
    show "let kv = ?bs ! ((?s + j) mod ?c) in kv \<noteq> freeBucket \<and> \<not> (kv \<noteq> tombstoneBucket \<and> keyAt t kv = key)"
      by (auto simp: isLive_def Let_def)
  qed
  moreover have "probe t key i = Some (i, True)"
    using live key by (subst probe.simps) (auto simp: isLive_def Let_def)
  ultimately show ?thesis by (simp add: lookup_def)
qed

lemma lookup_absent:
  assumes inv: "tbl_inv t"
    and absent: "\<And>i. i < capacity t \<Longrightarrow> isLive (buckets t ! i) \<Longrightarrow> keyAt t (buckets t ! i) \<noteq> key"
  obtains i where "i < capacity t" "lookup t key = Some (i, False)" "buckets t ! i = freeBucket"
    "reach (buckets t) (bucketFor (capacity t) key) i"
proof -
  let ?c = "capacity t" and ?bs = "buckets t" and ?s = "bucketFor (capacity t) key"
  have len: "length ?bs = ?c" and c: "0 < ?c" "?c < 2 ^ 32"
    using inv by (auto simp: inv_defs minCapacity_def)
  have s: "?s < ?c" using c by (rule bucketFor_less)
  from inv_has_free [OF inv] len obtain f where "f < ?c" "?bs ! f = freeBucket"
    by (auto simp: in_set_conv_nth)
  with s obtain d where hit: "?bs ! ((?s + d) mod ?c) = freeBucket"
    and miss: "\<And>j. j < d \<Longrightarrow> ?bs ! ((?s + j) mod ?c) \<noteq> freeBucket"
    using first_on_path [of ?s ?c f "\<lambda>i. ?bs ! i = freeBucket"] by auto
  show thesis
  proof (rule that)
    show "(?s + d) mod ?c < ?c" using s by simp
    show "?bs ! ((?s + d) mod ?c) = freeBucket" by (fact hit)
    show "reach ?bs ?s ((?s + d) mod ?c)" using miss len by (auto simp: reach_def)
    have "probe t key ?s = probe t key ((?s + d) mod ?c)"
      using len s
    proof (rule probe_skip)
      fix j assume "j < d"
      with miss [of j] absent [of "(?s + j) mod ?c"] s
      show "let kv = ?bs ! ((?s + j) mod ?c) in kv \<noteq> freeBucket \<and> \<not> (kv \<noteq> tombstoneBucket \<and> keyAt t kv = key)"
        by (auto simp: isLive_def Let_def)
    qed
    also have "\<dots> = Some ((?s + d) mod ?c, False)"
      using hit by (subst probe.simps) simp
    finally show "lookup t key = Some ((?s + d) mod ?c, False)" by (simp add: lookup_def)
  qed
qed

text \<open>The two cases of a lookup, as an elimination rule for the operations below.\<close>

lemma lookup_cases:
  assumes inv: "tbl_inv t"
  obtains (found) i where "i < capacity t" "lookup t key = Some (i, True)" "isLive (buckets t ! i)"
      "keyAt t (buckets t ! i) = key" "map_of (entries t) key = Some (valAt t (buckets t ! i))"
  | (absent) i where "i < capacity t" "lookup t key = Some (i, False)" "buckets t ! i = freeBucket"
      "reach (buckets t) (bucketFor (capacity t) key) i" "map_of (entries t) key = None"
proof (cases "\<exists>i<capacity t. isLive (buckets t ! i) \<and> keyAt t (buckets t ! i) = key")
  case True
  then obtain i where i: "i < capacity t" "isLive (buckets t ! i)" "keyAt t (buckets t ! i) = key"
    by auto
  then have "(key, valAt t (buckets t ! i)) \<in> set (entries t)"
    using entries_set [OF tbl_inv_base, OF inv] by auto
  then have m: "map_of (entries t) key = Some (valAt t (buckets t ! i))"
    using entries_distinct [OF tbl_inv_base, OF inv] by simp
  show thesis by (rule found [OF i(1) lookup_found [OF inv i] i(2,3) m])
next
  case False
  then have m: "map_of (entries t) key = None"
    using entries_set [OF tbl_inv_base, OF inv] by (auto simp: map_of_eq_None_iff)
  from False obtain i where i: "i < capacity t" "lookup t key = Some (i, False)"
    "buckets t ! i = freeBucket" "reach (buckets t) (bucketFor (capacity t) key) i"
    using lookup_absent [OF inv, of key] by blast
  show thesis by (rule absent [OF i m])
qed

lemma Get_correct: "tbl_inv t \<Longrightarrow> length key = keySize t \<Longrightarrow> Get t key = Some (map_of (entries t) key)"
  by (cases rule: lookup_cases [of t key]) (auto simp: Get_def)

lemma Contains_correct:
  "tbl_inv t \<Longrightarrow> length key = keySize t \<Longrightarrow> Contains t key = Some (map_of (entries t) key \<noteq> None)"
  by (cases rule: lookup_cases [of t key]) (auto simp: Contains_def)


section \<open>Resizing\<close>

lemma mset_filter_update:
  assumes "i < length xs" and "\<not> P (xs ! i)" and "P y"
  shows "mset (filter P (xs[i := y])) = add_mset y (mset (filter P xs))"
proof -
  have "filter P xs = filter P (take i xs) @ filter P (drop (Suc i) xs)"
    using id_take_nth_drop [OF assms(1)] assms(2) by (metis append_Cons filter.simps(2) filter_append)
  moreover have "filter P (xs[i := y]) = filter P (take i xs) @ y # filter P (drop (Suc i) xs)"
    using upd_conv_take_nth_drop [OF assms(1), of y] assms(3) by (metis filter.simps(2) filter_append)
  ultimately show ?thesis by simp
qed

lemma reach_mono:
  assumes "reach bs s i" and "length bs' = length bs" and "bs \<noteq> []"
    and "\<And>k. k < length bs \<Longrightarrow> bs ! k \<noteq> freeBucket \<Longrightarrow> bs' ! k \<noteq> freeBucket"
  shows "reach bs' s i"
  using assms by (auto simp: reach_def)

lemma wf_buckets_cong:
  assumes "\<And>kv. kv \<in> set bs \<Longrightarrow> isLive kv \<Longrightarrow> f kv = g kv"
  shows "wf_buckets f bs = wf_buckets g bs"
proof -
  have m: "map f (filter isLive bs) = map g (filter isLive bs)"
    using assms by auto
  have "\<And>i. i < length bs \<Longrightarrow> isLive (bs ! i) \<Longrightarrow> f (bs ! i) = g (bs ! i)"
    using assms by auto
  then show ?thesis unfolding wf_buckets_def m by auto
qed

lemma wf_buckets_insert:
  assumes wf: "wf_buckets keyOf bs" and i: "i < length bs" and free: "bs ! i = freeBucket"
    and path: "reach bs (bucketFor (length bs) (keyOf kv)) i" and live: "isLive kv"
    and fresh: "keyOf kv \<notin> keyOf ` set (filter isLive bs)"
  shows "wf_buckets keyOf (bs[i := kv])"
proof -
  have keep: "reach bs s j \<Longrightarrow> reach (bs[i := kv]) s j" for s j
    using i live free by (elim reach_mono) (auto simp: nth_list_update isLive_def)
  have "mset (map keyOf (filter isLive (bs[i := kv]))) = mset (keyOf kv # map keyOf (filter isLive bs))"
    using mset_filter_update [of i bs isLive kv] i free live by simp
  then have "distinct (map keyOf (filter isLive (bs[i := kv]))) = distinct (keyOf kv # map keyOf (filter isLive bs))"
    by (rule mset_eq_imp_distinct_iff)
  then have "distinct (map keyOf (filter isLive (bs[i := kv])))"
    using wf fresh by (simp add: wf_buckets_def)
  moreover have "\<forall>j<length bs. isLive (bs[i := kv] ! j) \<longrightarrow>
      reach (bs[i := kv]) (bucketFor (length bs) (keyOf (bs[i := kv] ! j))) j"
  proof (intro allI impI)
    fix j assume "j < length bs" "isLive (bs[i := kv] ! j)"
    then show "reach (bs[i := kv]) (bucketFor (length bs) (keyOf (bs[i := kv] ! j))) j"
      using wf path keep i by (cases "j = i") (auto simp: wf_buckets_def)
  qed
  ultimately show ?thesis by (simp add: wf_buckets_def)
qed

lemma reinsert_correct:
  assumes "length nt = cap" "0 < cap" "cap < 2 ^ 32" "wf_buckets keyOf nt" "tombstoneBucket \<notin> set nt"
    and "distinct (map keyOf (filter isLive old @ filter isLive nt))"
    and "length (filter isLive old) + length (filter isLive nt) < cap"
  shows "\<exists>nt'. reinsert keyOf cap old nt = Some nt' \<and> length nt' = cap \<and> wf_buckets keyOf nt'
     \<and> tombstoneBucket \<notin> set nt' \<and> mset (filter isLive nt') = mset (filter isLive old) + mset (filter isLive nt)"
  using assms
proof (induction old arbitrary: nt)
  case Nil
  then show ?case by simp
next
  case (Cons kv old)
  show ?case
  proof (cases "isLive kv")
    case False
    then have "kv = freeBucket \<or> kv = tombstoneBucket" by (auto simp: isLive_def)
    with Cons False show ?thesis by simp
  next
    case True
    have "length (filter (\<lambda>kv. kv = tombstoneBucket) nt) = 0"
      using Cons.prems(5) by (auto simp: filter_empty_conv)
    then have "0 < length (filter (\<lambda>kv. kv = freeBucket) nt)"
      using bucket_partition [of nt] Cons.prems(1,7) True by (simp del: length_greater_0_conv)
    then have "freeBucket \<in> set nt" by (auto simp: filter_empty_conv)
    moreover have "bucketFor cap (keyOf kv) < cap"
      using Cons.prems(2,3) by (rule bucketFor_less)
    ultimately obtain i where i: "i < cap" "probeFree nt cap (bucketFor cap (keyOf kv)) = Some i"
      "nt ! i = freeBucket" "reach nt (bucketFor cap (keyOf kv)) i"
      using probeFree_finds [OF Cons.prems(1)] by blast
    let ?nt = "nt[i := kv]"
    have m: "mset (filter isLive ?nt) = add_mset kv (mset (filter isLive nt))"
      using mset_filter_update [of i nt isLive kv] i Cons.prems(1) True by simp
    then have sz: "length (filter isLive ?nt) = Suc (length (filter isLive nt))"
      by (metis size_add_mset size_mset)
    have "\<exists>nt'. reinsert keyOf cap old ?nt = Some nt' \<and> length nt' = cap \<and> wf_buckets keyOf nt'
       \<and> tombstoneBucket \<notin> set nt' \<and> mset (filter isLive nt') = mset (filter isLive old) + mset (filter isLive ?nt)"
    proof (rule Cons.IH)
      show "wf_buckets keyOf ?nt"
        using Cons.prems i True by (intro wf_buckets_insert) auto
      show "tombstoneBucket \<notin> set ?nt"
        using Cons.prems(5) True set_update_subset_insert [of nt i kv] by (auto simp: isLive_def)
      have "mset (map keyOf (filter isLive old @ filter isLive ?nt))
          = mset (map keyOf (filter isLive (kv # old) @ filter isLive nt))"
        using m True by simp
      then show "distinct (map keyOf (filter isLive old @ filter isLive ?nt))"
        using Cons.prems(6) mset_eq_imp_distinct_iff by blast
      show "length (filter isLive old) + length (filter isLive ?nt) < cap"
        using Cons.prems(7) True sz by simp
    qed (use Cons.prems in auto)
    with i m True show ?thesis by (auto simp: isLive_def)
  qed
qed

lemma wf_buckets_empty [simp]: "wf_buckets keyOf (replicate n freeBucket)"
  by (simp add: wf_buckets_def)

lemma keyAt_bucket_update [simp]:
  "keyAt (t\<lparr>capacity := c, buckets := b, tombstones := n\<rparr>) = keyAt t"
  "valAt (t\<lparr>capacity := c, buckets := b, tombstones := n\<rparr>) = valAt t"
  by (auto simp: keyAt_def valAt_def)

text \<open>Rebuilding the bucket array keeps the entries and drops every tombstone.\<close>

lemma resizeTable_correct:
  assumes inv: "base_inv t" and n: "minCapacity \<le> n" "n < 2 ^ 32" "used t < n"
  obtains t' where "resizeTable n t = Some t'" "base_inv t'" "mset (entries t') = mset (entries t)"
    "capacity t' = n" "used t' = used t" "tombstones t' = 0" "keySize t' = keySize t"
    "valueSize t' = valueSize t" "kvUsed t' = kvUsed t" "initialCapacity t' = initialCapacity t"
proof -
  have b: "take (capacity t) (buckets t) = buckets t" and wf: "wf_buckets (keyAt t) (buckets t)"
    and u: "used t = length (filter isLive (buckets t))"
    and lim: "\<forall>kv\<in>set (buckets t). isLive kv \<longrightarrow> unat kv < kvUsed t"
    using inv by (simp_all add: inv_defs)
  have "\<exists>nt. reinsert (keyAt t) n (buckets t) (replicate n freeBucket) = Some nt \<and> length nt = n
     \<and> wf_buckets (keyAt t) nt \<and> tombstoneBucket \<notin> set nt
     \<and> mset (filter isLive nt) = mset (filter isLive (buckets t)) + mset (filter isLive (replicate n freeBucket))"
    using n wf u by (intro reinsert_correct) (auto simp: minCapacity_def wf_buckets_def)
  then obtain nt where nt: "reinsert (keyAt t) n (buckets t) (replicate n freeBucket) = Some nt"
    "length nt = n" "wf_buckets (keyAt t) nt" "tombstoneBucket \<notin> set nt"
    "mset (filter isLive nt) = mset (filter isLive (buckets t))"
    by auto
  let ?t = "t\<lparr>capacity := n, buckets := nt, tombstones := 0\<rparr>"
  have res: "resizeTable n t = Some ?t"
    using nt(1) n b by (simp add: resizeTable_def minCapacity_def)
  have sets: "set (filter isLive nt) = set (filter isLive (buckets t))"
    using nt(5) by (metis set_mset_mset)
  have "length (filter isLive nt) = used t"
    using nt(5) u by (metis size_mset)
  moreover have "length (filter (\<lambda>kv. kv = tombstoneBucket) nt) = 0"
    using nt(4) by (auto simp: filter_empty_conv)
  ultimately have inv': "base_inv ?t"
    using inv n nt sets lim by (auto simp: inv_defs)
  have "mset (entries ?t) = mset (entries t)"
    unfolding entries_inv [OF inv] entries_inv [OF inv'] using nt(5) by simp
  with res inv' show thesis by (intro that [of ?t]) simp_all
qed

lemma map_of_mset_cong:
  "mset xs = mset ys \<Longrightarrow> distinct (map fst xs) \<Longrightarrow> map_of xs = map_of ys"
proof -
  assume m: "mset xs = mset ys" and d: "distinct (map fst xs)"
  from m have "mset (map fst xs) = mset (map fst ys)" by simp
  then have "distinct (map fst ys)" using d mset_eq_imp_distinct_iff by blast
  moreover have "set xs = set ys" using m by (rule mset_eq_setD)
  ultimately show ?thesis using d by (simp add: map_of_inject_set)
qed


section \<open>Growing the key and value arrays\<close>

lemma resizeKV_at:
  assumes "shape_inv t" and "unat kv < kvCapacity t"
  shows "keyAt (resizeKV n t) kv = keyAt t kv" and "valAt (resizeKV n t) kv = valAt t kv"
proof -
  have grow: "slice (unat kv * w) w (blit 0 xs (replicate m 0)) = slice (unat kv * w) w xs"
    if "length xs = kvCapacity t * w" for xs :: bytes and w m
    using block_fits [OF assms(2), of w] that by (simp add: blit_def slice_append_left)
  show "keyAt (resizeKV n t) kv = keyAt t kv" "valAt (resizeKV n t) kv = valAt t kv"
    using assms by (simp_all add: keyAt_def valAt_def resizeKV_def Let_def grow shape_inv_def)
qed

lemma resizeKV_fields [simp]:
  "keySize (resizeKV n t) = keySize t" "valueSize (resizeKV n t) = valueSize t"
  "buckets (resizeKV n t) = buckets t" "capacity (resizeKV n t) = capacity t"
  "used (resizeKV n t) = used t" "tombstones (resizeKV n t) = tombstones t"
  "kvUsed (resizeKV n t) = kvUsed t" "initialCapacity (resizeKV n t) = initialCapacity t"
  "kvCapacity (resizeKV n t) = max (kvCapacity t) (min n (reservedBucket - 1))"
  by (auto simp: resizeKV_def Let_def)

lemma resizeKV_shape: "shape_inv t \<Longrightarrow> shape_inv (resizeKV n t)"
proof -
  assume t: "shape_inv t"
  let ?n = "min n (reservedBucket - 1)"
  have r: "0 < reservedBucket" by (simp add: reservedBucket_def)
  show ?thesis
  proof (cases "?n \<le> kvCapacity t")
    case True
    then show ?thesis using t by (simp add: resizeKV_def)
  next
    case False
    then have "length (keys t) \<le> ?n * keySize t" "length (vals t) \<le> ?n * valueSize t"
      using t unfolding shape_inv_def by (auto intro!: mult_le_mono1)
    with False t r show ?thesis by (auto simp: shape_inv_def resizeKV_def Let_def)
  qed
qed

lemma resizeKV_correct:
  assumes inv: "tbl_inv t"
  shows "tbl_inv (resizeKV n t)" and "entries (resizeKV n t) = entries t"
proof -
  let ?t = "resizeKV n t"
  have shape: "shape_inv t" using inv by (simp add: inv_defs)
  have lim: "unat kv < kvCapacity t" if "kv \<in> set (buckets t)" "isLive kv" for kv
    using inv that by (fastforce simp: inv_defs)
  have keyeq: "keyAt ?t kv = keyAt t kv" "valAt ?t kv = valAt t kv" if "kv \<in> set (buckets t)" "isLive kv" for kv
    using resizeKV_at [OF shape] lim that by auto
  have "wf_buckets (keyAt ?t) (buckets t) = wf_buckets (keyAt t) (buckets t)"
    using keyeq by (intro wf_buckets_cong) auto
  then show inv': "tbl_inv ?t"
    using inv resizeKV_shape [OF shape, of n] by (auto simp: tbl_inv_def base_inv_def count_inv_def link_inv_def)
  show "entries ?t = entries t"
    unfolding entries_inv [OF tbl_inv_base, OF inv] entries_inv [OF tbl_inv_base, OF inv']
    using keyeq by auto
qed

section \<open>Set\<close>

lemma Set_found_correct:
  assumes inv: "tbl_inv t" and i: "i < capacity t" and live: "isLive (buckets t ! i)"
    and val: "length value = valueSize t"
  defines "t' \<equiv> t\<lparr>vals := blit (unat (buckets t ! i) * valueSize t) value (vals t)\<rparr>"
  shows "tbl_inv t'" and "map_of (entries t') = (map_of (entries t))(keyAt t (buckets t ! i) \<mapsto> value)"
proof -
  let ?kv = "buckets t ! i" and ?n = "kvCapacity t"
  have shape: "shape_inv t" and wf: "wf_buckets (keyAt t) (buckets t)" using inv by (simp_all add: inv_defs)
  have lim: "unat kv < ?n" if "kv \<in> set (buckets t)" "isLive kv" for kv
    using inv that by (fastforce simp: inv_defs)
  have mem: "?kv \<in> set (buckets t)" using i shape by (simp add: shape_inv_def)
  have keyeq: "keyAt t' = keyAt t" by (auto simp: t'_def keyAt_def)
  have valeq: "valAt t' kv = (if kv = ?kv then value else valAt t kv)"
    if "kv \<in> set (buckets t)" "isLive kv" for kv
    using slice_blit_block [of "vals t" ?n "valueSize t" "unat ?kv" "unat kv" "value"]
      lim [OF mem live] lim [OF that] val shape
    by (auto simp: t'_def valAt_def shape_inv_def word_unat_eq_iff)
  have "unat ?kv * valueSize t + length value \<le> length (vals t)"
    using block_fits [OF lim [OF mem live], of "valueSize t"] val shape by (simp add: shape_inv_def)
  then show inv': "tbl_inv t'"
    using inv keyeq by (simp add: t'_def inv_defs)
  have uniq: "keyAt t kv = keyAt t ?kv \<longleftrightarrow> kv = ?kv" if "kv \<in> set (buckets t)" "isLive kv" for kv
    using that i live shape wf_buckets_unique [OF wf]
    by (auto simp: in_set_conv_nth shape_inv_def)
  show "map_of (entries t') = (map_of (entries t))(keyAt t ?kv \<mapsto> value)"
  proof (rule ext)
    fix k
    have "map_of (map (\<lambda>kv. (keyAt t kv, valAt t' kv)) xs) k
        = (if k = keyAt t ?kv \<and> ?kv \<in> set xs then Some value else map_of (map (\<lambda>kv. (keyAt t kv, valAt t kv)) xs) k)"
      if "set xs \<subseteq> {kv \<in> set (buckets t). isLive kv}" for xs
      using that by (induction xs) (auto simp: valeq uniq)
    from this [of "filter isLive (buckets t)"]
    show "map_of (entries t') k = ((map_of (entries t))(keyAt t ?kv \<mapsto> value)) k"
      unfolding entries_inv [OF tbl_inv_base, OF inv] entries_inv [OF tbl_inv_base, OF inv']
      using mem live by (auto simp: t'_def keyeq [unfolded t'_def])
  qed
qed


lemma link_free_bucket:
  assumes inv: "base_inv t" and room: "kvUsed t < kvCapacity t"
    and i: "i < capacity t" and free: "buckets t ! i = freeBucket"
    and path: "reach (buckets t) (bucketFor (capacity t) key) i" and absent: "map_of (entries t) key = None"
    and key: "length key = keySize t" and val: "length value = valueSize t"
  defines "t' \<equiv> t\<lparr>keys := blit (kvUsed t * keySize t) key (keys t),
                   vals := blit (kvUsed t * valueSize t) value (vals t),
                   kvUsed := kvUsed t + 1, used := used t + 1,
                   buckets := (buckets t)[i := word_of_nat (kvUsed t)]\<rparr>"
  shows "base_inv t'" and "mset (entries t') = add_mset (key, value) (mset (entries t))"
proof -
  let ?kv = "word_of_nat (kvUsed t) :: uint32" and ?n = "kvCapacity t" and ?bs = "buckets t"
  have shape: "shape_inv t" and wf: "wf_buckets (keyAt t) ?bs"
    and lim: "\<And>kv. kv \<in> set ?bs \<Longrightarrow> isLive kv \<Longrightarrow> unat kv < kvUsed t"
    using inv by (auto simp: inv_defs)
  have kvn: "kvUsed t < reservedBucket" using shape room by (simp add: shape_inv_def)
  then have kv: "unat ?kv = kvUsed t" by (simp add: unat_of_nat reservedBucket_def)
  have live: "isLive ?kv"
    using kv kvn by (auto simp: isLive_def freeBucket_def tombstoneBucket_def reservedBucket_def)
  have at: "keyAt t' kv = (if kv = ?kv then key else keyAt t kv)"
    "valAt t' kv = (if kv = ?kv then value else valAt t kv)" if "unat kv < ?n" for kv
    using slice_blit_block [of "keys t" ?n "keySize t" "kvUsed t" "unat kv" key]
      slice_blit_block [of "vals t" ?n "valueSize t" "kvUsed t" "unat kv" "value"]
      that room key val shape kv
    by (auto simp: t'_def keyAt_def valAt_def shape_inv_def word_unat_eq_iff)
  have old: "keyAt t' kv = keyAt t kv" "valAt t' kv = valAt t kv" if "kv \<in> set ?bs" "isLive kv" for kv
    using at [of kv] lim [OF that] room kv by auto
  have new: "keyAt t' ?kv = key" "valAt t' ?kv = value" using at [of ?kv] kv room by auto
  have len: "length ?bs = capacity t" using shape by (simp add: shape_inv_def)
  have fresh: "key \<notin> keyAt t' ` set (filter isLive ?bs)"
    using absent old entries_inv [OF inv] by (auto simp: map_of_eq_None_iff image_iff)
  have "wf_buckets (keyAt t') ?bs" using wf old wf_buckets_cong [of ?bs "keyAt t'" "keyAt t"] by simp
  then have wf': "wf_buckets (keyAt t') (?bs[i := ?kv])"
    using i free path live fresh new len by (intro wf_buckets_insert) simp_all
  have m: "mset (filter isLive (?bs[i := ?kv])) = add_mset ?kv (mset (filter isLive ?bs))"
    using mset_filter_update [of i ?bs isLive ?kv] i free live len by simp
  have fit: "kvUsed t * keySize t + length key \<le> length (keys t)"
    "kvUsed t * valueSize t + length value \<le> length (vals t)"
    using block_fits [OF room] key val shape by (simp_all add: shape_inv_def)
  have "shape_inv t'" using shape fit room by (simp add: t'_def shape_inv_def)
  moreover have "length (filter isLive (?bs[i := ?kv])) = Suc (length (filter isLive ?bs))"
    using m by (metis size_add_mset size_mset)
  then have "count_inv t'"
    using inv length_filter_update [of i ?bs "\<lambda>kv. kv = tombstoneBucket" ?kv] i free live len
    by (auto simp: t'_def base_inv_def count_inv_def isLive_def)
  moreover have "link_inv t'"
    using wf' lim kv set_update_subset_insert [of ?bs i ?kv] by (fastforce simp: t'_def link_inv_def less_Suc_eq)
  ultimately show inv': "base_inv t'" by (simp add: base_inv_def)
  have "mset (entries t') = image_mset (\<lambda>kv. (keyAt t' kv, valAt t' kv)) (add_mset ?kv (mset (filter isLive ?bs)))"
  proof -
    have "mset (entries t') = image_mset (\<lambda>kv. (keyAt t' kv, valAt t' kv)) (mset (filter isLive (buckets t')))"
      unfolding entries_inv [OF inv'] by simp
    also have "buckets t' = ?bs[i := ?kv]" by (simp add: t'_def)
    finally show ?thesis unfolding m .
  qed
  also have "\<dots> = add_mset (key, value) (image_mset (\<lambda>kv. (keyAt t' kv, valAt t' kv)) (mset (filter isLive ?bs)))"
    using new by simp
  also have "image_mset (\<lambda>kv. (keyAt t' kv, valAt t' kv)) (mset (filter isLive ?bs)) = mset (entries t)"
    unfolding entries_inv [OF inv] using old by (auto intro!: image_mset_cong)
  finally show "mset (entries t') = add_mset (key, value) (mset (entries t))" .
qed

lemma insertNew_correct:
  assumes inv: "tbl_inv t" and room: "kvUsed t < 2 ^ 29" "initialCapacity t < 2 ^ 31"
    and i: "i < capacity t" "buckets t ! i = freeBucket" "reach (buckets t) (bucketFor (capacity t) key) i"
    and absent: "map_of (entries t) key = None"
    and len: "length key = keySize t" "length value = valueSize t"
  obtains t' where "insertNew t key value i = Some (t', Inr ())" "tbl_inv t'"
    "map_of (entries t') = (map_of (entries t))(key \<mapsto> value)" "used t' = used t + 1"
    "keySize t' = keySize t" "valueSize t' = valueSize t" "kvUsed t' = kvUsed t + 1"
    "initialCapacity t' = initialCapacity t"
proof -
  have cap: "2 * capacity t < 2 ^ 32" using inv room by (auto simp: tbl_inv_def)
  define t1 where "t1 = (if kvUsed t \<ge> kvCapacity t then resizeKV (13 * kvCapacity t div 10) t else t)"
  have shape: "shape_inv t" using inv by (simp add: inv_defs)
  have t1: "tbl_inv t1" "entries t1 = entries t" using resizeKV_correct [OF inv] inv by (auto simp: t1_def)
  have f: "keySize t1 = keySize t" "valueSize t1 = valueSize t" "kvUsed t1 = kvUsed t" "buckets t1 = buckets t"
    "capacity t1 = capacity t" "used t1 = used t" "tombstones t1 = tombstones t"
    "initialCapacity t1 = initialCapacity t"
    by (simp_all add: t1_def)
  have "kvCapacity t < 13 * kvCapacity t div 10"
    using shape by (auto simp: shape_inv_def minCapacity_def)
  then have r1: "kvUsed t1 < kvCapacity t1"
    using room shape by (auto simp: t1_def shape_inv_def reservedBucket_def)
  let ?t = "t1\<lparr>keys := blit (kvUsed t1 * keySize t1) key (keys t1),
              vals := blit (kvUsed t1 * valueSize t1) value (vals t1),
              kvUsed := kvUsed t1 + 1, used := used t1 + 1,
              buckets := (buckets t1)[i := word_of_nat (kvUsed t1)]\<rparr>"
  have lnk: "base_inv ?t" "mset (entries ?t) = add_mset (key, value) (mset (entries t))"
    using link_free_bucket [OF tbl_inv_base [OF t1(1)] r1, of i key "value"] i absent len t1(2) f by simp_all
  have upd: "map_of xs = (map_of (entries t))(key \<mapsto> value)"
    if "mset xs = add_mset (key, value) (mset (entries t))" for xs
  proof -
    have "mset ((key, value) # entries t) = mset xs" using that by simp
    moreover have "distinct (map fst ((key, value) # entries t))"
      using absent entries_distinct [OF tbl_inv_base [OF inv]] by (auto simp: map_of_eq_None_iff)
    ultimately have "map_of ((key, value) # entries t) = map_of xs" by (rule map_of_mset_cong)
    then show ?thesis by simp
  qed
  show thesis
  proof (cases "2 * (used ?t + tombstones ?t) > capacity ?t")
    case True
    have "used ?t < 2 * capacity t" and "minCapacity \<le> 2 * capacity t"
      using t1(1) f by (simp_all add: inv_defs minCapacity_def)
    then obtain t2 where t2: "resizeTable (2 * capacity t) ?t = Some t2" "base_inv t2"
      "mset (entries t2) = mset (entries ?t)" "capacity t2 = 2 * capacity t" "used t2 = used ?t"
      "tombstones t2 = 0" "keySize t2 = keySize ?t" "valueSize t2 = valueSize ?t" "kvUsed t2 = kvUsed ?t"
      "initialCapacity t2 = initialCapacity ?t"
      using resizeTable_correct [OF lnk(1) _ cap] by blast
    have "insertNew t key value i = Some (t2, Inr ())"
      using True r1 t2(1) by (simp add: insertNew_def t1_def [symmetric] f Let_def)
    moreover have "2 * capacity t \<le> 4 * (kvUsed t + 1)" "1000 \<le> capacity t"
      using t1(1) f True by (auto simp: tbl_inv_def base_inv_def shape_inv_def minCapacity_def)
    then have "tbl_inv t2"
      using t2 t1(1) f by (simp add: tbl_inv_def le_max_iff_disj)
    ultimately show thesis using t2 f upd lnk(2) by (intro that [of t2]) simp_all
  next
    case False
    then have "insertNew t key value i = Some (?t, Inr ())"
      using r1 by (simp add: insertNew_def t1_def [symmetric] f Let_def)
    moreover have "tbl_inv ?t" using lnk(1) False t1(1) by (auto simp: tbl_inv_def)
    ultimately show thesis using f upd lnk(2) by (intro that [of ?t]) simp_all
  qed
qed

lemma Set_correct:
  assumes inv: "tbl_inv t" and len: "length key = keySize t" "length value = valueSize t"
    and room: "kvUsed t < 2 ^ 29" "initialCapacity t < 2 ^ 31"
  obtains t' where "Set t key value = Some (t', Inr ())" "tbl_inv t'"
    "map_of (entries t') = (map_of (entries t))(key \<mapsto> value)"
    "keySize t' = keySize t" "valueSize t' = valueSize t" "kvUsed t' \<le> kvUsed t + 1"
    "initialCapacity t' = initialCapacity t"
proof (cases rule: lookup_cases [OF inv, of key])
  case (1 i)
  let ?t = "t\<lparr>vals := blit (unat (buckets t ! i) * valueSize t) value (vals t)\<rparr>"
  have "Set t key value = Some (?t, Inr ())" using 1 len by (simp add: Set_def)
  with Set_found_correct [OF inv 1(1) 1(3) len(2)] 1(4) show thesis by (intro that [of ?t]) simp_all
next
  case (2 i)
  obtain t' where t': "insertNew t key value i = Some (t', Inr ())" "tbl_inv t'"
    "map_of (entries t') = (map_of (entries t))(key \<mapsto> value)"
    "keySize t' = keySize t" "valueSize t' = valueSize t" "kvUsed t' = kvUsed t + 1"
    "initialCapacity t' = initialCapacity t"
    using insertNew_correct [OF inv room 2(1) 2(3) 2(4) 2(5) len] by blast
  moreover have "Set t key value = Some (t', Inr ())" using 2 len t' by (simp add: Set_def)
  ultimately show thesis by (intro that [of t']) simp_all
qed


lemma Set_existing_correct:
  assumes inv: "tbl_inv t" and len: "length key = keySize t" "length value = valueSize t"
    and old: "map_of (entries t) key \<noteq> None"
  obtains t' where "Set t key value = Some (t', Inr ())" "tbl_inv t'"
    "map_of (entries t') = (map_of (entries t))(key \<mapsto> value)"
    "keySize t' = keySize t" "valueSize t' = valueSize t" "kvUsed t' = kvUsed t"
    "initialCapacity t' = initialCapacity t"
proof (cases rule: lookup_cases [OF inv, of key])
  case (1 i)
  let ?t = "t\<lparr>vals := blit (unat (buckets t ! i) * valueSize t) value (vals t)\<rparr>"
  have "Set t key value = Some (?t, Inr ())" using 1 len by (simp add: Set_def)
  with Set_found_correct [OF inv 1(1) 1(3) len(2)] 1(4) show thesis by (intro that [of ?t]) simp_all
next
  case (2 i)
  with old show thesis by simp
qed

section \<open>Delete\<close>

lemma wf_buckets_remove:
  assumes wf: "wf_buckets keyOf bs" and i: "i < length bs" and live: "isLive (bs ! i)"
  defines "b2 \<equiv> bs[i := tombstoneBucket]"
  shows "wf_buckets keyOf b2" and "mset (filter isLive bs) = add_mset (bs ! i) (mset (filter isLive b2))"
    and "bs ! i \<notin> set (filter isLive b2)"
proof -
  have "bs = b2[i := bs ! i]" using i by (simp add: b2_def)
  then show m: "mset (filter isLive bs) = add_mset (bs ! i) (mset (filter isLive b2))"
    using mset_filter_update [of i b2 isLive "bs ! i"] i live by (simp add: b2_def)
  show "bs ! i \<notin> set (filter isLive b2)"
  proof
    assume "bs ! i \<in> set (filter isLive b2)"
    then obtain j where "j < length bs" "b2 ! j = bs ! i" by (auto simp: in_set_conv_nth b2_def)
    with wf_buckets_unique [OF wf, of i j] i live show False by (cases "j = i") (auto simp: b2_def)
  qed
  have "mset (map keyOf (filter isLive bs)) = mset (keyOf (bs ! i) # map keyOf (filter isLive b2))"
    using m by simp
  then have "distinct (map keyOf (filter isLive bs)) = distinct (keyOf (bs ! i) # map keyOf (filter isLive b2))"
    by (rule mset_eq_imp_distinct_iff)
  then have "distinct (map keyOf (filter isLive b2))"
    using wf by (simp add: wf_buckets_def)
  moreover have "\<forall>j<length b2. isLive (b2 ! j) \<longrightarrow> reach b2 (bucketFor (length b2) (keyOf (b2 ! j))) j"
  proof (intro allI impI)
    fix j assume j: "j < length b2" "isLive (b2 ! j)"
    then have "j \<noteq> i" using i by (auto simp: b2_def)
    then have "reach bs (bucketFor (length bs) (keyOf (bs ! j))) j"
      using wf j by (auto simp: wf_buckets_def b2_def)
    then have "reach b2 (bucketFor (length bs) (keyOf (bs ! j))) j"
      using i by (elim reach_mono) (auto simp: nth_list_update b2_def)
    then show "reach b2 (bucketFor (length b2) (keyOf (b2 ! j))) j" using \<open>j \<noteq> i\<close> by (simp add: b2_def)
  qed
  ultimately show "wf_buckets keyOf b2" by (simp add: wf_buckets_def)
qed

lemma unlink_bucket:
  assumes inv: "base_inv t" and i: "i < capacity t" and live: "isLive (buckets t ! i)"
  defines "t' \<equiv> t\<lparr>keys := blit (unat (buckets t ! i) * keySize t) (replicate (keySize t) 0) (keys t),
                   vals := blit (unat (buckets t ! i) * valueSize t) (replicate (valueSize t) 0) (vals t),
                   buckets := (buckets t)[i := tombstoneBucket],
                   used := used t - 1, tombstones := tombstones t + 1\<rparr>"
  shows "base_inv t'"
    and "add_mset (keyAt t (buckets t ! i), valAt t (buckets t ! i)) (mset (entries t')) = mset (entries t)"
    and "used t' + tombstones t' = used t + tombstones t" and "0 < used t"
proof -
  let ?kv = "buckets t ! i" and ?n = "kvCapacity t" and ?bs = "buckets t" and ?b2 = "(buckets t)[i := tombstoneBucket]"
  have shape: "shape_inv t" and wf: "wf_buckets (keyAt t) ?bs"
    and lim: "\<And>kv. kv \<in> set ?bs \<Longrightarrow> isLive kv \<Longrightarrow> unat kv < kvUsed t"
    using inv by (auto simp: inv_defs)
  have len: "length ?bs = capacity t" using shape by (simp add: shape_inv_def)
  have mem: "?kv \<in> set ?bs" using i len by simp
  have kvn: "unat ?kv < ?n" using lim [OF mem live] shape by (simp add: shape_inv_def)
  have m: "mset (filter isLive ?bs) = add_mset ?kv (mset (filter isLive ?b2))"
    and notin: "?kv \<notin> set (filter isLive ?b2)" and wf2: "wf_buckets (keyAt t) ?b2"
    using wf_buckets_remove [OF wf, of i] i len live by auto
  have old: "keyAt t' kv = keyAt t kv" "valAt t' kv = valAt t kv" if "kv \<in> set (filter isLive ?b2)" for kv
  proof -
    have kv: "kv \<in> set ?bs" "isLive kv" "kv \<noteq> ?kv"
      using that notin set_update_subset_insert [of ?bs i tombstoneBucket] by auto
    then have "unat kv < ?n" "unat kv \<noteq> unat ?kv"
      using lim [of kv] shape by (auto simp: shape_inv_def word_unat_eq_iff)
    then show "keyAt t' kv = keyAt t kv" "valAt t' kv = valAt t kv"
      using slice_blit_block [of "keys t" ?n "keySize t" "unat ?kv" "unat kv" "replicate (keySize t) 0"]
        slice_blit_block [of "vals t" ?n "valueSize t" "unat ?kv" "unat kv" "replicate (valueSize t) 0"] kvn shape
      by (auto simp: t'_def keyAt_def valAt_def shape_inv_def)
  qed
  have fit: "unat ?kv * keySize t + keySize t \<le> length (keys t)"
    "unat ?kv * valueSize t + valueSize t \<le> length (vals t)"
    using block_fits [OF kvn] shape by (simp_all add: shape_inv_def)
  have sz: "length (filter isLive ?bs) = Suc (length (filter isLive ?b2))"
    using m by (metis size_add_mset size_mset)
  have cnt: "used t = length (filter isLive ?bs)" using inv by (simp add: inv_defs)
  then show pos: "0 < used t" and "used t' + tombstones t' = used t + tombstones t"
    using sz by (simp_all add: t'_def)
  have tomb: "length (filter (\<lambda>kv. kv = tombstoneBucket) ?b2) = Suc (tombstones t)"
    using inv length_filter_update [of i ?bs "\<lambda>kv. kv = tombstoneBucket" tombstoneBucket] i len live
    by (auto simp: inv_defs isLive_def)
  have "wf_buckets (keyAt t') ?b2" using wf2 old wf_buckets_cong [of ?b2 "keyAt t'" "keyAt t"] by auto
  then have "link_inv t'"
    using lim set_update_subset_insert [of ?bs i tombstoneBucket] by (fastforce simp: t'_def link_inv_def)
  moreover have "shape_inv t'" using shape fit by (simp add: t'_def shape_inv_def)
  moreover have "count_inv t'" using cnt sz tomb by (simp add: t'_def count_inv_def)
  ultimately show inv': "base_inv t'" by (simp add: base_inv_def)
  have "mset (entries t') = image_mset (\<lambda>kv. (keyAt t' kv, valAt t' kv)) (mset (filter isLive ?b2))"
    unfolding entries_inv [OF inv'] by (simp add: t'_def)
  also have "\<dots> = image_mset (\<lambda>kv. (keyAt t kv, valAt t kv)) (mset (filter isLive ?b2))"
    using old by (intro image_mset_cong) simp
  finally show "add_mset (keyAt t ?kv, valAt t ?kv) (mset (entries t')) = mset (entries t)"
    unfolding entries_inv [OF inv] using m by simp
qed


lemma Delete_correct:
  assumes inv: "tbl_inv t" and len: "length key = keySize t"
  obtains t' where "Delete t key = Some (t', map_of (entries t) key \<noteq> None)" "tbl_inv t'"
    "map_of (entries t') = (map_of (entries t))(key := None)"
    "keySize t' = keySize t" "valueSize t' = valueSize t" "kvUsed t' = kvUsed t"
    "initialCapacity t' = initialCapacity t"
proof (cases rule: lookup_cases [OF inv, of key])
  case (2 i)
  then have "Delete t key = Some (t, map_of (entries t) key \<noteq> None)" using len by (simp add: Delete_def)
  with inv 2 show thesis by (intro that [of t]) auto
next
  case (1 i)
  let ?kv = "buckets t ! i"
  let ?t = "t\<lparr>keys := blit (unat ?kv * keySize t) (replicate (keySize t) 0) (keys t),
              vals := blit (unat ?kv * valueSize t) (replicate (valueSize t) 0) (vals t),
              buckets := (buckets t)[i := tombstoneBucket],
              used := used t - 1, tombstones := tombstones t + 1\<rparr>"
  note u = unlink_bucket [OF tbl_inv_base [OF inv] 1(1,3)]
  have upd: "map_of xs = (map_of (entries t))(key := None)" if "mset xs = mset (entries ?t)" for xs
  proof -
    have m: "mset ((key, valAt t ?kv) # xs) = mset (entries t)" using that u(2) 1(4) by simp
    then have "mset (map fst ((key, valAt t ?kv) # xs)) = mset (map fst (entries t))"
      by (metis mset_map)
    then have d: "distinct (map fst ((key, valAt t ?kv) # xs))"
      using entries_distinct [OF tbl_inv_base [OF inv]] mset_eq_imp_distinct_iff by blast
    have "map_of (entries t) = (map_of xs)(key \<mapsto> valAt t ?kv)"
      using map_of_mset_cong [OF m d] by simp
    moreover have "map_of xs key = None" using d by (auto simp: map_of_eq_None_iff)
    ultimately show ?thesis by auto
  qed
  have load: "2 * (used ?t + tombstones ?t) \<le> capacity t" "used ?t + tombstones ?t \<le> kvUsed t"
    "capacity t \<le> max (initialCapacity t) (4 * kvUsed t)"
    using inv unfolding u(3) by (simp_all only: tbl_inv_def)
  show thesis
  proof (cases "10 * used ?t < capacity ?t")
    case True
    let ?c = "max (4 * capacity t div 10) minCapacity"
    have shape: "minCapacity \<le> capacity t" "capacity t < 2 ^ 32" using inv by (simp_all add: inv_defs)
    have c: "minCapacity \<le> ?c" "?c < 2 ^ 32" "used ?t < ?c" "2 * used ?t \<le> ?c"
      using shape True by (auto simp: minCapacity_def)
    then obtain t2 where t2: "resizeTable ?c ?t = Some t2" "base_inv t2" "mset (entries t2) = mset (entries ?t)"
      "capacity t2 = ?c" "used t2 = used ?t" "tombstones t2 = 0" "keySize t2 = keySize ?t"
      "valueSize t2 = valueSize ?t" "kvUsed t2 = kvUsed ?t" "initialCapacity t2 = initialCapacity ?t"
      using resizeTable_correct [OF u(1) c(1,2,3)] by blast
    have "Delete t key = Some (t2, True)" using 1 len True t2(1) by (simp add: Delete_def Let_def)
    moreover have "minCapacity \<le> initialCapacity t" using inv by (simp add: inv_defs)
    then have "?c \<le> max (initialCapacity t) (4 * kvUsed t)" using load(3) by linarith
    then have "tbl_inv t2" using t2 c(4) load(2) by (simp add: tbl_inv_def)
    ultimately show thesis using 1 t2 upd [OF t2(3)] by (intro that [of t2]) simp_all
  next
    case False
    then have "Delete t key = Some (?t, True)" using 1 len by (simp add: Delete_def Let_def)
    moreover have "tbl_inv ?t" using u(1) load by (simp add: tbl_inv_def)
    ultimately show thesis using 1 upd [OF refl] by (intro that [of ?t]) simp_all
  qed
qed

section \<open>New tables, clearing, iterating\<close>

lemma empty_table_inv:
  assumes "4 \<le> keySize t" "0 < valueSize t" "minCapacity \<le> initialCapacity t" "initialCapacity t < 2 ^ 32"
    and "length (keys t) = kvCapacity t * keySize t" "length (vals t) = kvCapacity t * valueSize t"
    and "kvCapacity t < reservedBucket"
    and "capacity t = initialCapacity t" "buckets t = replicate (initialCapacity t) freeBucket"
    and "used t = 0" "tombstones t = 0" "kvUsed t = 0"
  shows "tbl_inv (resizeKV (initialCapacity t div 2) t)" "entries (resizeKV (initialCapacity t div 2) t) = []"
proof -
  let ?n = "min (initialCapacity t div 2) (reservedBucket - 1)"
  have n: "minCapacity div 2 \<le> ?n" "?n < reservedBucket"
    using assms(3) by (auto simp: reservedBucket_def minCapacity_def)
  have "length (keys t) \<le> ?n * keySize t" "length (vals t) \<le> ?n * valueSize t" if "\<not> ?n \<le> kvCapacity t"
    using that assms(5,6) by (auto intro!: mult_le_mono1)
  then have "shape_inv (resizeKV (initialCapacity t div 2) t)"
    using assms n by (auto simp: shape_inv_def resizeKV_def Let_def)
  then show "tbl_inv (resizeKV (initialCapacity t div 2) t)"
    using assms by (simp add: tbl_inv_def base_inv_def count_inv_def link_inv_def)
  show "entries (resizeKV (initialCapacity t div 2) t) = []"
    using assms by (simp add: entries_def)
qed

lemma NewTable_correct:
  assumes "4 \<le> ks" "0 < vs" "cap < 2 ^ 32"
  obtains t where "NewTable ks vs cap = Some (Inr t)" "tbl_inv t" "entries t = []"
    "keySize t = ks" "valueSize t = vs" "kvUsed t = 0" "capacity t = max cap minCapacity"
    "initialCapacity t = max cap minCapacity"
proof -
  let ?c = "max cap minCapacity"
  define t0 where "t0 = \<lparr>keySize = ks, valueSize = vs, buckets = replicate ?c freeBucket, keys = [], vals = [],
    capacity = ?c, used = 0, tombstones = 0, kvUsed = 0, kvCapacity = 0, initialCapacity = ?c\<rparr>"
  have "NewTable ks vs cap = Some (Inr (resizeKV (?c div 2) t0))"
    using assms by (simp add: NewTable_def resizeTable_def Let_def t0_def minCapacity_def)
  moreover have "tbl_inv (resizeKV (initialCapacity t0 div 2) t0)" "entries (resizeKV (initialCapacity t0 div 2) t0) = []"
    by (rule empty_table_inv; use assms in \<open>simp add: t0_def minCapacity_def reservedBucket_def\<close>)+
  ultimately show thesis by (intro that [of "resizeKV (?c div 2) t0"]) (simp_all add: t0_def)
qed

lemma Clear_correct:
  assumes inv: "tbl_inv t"
  obtains t' where "Clear t = Some t'" "tbl_inv t'" "entries t' = []" "capacity t' = initialCapacity t"
    "keySize t' = keySize t" "valueSize t' = valueSize t" "kvUsed t' = 0"
proof -
  define t0 where "t0 = t\<lparr>used := 0, capacity := initialCapacity t,
    buckets := replicate (initialCapacity t) freeBucket, tombstones := 0, kvUsed := 0\<rparr>"
  have shape: "shape_inv t" using inv by (simp add: inv_defs)
  have "Clear t = Some (resizeKV (initialCapacity t0 div 2) t0)"
    using shape by (auto simp: Clear_def resizeTable_def Let_def t0_def shape_inv_def minCapacity_def)
  moreover have "tbl_inv (resizeKV (initialCapacity t0 div 2) t0)" "entries (resizeKV (initialCapacity t0 div 2) t0) = []"
    by (rule empty_table_inv; use shape in \<open>simp add: t0_def shape_inv_def\<close>)+
  ultimately show thesis by (intro that [of "resizeKV (initialCapacity t0 div 2) t0"]) (simp_all add: t0_def)
qed

text \<open>\<open>Iterate\<close> is a fold over the entries that stops at the first false.\<close>

fun fold_while :: "('a \<Rightarrow> 's \<Rightarrow> 's \<times> bool) \<Rightarrow> 'a list \<Rightarrow> 's \<Rightarrow> 's" where
  "fold_while f [] s = s"
| "fold_while f (x # xs) s = (case f x s of (s', go) \<Rightarrow> if go then fold_while f xs s' else s')"

lemma iterBuckets_fold:
  "iterBuckets t fn bs s
     = fold_while (\<lambda>(k, v). fn k v) (map (\<lambda>kv. (keyAt t kv, valAt t kv)) (filter isLive bs)) s"
  by (induction bs arbitrary: s) (auto simp: isLive_def split: prod.splits)

lemma Iterate_entries: "Iterate t fn s = fold_while (\<lambda>(k, v). fn k v) (entries t) s"
  by (simp add: Iterate_def entries_def iterBuckets_fold)

lemma fold_while_all:
  "(\<And>x s. x \<in> set xs \<Longrightarrow> snd (f x s)) \<Longrightarrow> fold_while f xs s = fold (\<lambda>x s. fst (f x s)) xs s"
proof (induction xs arbitrary: s)
  case Nil
  then show ?case by simp
next
  case (Cons x xs)
  obtain s' go where f: "f x s = (s', go)" by (cases "f x s")
  with Cons.prems [of x s] have go by simp
  with f Cons show ?case by simp
qed

lemma entries_length: "tbl_inv t \<Longrightarrow> length (entries t) = used t"
  by (simp add: entries_def inv_defs)


section \<open>The interface the chunk index relies on\<close>

text \<open>A keyed byte map with a capacity budget: \<open>room n t\<close> says that \<open>n\<close> more insertions
  cannot exhaust the 32-bit index space. Every operation returns, keeps the invariant and acts
  on the abstract map \<open>abs t\<close>.\<close>

locale byte_map =
  fixes inv :: "'t \<Rightarrow> bool"
    and abs :: "'t \<Rightarrow> bytes \<rightharpoonup> bytes"
    and ksize :: "'t \<Rightarrow> nat"
    and vsize :: "'t \<Rightarrow> nat"
    and room :: "nat \<Rightarrow> 't \<Rightarrow> bool"
    and get :: "'t \<Rightarrow> bytes \<Rightarrow> bytes option option"
    and put :: "'t \<Rightarrow> bytes \<Rightarrow> bytes \<Rightarrow> ('t \<times> ('e + unit)) option"
    and del :: "'t \<Rightarrow> bytes \<Rightarrow> ('t \<times> bool) option"
  assumes get_law: "inv t \<Longrightarrow> length k = ksize t \<Longrightarrow> get t k = Some (abs t k)"
    and put_law: "inv t \<Longrightarrow> length k = ksize t \<Longrightarrow> length v = vsize t \<Longrightarrow> room (Suc n) t \<Longrightarrow>
      \<exists>t'. put t k v = Some (t', Inr ()) \<and> inv t' \<and> abs t' = (abs t)(k \<mapsto> v)
        \<and> ksize t' = ksize t \<and> vsize t' = vsize t \<and> room n t'"
    and put_existing_law: "inv t \<Longrightarrow> length k = ksize t \<Longrightarrow> length v = vsize t \<Longrightarrow> abs t k \<noteq> None \<Longrightarrow>
      room n t \<Longrightarrow> \<exists>t'. put t k v = Some (t', Inr ()) \<and> inv t' \<and> abs t' = (abs t)(k \<mapsto> v)
        \<and> ksize t' = ksize t \<and> vsize t' = vsize t \<and> room n t'"
    and del_law: "inv t \<Longrightarrow> length k = ksize t \<Longrightarrow> room n t \<Longrightarrow>
      \<exists>t'. del t k = Some (t', abs t k \<noteq> None) \<and> inv t' \<and> abs t' = (abs t)(k := None)
        \<and> ksize t' = ksize t \<and> vsize t' = vsize t \<and> room n t'"
    and room_weaken: "room (Suc n) t \<Longrightarrow> room n t"
    and dom_law: "inv t \<Longrightarrow> abs t k = Some v \<Longrightarrow> length k = ksize t \<and> length v = vsize t"

text \<open>Sequences of updates, on a concrete map and on the abstract one.\<close>

datatype map_op = SetOp bytes bytes | DelOp bytes

fun run_ops ::
  "('t \<Rightarrow> bytes \<Rightarrow> bytes \<Rightarrow> ('t \<times> ('e + unit)) option) \<Rightarrow> ('t \<Rightarrow> bytes \<Rightarrow> ('t \<times> bool) option)
    \<Rightarrow> 't \<Rightarrow> map_op list \<Rightarrow> 't option" where
  "run_ops put del t [] = Some t"
| "run_ops put del t (SetOp k v # ops) = Option.bind (put t k v) (\<lambda>(t', _). run_ops put del t' ops)"
| "run_ops put del t (DelOp k # ops) = Option.bind (del t k) (\<lambda>(t', _). run_ops put del t' ops)"

fun abs_ops :: "(bytes \<rightharpoonup> bytes) \<Rightarrow> map_op list \<Rightarrow> (bytes \<rightharpoonup> bytes)" where
  "abs_ops m [] = m"
| "abs_ops m (SetOp k v # ops) = abs_ops (m(k \<mapsto> v)) ops"
| "abs_ops m (DelOp k # ops) = abs_ops (m(k := None)) ops"

fun op_sized :: "nat \<Rightarrow> nat \<Rightarrow> map_op \<Rightarrow> bool" where
  "op_sized ks vs (SetOp k v) \<longleftrightarrow> length k = ks \<and> length v = vs"
| "op_sized ks vs (DelOp k) \<longleftrightarrow> length k = ks"

context byte_map
begin

lemma run_ops_refines:
  assumes "inv t" and "room (length ops) t" and "\<forall>p\<in>set ops. op_sized (ksize t) (vsize t) p"
  shows "\<exists>t'. run_ops put del t ops = Some t' \<and> inv t' \<and> abs t' = abs_ops (abs t) ops
    \<and> ksize t' = ksize t \<and> vsize t' = vsize t"
  using assms
proof (induction ops arbitrary: t)
  case Nil
  then show ?case by simp
next
  case (Cons p ops)
  show ?case
  proof (cases p)
    case (SetOp k v)
    with Cons.prems obtain t1 where t1: "put t k v = Some (t1, Inr ())" "inv t1" "abs t1 = (abs t)(k \<mapsto> v)"
      "ksize t1 = ksize t" "vsize t1 = vsize t" "room (length ops) t1"
      using put_law [of t k v "length ops"] by auto
    from Cons.IH [of t1] t1(2,4,5,6) Cons.prems(3)
    obtain t' where t': "run_ops put del t1 ops = Some t'" "inv t'" "abs t' = abs_ops (abs t1) ops"
      "ksize t' = ksize t1" "vsize t' = vsize t1" by auto
    then show ?thesis unfolding t1(3) using SetOp t1(1,4,5) by (intro exI [of _ t']) simp
  next
    case (DelOp k)
    with Cons.prems obtain t1 where t1: "del t k = Some (t1, abs t k \<noteq> None)" "inv t1" "abs t1 = (abs t)(k := None)"
      "ksize t1 = ksize t" "vsize t1 = vsize t" "room (Suc (length ops)) t1"
      using del_law [of t k "Suc (length ops)"] by auto
    have "room (length ops) t1"
      using room_weaken [OF t1(6)] by simp
    with Cons.IH [of t1] t1(2,4,5) Cons.prems(3)
    obtain t' where t': "run_ops put del t1 ops = Some t'" "inv t'" "abs t' = abs_ops (abs t1) ops"
      "ksize t' = ksize t1" "vsize t' = vsize t1" by auto
    then show ?thesis unfolding t1(3) using DelOp t1(1,4,5) by (intro exI [of _ t']) simp
  qed
qed

end

text \<open>The table has room while fewer than \<open>2^29\<close> kv slots have been claimed. A slot is claimed
  per insertion and never returned, so the budget counts insertions over the table's life.\<close>

definition tbl_room :: "nat \<Rightarrow> table \<Rightarrow> bool" where
  "tbl_room n t \<longleftrightarrow> kvUsed t + n \<le> 2 ^ 29 \<and> initialCapacity t < 2 ^ 31"

lemma entry_lengths:
  assumes "tbl_inv t" and "map_of (entries t) k = Some v"
  shows "length k = keySize t" "length v = valueSize t"
proof -
  from assms(2) have "(k, v) \<in> set (entries t)" by (rule map_of_SomeD)
  then obtain i where i: "i < capacity t" "isLive (buckets t ! i)" "keyAt t (buckets t ! i) = k"
    "valAt t (buckets t ! i) = v"
    using entries_set [OF tbl_inv_base [OF assms(1)]] by auto
  then have "unat (buckets t ! i) < kvCapacity t"
    using assms(1) by (fastforce simp: inv_defs)
  from block_fits [OF this] i assms(1) show "length k = keySize t" "length v = valueSize t"
    by (auto simp: keyAt_def valAt_def inv_defs)
qed

interpretation ht: byte_map tbl_inv "\<lambda>t. map_of (entries t)" keySize valueSize tbl_room Get Set Delete
proof
  fix t and k v :: bytes and n
  assume inv: "tbl_inv t" and k: "length k = keySize t"
  show "Get t k = Some (map_of (entries t) k)" by (rule Get_correct [OF inv k])
  show "\<exists>t'. Set t k v = Some (t', Inr ()) \<and> tbl_inv t' \<and> map_of (entries t') = (map_of (entries t))(k \<mapsto> v)
      \<and> keySize t' = keySize t \<and> valueSize t' = valueSize t \<and> tbl_room n t'"
    if "length v = valueSize t" "tbl_room (Suc n) t"
    using Set_correct [OF inv k that(1)] that(2) by (fastforce simp: tbl_room_def)
  show "\<exists>t'. Set t k v = Some (t', Inr ()) \<and> tbl_inv t' \<and> map_of (entries t') = (map_of (entries t))(k \<mapsto> v)
      \<and> keySize t' = keySize t \<and> valueSize t' = valueSize t \<and> tbl_room n t'"
    if "length v = valueSize t" "map_of (entries t) k \<noteq> None" "tbl_room n t"
    using Set_existing_correct [OF inv k that(1,2)] that(3) by (fastforce simp: tbl_room_def)
  show "\<exists>t'. Delete t k = Some (t', map_of (entries t) k \<noteq> None) \<and> tbl_inv t'
      \<and> map_of (entries t') = (map_of (entries t))(k := None)
      \<and> keySize t' = keySize t \<and> valueSize t' = valueSize t \<and> tbl_room n t'" if "tbl_room n t"
    using Delete_correct [OF inv k] that by (fastforce simp: tbl_room_def)
next
  fix t k v
  assume "tbl_inv t" "map_of (entries t) k = Some v"
  then show "length k = keySize t \<and> length v = valueSize t" by (simp add: entry_lengths)
qed (auto simp: tbl_room_def)


text \<open>C7. The hash table refines a finite map. From a new table, any sequence of \<open>Set\<close> and
  \<open>Delete\<close> calls with well-sized keys and values (fewer than \<open>2^29\<close> of them) returns, without
  error and without a probe loop that runs forever; afterwards \<open>Get\<close> answers exactly as the
  finite map updated by the same sequence, \<open>Len\<close> is the number of its keys, and \<open>Iterate\<close>
  visits each key exactly once with its value.\<close>

theorem table_refines_map:
  assumes "4 \<le> ks" "0 < vs" "cap < 2 ^ 31" "length ops \<le> 2 ^ 29"
    and "list_all (op_sized ks vs) ops" "length k = ks"
  shows "\<exists>t t'. NewTable ks vs cap = Some (Inr t) \<and> run_ops Set Delete t ops = Some t' \<and> tbl_inv t'
    \<and> Get t' k = Some (abs_ops Map.empty ops k)
    \<and> used t' = card (dom (abs_ops Map.empty ops))
    \<and> distinct (map fst (entries t')) \<and> map_of (entries t') = abs_ops Map.empty ops"
proof -
  obtain t where t: "NewTable ks vs cap = Some (Inr t)" "tbl_inv t" "entries t = []" "keySize t = ks"
    "valueSize t = vs" "kvUsed t = 0" "initialCapacity t = max cap minCapacity"
    using NewTable_correct [of ks vs cap] assms by auto
  then have "tbl_room (length ops) t"
    using assms by (simp add: tbl_room_def minCapacity_def)
  then obtain t' where t': "run_ops Set Delete t ops = Some t'" "tbl_inv t'"
    "map_of (entries t') = abs_ops Map.empty ops" "keySize t' = ks"
    using ht.run_ops_refines [OF t(2), of ops] t assms(5) by (auto simp: list_all_iff)
  have dist: "distinct (map fst (entries t'))" using entries_distinct [OF tbl_inv_base [OF t'(2)]] .
  have "used t' = card (dom (abs_ops Map.empty ops))"
    using entries_length [OF t'(2)] dist t'(3) by (metis distinct_card dom_map_of_conv_image_fst length_map set_map)
  with t t' dist show ?thesis using Get_correct [OF t'(2)] assms(6) by auto
qed

theorem table_refines_map_witness:
  "\<exists>t t'. NewTable 4 1 0 = Some (Inr t)
    \<and> run_ops Set Delete t [SetOp [1,2,3,4] [7], SetOp [1,2,3,5] [8], DelOp [1,2,3,4]] = Some t' \<and> tbl_inv t'
    \<and> Get t' [1,2,3,5] = Some (Some [8])"
  using table_refines_map [of 4 1 0 "[SetOp [1,2,3,4] [7], SetOp [1,2,3,5] [8], DelOp [1,2,3,4]]" "[1,2,3,5]"]
  by auto

text \<open>C10. The probe loop of \<open>lookup\<close> has no bound in the source; on every table that satisfies
  the invariant it returns, at a bucket inside the array: the bucket that holds the key, or a
  free bucket when the key is absent.\<close>

theorem lookup_returns:
  assumes "tbl_inv t"
  shows "\<exists>i found. lookup t key = Some (i, found) \<and> i < capacity t
    \<and> (if found then isLive (buckets t ! i) \<and> keyAt t (buckets t ! i) = key else buckets t ! i = freeBucket)"
  using assms by (cases rule: lookup_cases [of t key]) auto

theorem lookup_returns_witness:
  "\<exists>t i found. NewTable 32 48 1000 = Some (Inr t) \<and> lookup t (replicate 32 5) = Some (i, found) \<and> i < capacity t"
proof -
  obtain t where t: "NewTable 32 48 1000 = Some (Inr t)" "tbl_inv t"
    using NewTable_correct [of 32 48 1000] by auto
  with lookup_returns [OF t(2), of "replicate 32 5"] show ?thesis by blast
qed

end
