(* ===== verification/Chunk_Index.thy ===== *)
theory Chunk_Index
  imports Hash_Table
begin

text \<open>
  The chunk index of \<^verbatim>\<open>src/internal/hashindex/chunkindex.go\<close>: 48-byte packed entries in the
  hash table, user and system flags, the counter of entries that are not yet persisted, and the
  operations the pack writer and the cache use. \<open>ci_map\<close> is the map from chunk id to entry that
  the index stands for, \<open>ci_inv\<close> its invariant.

  A pack id is a Go \<open>[32]byte\<close>; it is a byte list here, and \<open>entry_ok\<close> says that it has 32
  bytes. The \<open>scratch\<close> buffer of the struct only holds the bytes between \<open>encode\<close> and the
  table's copy of them and is left out.
\<close>

section \<open>Entries\<close>

definition ChunkIDSize :: nat where "ChunkIDSize = 32"
definition EntrySize :: nat where "EntrySize = 4 + 4 + 32 + 4 + 4"

definition FUsed :: uint32 where "FUsed = 1"
definition FCompress :: uint32 where "FCompress = 2"
definition FPending :: uint32 where "FPending = 4"
definition FNew :: uint32 where "FNew = 0x1000000"
definition MaskUser :: uint32 where "MaskUser = 0x00ffffff"
definition MaskSystem :: uint32 where "MaskSystem = 0xff000000"
definition UnknownInt32 :: uint32 where "UnknownInt32 = 0xFFFFFFFF"
definition UnknownBytes32 :: bytes where "UnknownBytes32 = replicate 32 0"

lemmas flag_defs = FUsed_def FCompress_def FPending_def FNew_def MaskUser_def MaskSystem_def

record entry =
  flags :: uint32
  esize :: uint32
  packID :: bytes
  objOffset :: uint32
  objSize :: uint32

definition entry_ok :: "entry \<Rightarrow> bool" where
  "entry_ok e \<longleftrightarrow> length (packID e) = 32"

definition encode_entry :: "entry \<Rightarrow> bytes" where
  "encode_entry e = put_u32_le (flags e) @ put_u32_le (esize e) @ packID e
     @ put_u32_le (objOffset e) @ put_u32_le (objSize e)"

definition decodeEntry :: "bytes \<Rightarrow> entry" where
  "decodeEntry buf =
     \<lparr>flags = get_u32_le buf, esize = get_u32_le (drop 4 buf), packID = slice 8 32 buf,
      objOffset = get_u32_le (drop 40 buf), objSize = get_u32_le (drop 44 buf)\<rparr>"

section \<open>The index and its operations\<close>

datatype index_error =
    TableError table_error
  | SizeConflict bytes uint32 uint32
  | UnknownChunk bytes

record chunk_index =
  ht :: table
  newCount :: int

definition NewChunkIndex :: "nat \<Rightarrow> (index_error + chunk_index) option" where
  "NewChunkIndex usable =
     (let capacity = (if usable > 0 \<and> usable * 2 > minCapacity then usable * 2 else minCapacity) in
      Option.bind (NewTable ChunkIDSize EntrySize capacity)
        (\<lambda>r. Some (case r of Inl e \<Rightarrow> Inl (TableError e) | Inr t \<Rightarrow> Inr \<lparr>ht = t, newCount = 0\<rparr>)))"

definition index_Len :: "chunk_index \<Rightarrow> nat" where
  "index_Len c = used (ht c)"

definition hideSystemFlags :: "entry \<Rightarrow> entry" where
  "hideSystemFlags e = e\<lparr>flags := flags e AND MaskUser\<rparr>"

definition index_Get :: "chunk_index \<Rightarrow> bytes \<Rightarrow> entry option option" where
  "index_Get c i = map_option (map_option (\<lambda>raw. hideSystemFlags (decodeEntry raw))) (Get (ht c) i)"

definition index_Contains :: "chunk_index \<Rightarrow> bytes \<Rightarrow> bool option" where
  "index_Contains c i = Contains (ht c) i"

definition index_Set :: "chunk_index \<Rightarrow> bytes \<Rightarrow> entry \<Rightarrow> (chunk_index \<times> (index_error + unit)) option" where
  "index_Set c i e =
     Option.bind (Get (ht c) i) (\<lambda>old.
       let (inserting, isNew, sys0) =
             (case old of None \<Rightarrow> (True, True, 0)
              | Some raw \<Rightarrow> (let prev = decodeEntry raw in
                  (False, flags prev AND FNew \<noteq> 0, flags prev AND MaskSystem)));
           systemFlags = (if isNew then sys0 OR FNew else sys0 AND NOT FNew);
           stored = e\<lparr>flags := systemFlags OR (flags e AND MaskUser)\<rparr> in
       Option.bind (Set (ht c) i (encode_entry stored)) (\<lambda>(t, r).
         case r of
           Inl err \<Rightarrow> Some (c\<lparr>ht := t\<rparr>, Inl (TableError err))
         | Inr _ \<Rightarrow> Some (c\<lparr>ht := t,
             newCount := (if inserting \<and> newCount c \<ge> 0 then newCount c + 1 else newCount c)\<rparr>, Inr ())))"

definition index_Add :: "chunk_index \<Rightarrow> bytes \<Rightarrow> uint32 \<Rightarrow> (chunk_index \<times> (index_error + unit)) option" where
  "index_Add c i sz =
     Option.bind (index_Get c i) (\<lambda>existing.
       case existing of
         Some ex \<Rightarrow>
           if esize ex \<noteq> 0 \<and> esize ex \<noteq> sz then Some (c, Inl (SizeConflict i (esize ex) sz))
           else index_Set c i \<lparr>flags = (flags ex OR FUsed) OR FPending, esize = sz,
                  packID = UnknownBytes32, objOffset = UnknownInt32, objSize = UnknownInt32\<rparr>
       | None \<Rightarrow> index_Set c i \<lparr>flags = FUsed OR FPending, esize = sz,
                  packID = UnknownBytes32, objOffset = UnknownInt32, objSize = UnknownInt32\<rparr>)"

definition index_Delete :: "chunk_index \<Rightarrow> bytes \<Rightarrow> (chunk_index \<times> bool) option" where
  "index_Delete c i =
     Option.bind (Get (ht c) i) (\<lambda>old.
       case old of
         None \<Rightarrow> Some (c, False)
       | Some raw \<Rightarrow>
           (let wasNew = (flags (decodeEntry raw) AND FNew \<noteq> 0) in
            Option.bind (Delete (ht c) i) (\<lambda>(t, ok).
              if \<not> ok then Some (c\<lparr>ht := t\<rparr>, False)
              else Some (c\<lparr>ht := t,
                newCount := (if newCount c \<ge> 0 \<and> wasNew then newCount c - 1 else newCount c)\<rparr>, True))))"

definition index_Clear :: "chunk_index \<Rightarrow> chunk_index option" where
  "index_Clear c = Option.bind (Clear (ht c)) (\<lambda>t. Some (c\<lparr>ht := t, newCount := 0\<rparr>))"

definition IsNew :: "chunk_index \<Rightarrow> bytes \<Rightarrow> bool option" where
  "IsNew c i = map_option (\<lambda>old. case old of None \<Rightarrow> False | Some raw \<Rightarrow> flags (decodeEntry raw) AND FNew \<noteq> 0)
     (Get (ht c) i)"

definition IsPending :: "chunk_index \<Rightarrow> bytes \<Rightarrow> bool option" where
  "IsPending c i = map_option (\<lambda>r. case r of None \<Rightarrow> False | Some e \<Rightarrow> flags e AND FPending \<noteq> 0) (index_Get c i)"

record pack_result =
  prChunkID :: bytes
  prPackID :: bytes
  prOffset :: uint32
  prSize :: uint32

fun UpdatePackInfo :: "chunk_index \<Rightarrow> pack_result list \<Rightarrow> (chunk_index \<times> (index_error + unit)) option" where
  "UpdatePackInfo c [] = Some (c, Inr ())"
| "UpdatePackInfo c (r # rs) =
     Option.bind (index_Get c (prChunkID r)) (\<lambda>found.
       case found of
         None \<Rightarrow> Some (c, Inl (UnknownChunk (prChunkID r)))
       | Some e \<Rightarrow>
           Option.bind (index_Set c (prChunkID r)
               (e\<lparr>flags := flags e AND NOT FPending, packID := prPackID r,
                  objOffset := prOffset r, objSize := prSize r\<rparr>)) (\<lambda>(c', res).
             case res of Inl err \<Rightarrow> Some (c', Inl err) | Inr _ \<Rightarrow> UpdatePackInfo c' rs))"

definition countNew :: "table \<Rightarrow> int" where
  "countNew t = Iterate t (\<lambda>_ v count. (if flags (decodeEntry v) AND FNew \<noteq> 0 then count + 1 else count, True)) 0"

definition NewCount :: "chunk_index \<Rightarrow> chunk_index \<times> int" where
  "NewCount c = (let c' = (if newCount c < 0 then c\<lparr>newCount := countNew (ht c)\<rparr> else c) in (c', newCount c'))"

definition collectNew :: "table \<Rightarrow> (bytes \<times> entry) list" where
  "collectNew t = Iterate t
     (\<lambda>k v acc. (let e = decodeEntry v in
        if flags e AND FNew \<noteq> 0 then acc @ [(k, e\<lparr>flags := flags e AND NOT FNew\<rparr>)] else acc, True)) []"

fun applyUpdates :: "table \<Rightarrow> (bytes \<times> entry) list \<Rightarrow> table option" where
  "applyUpdates t [] = Some t"
| "applyUpdates t ((k, e) # us) = Option.bind (Set t k (encode_entry e)) (\<lambda>(t', _). applyUpdates t' us)"

definition ClearNew :: "chunk_index \<Rightarrow> chunk_index option" where
  "ClearNew c = Option.bind (applyUpdates (ht c) (collectNew (ht c))) (\<lambda>t. Some (c\<lparr>ht := t, newCount := 0\<rparr>))"

definition index_Iterate :: "chunk_index \<Rightarrow> (bytes \<Rightarrow> entry \<Rightarrow> 's \<Rightarrow> 's \<times> bool) \<Rightarrow> 's \<Rightarrow> 's" where
  "index_Iterate c fn s = Iterate (ht c) (\<lambda>k v. fn k (hideSystemFlags (decodeEntry v))) s"

section \<open>Codec\<close>

lemma length_encode_entry [simp]: "entry_ok e \<Longrightarrow> length (encode_entry e) = EntrySize"
  by (simp add: encode_entry_def entry_ok_def EntrySize_def)

lemma decode_encode_entry [codec_simps]: "entry_ok e \<Longrightarrow> decodeEntry (encode_entry e) = e"
  using get_put_u32_le [of "objSize e" "[]"]
  by (simp add: decodeEntry_def encode_entry_def entry_ok_def slice_def codec_simps)

lemma decodeEntry_ok: "length buf = EntrySize \<Longrightarrow> entry_ok (decodeEntry buf)"
  by (simp add: decodeEntry_def entry_ok_def EntrySize_def)

section \<open>Invariant and abstraction\<close>

definition ci_map :: "chunk_index \<Rightarrow> bytes \<rightharpoonup> entry" where
  "ci_map c = map_option decodeEntry \<circ> map_of (entries (ht c))"

definition new_ids :: "(bytes \<rightharpoonup> entry) \<Rightarrow> bytes set" where
  "new_ids m = {k. \<exists>e. m k = Some e \<and> flags e AND FNew \<noteq> 0}"

definition ci_inv :: "chunk_index \<Rightarrow> bool" where
  "ci_inv c \<longleftrightarrow> tbl_inv (ht c) \<and> keySize (ht c) = ChunkIDSize \<and> valueSize (ht c) = EntrySize
     \<and> (newCount c = -1 \<or> newCount c = int (card (new_ids (ci_map c))))"

abbreviation ci_room :: "nat \<Rightarrow> chunk_index \<Rightarrow> bool" where
  "ci_room n c \<equiv> tbl_room n (ht c)"

lemma finite_ci_dom [simp]: "finite (dom (ci_map c))"
proof -
  have "dom (ci_map c) \<subseteq> dom (map_of (entries (ht c)))" by (auto simp: ci_map_def)
  then show ?thesis using finite_dom_map_of finite_subset by blast
qed

lemma finite_new_ids [simp]: "finite (new_ids (ci_map c))"
  by (rule finite_subset [OF _ finite_ci_dom [of c]]) (auto simp: new_ids_def)

lemma new_ids_upd_new: "flags e AND FNew \<noteq> 0 \<Longrightarrow> new_ids (m(k \<mapsto> e)) = insert k (new_ids m)"
  by (auto simp: new_ids_def)

lemma new_ids_upd_old: "flags e AND FNew = 0 \<Longrightarrow> new_ids (m(k \<mapsto> e)) = new_ids m - {k}"
  by (auto simp: new_ids_def)

lemma new_ids_del: "new_ids (m(k := None)) = new_ids m - {k}"
  by (auto simp: new_ids_def)

lemma raw_Get: "ci_inv c \<Longrightarrow> length i = ChunkIDSize \<Longrightarrow> Get (ht c) i = Some (map_of (entries (ht c)) i)"
  by (intro ht.get_law) (simp_all add: ci_inv_def)

lemma ci_map_ok: "ci_inv c \<Longrightarrow> ci_map c i = Some e \<Longrightarrow> entry_ok e \<and> length i = ChunkIDSize"
  using ht.dom_law [of "ht c" i] by (auto simp: ci_map_def ci_inv_def decodeEntry_ok)

section \<open>Flags\<close>

lemma mask_words: "FNew = 2 ^ 24" "FPending = 2 ^ 2" "FUsed = 2 ^ 0" "MaskUser = mask 24" "MaskSystem = NOT (mask 24)"
  by (simp_all add: flag_defs mask_eq_exp_minus_1)

lemma bit_flags [simp]:
  "bit FNew n \<longleftrightarrow> n = 24" "bit FPending n \<longleftrightarrow> n = 2" "bit FUsed n \<longleftrightarrow> n = 0"
  "bit MaskUser n \<longleftrightarrow> n < 24" "bit MaskSystem n \<longleftrightarrow> 24 \<le> n \<and> n < 32"
  unfolding mask_words by (auto simp only: bit_exp_iff bit_mask_iff bit_not_iff possible_bit_def) auto

lemma has_flag:
  "x AND FNew \<noteq> 0 \<longleftrightarrow> bit x 24" "x AND FPending \<noteq> 0 \<longleftrightarrow> bit x 2" "x AND FUsed \<noteq> 0 \<longleftrightarrow> bit x 0"
  unfolding mask_words by (simp_all only: and_exp_eq_0_iff_not_bit not_not)

lemma system_flags_kept:
  "(if x AND FNew \<noteq> 0 then (x AND MaskSystem) OR FNew else (x AND MaskSystem) AND NOT FNew) = x AND MaskSystem"
  unfolding has_flag by (rule bit_word_eqI) (auto simp: bit_simps)

text \<open>The flags \<open>Set\<close> stores: the system bits of the entry it replaces (or \<open>FNew\<close> for a new
  entry) and the user bits of the caller.\<close>

definition stored_entry :: "entry option \<Rightarrow> entry \<Rightarrow> entry" where
  "stored_entry old e = e\<lparr>flags := (case old of None \<Rightarrow> FNew | Some p \<Rightarrow> flags p AND MaskSystem) OR (flags e AND MaskUser)\<rparr>"

lemma stored_entry_new:
  "flags (stored_entry old e) AND FNew \<noteq> 0 \<longleftrightarrow> (case old of None \<Rightarrow> True | Some p \<Rightarrow> flags p AND FNew \<noteq> 0)"
  unfolding has_flag by (auto simp: stored_entry_def bit_simps split: option.splits)

lemma stored_entry_user: "hideSystemFlags (stored_entry old e) = hideSystemFlags e"
proof -
  have "(case old of None \<Rightarrow> FNew | Some p \<Rightarrow> flags p AND MaskSystem) AND MaskUser = 0"
    by (rule bit_word_eqI) (auto simp: bit_simps split: option.splits)
  then show ?thesis by (simp add: stored_entry_def hideSystemFlags_def bit.conj_disj_distrib2 and.assoc)
qed

section \<open>Correctness of the operations\<close>

lemma index_Get_correct:
  "ci_inv c \<Longrightarrow> length i = ChunkIDSize \<Longrightarrow> index_Get c i = Some (map_option hideSystemFlags (ci_map c i))"
  by (simp add: index_Get_def raw_Get ci_map_def option.map_comp comp_def)

lemma index_Set_step:
  assumes inv: "ci_inv c" and i: "length i = ChunkIDSize" and e: "entry_ok e"
    and t: "Set (ht c) i (encode_entry (stored_entry (ci_map c i) e)) = Some (t, Inr ())" "tbl_inv t"
    "map_of (entries t) = (map_of (entries (ht c)))(i \<mapsto> encode_entry (stored_entry (ci_map c i) e))"
    "keySize t = ChunkIDSize" "valueSize t = EntrySize"
  shows "\<exists>c'. index_Set c i e = Some (c', Inr ()) \<and> ci_inv c' \<and> ht c' = t
    \<and> ci_map c' = (ci_map c)(i \<mapsto> stored_entry (ci_map c i) e)"
proof -
  let ?old = "map_of (entries (ht c)) i" and ?s = "stored_entry (ci_map c i) e"
  have ok: "entry_ok ?s" using e by (simp add: stored_entry_def entry_ok_def)
  let ?n = "if ?old = None \<and> newCount c \<ge> 0 then newCount c + 1 else newCount c"
  let ?c = "c\<lparr>ht := t, newCount := ?n\<rparr>"
  have set: "index_Set c i e = Some (?c, Inr ())"
    using raw_Get [OF inv i] t(1)
    by (auto simp: index_Set_def ci_map_def stored_entry_def Let_def system_flags_kept split: option.splits)
  have map: "ci_map ?c = (ci_map c)(i \<mapsto> ?s)"
    using ok by (auto simp: ci_map_def t(3) decode_encode_entry fun_eq_iff)
  have "card (new_ids ((ci_map c)(i \<mapsto> ?s))) = (if ?old = None then Suc else id) (card (new_ids (ci_map c)))"
  proof (cases ?old)
    case None
    then have none: "ci_map c i = None" by (simp add: ci_map_def)
    then have "i \<notin> new_ids (ci_map c)" by (simp add: new_ids_def)
    moreover have "flags ?s AND FNew \<noteq> 0" using none by (simp add: stored_entry_new)
    ultimately show ?thesis using None by (simp add: new_ids_upd_new)
  next
    case (Some raw)
    then have old: "ci_map c i = Some (decodeEntry raw)" by (simp add: ci_map_def)
    have "new_ids ((ci_map c)(i \<mapsto> ?s)) = new_ids (ci_map c)"
      using stored_entry_new [of "ci_map c i" e] old by (auto simp: new_ids_def)
    then show ?thesis using Some by simp
  qed
  then have "?n = -1 \<or> ?n = int (card (new_ids (ci_map ?c)))"
    using inv unfolding map by (auto simp: ci_inv_def)
  then have "ci_inv ?c" using t by (simp add: ci_inv_def)
  with set map show ?thesis by auto
qed

lemma index_Set_correct:
  assumes inv: "ci_inv c" and i: "length i = ChunkIDSize" and e: "entry_ok e" and room: "ci_room (Suc n) c"
  shows "\<exists>c'. index_Set c i e = Some (c', Inr ()) \<and> ci_inv c' \<and> ci_room n c'
    \<and> ci_map c' = (ci_map c)(i \<mapsto> stored_entry (ci_map c i) e)"
proof -
  let ?s = "stored_entry (ci_map c i) e"
  have "entry_ok ?s" using e by (simp add: stored_entry_def entry_ok_def)
  then obtain t where t: "Set (ht c) i (encode_entry ?s) = Some (t, Inr ())" "tbl_inv t"
    "map_of (entries t) = (map_of (entries (ht c)))(i \<mapsto> encode_entry ?s)"
    "keySize t = ChunkIDSize" "valueSize t = EntrySize" "tbl_room n t"
    using ht.put_law [of "ht c" i "encode_entry ?s" n] inv i room by (auto simp: ci_inv_def)
  from index_Set_step [OF inv i e t(1-5)] t(6) show ?thesis by auto
qed

lemma index_Set_existing:
  assumes inv: "ci_inv c" and i: "length i = ChunkIDSize" and e: "entry_ok e" and room: "ci_room n c"
    and old: "ci_map c i \<noteq> None"
  shows "\<exists>c'. index_Set c i e = Some (c', Inr ()) \<and> ci_inv c' \<and> ci_room n c'
    \<and> ci_map c' = (ci_map c)(i \<mapsto> stored_entry (ci_map c i) e)"
proof -
  let ?s = "stored_entry (ci_map c i) e"
  have "entry_ok ?s" using e by (simp add: stored_entry_def entry_ok_def)
  then obtain t where t: "Set (ht c) i (encode_entry ?s) = Some (t, Inr ())" "tbl_inv t"
    "map_of (entries t) = (map_of (entries (ht c)))(i \<mapsto> encode_entry ?s)"
    "keySize t = ChunkIDSize" "valueSize t = EntrySize" "tbl_room n t"
    using ht.put_existing_law [of "ht c" i "encode_entry ?s" n] inv i room old by (auto simp: ci_inv_def ci_map_def)
  from index_Set_step [OF inv i e t(1-5)] t(6) show ?thesis by auto
qed

lemma index_Get_None_length: "ci_inv c \<Longrightarrow> length i \<noteq> ChunkIDSize \<Longrightarrow> index_Get c i = Some None"
  by (simp add: index_Get_def Get_def ci_inv_def)

text \<open>What \<open>Add\<close> records: referenced, pending, location unknown, the user flags of an entry
  that was there already.\<close>

definition added_entry :: "entry option \<Rightarrow> uint32 \<Rightarrow> entry" where
  "added_entry old sz =
     \<lparr>flags = (case old of None \<Rightarrow> FUsed | Some p \<Rightarrow> (flags p AND MaskUser) OR FUsed) OR FPending, esize = sz,
      packID = UnknownBytes32, objOffset = UnknownInt32, objSize = UnknownInt32\<rparr>"

definition size_conflict :: "entry option \<Rightarrow> uint32 \<Rightarrow> bool" where
  "size_conflict old sz \<longleftrightarrow> (\<exists>p. old = Some p \<and> esize p \<noteq> 0 \<and> esize p \<noteq> sz)"

lemma index_Add_correct:
  assumes inv: "ci_inv c" and i: "length i = ChunkIDSize" and room: "ci_room (Suc n) c"
    and size: "\<not> size_conflict (ci_map c i) sz"
  shows "\<exists>c'. index_Add c i sz = Some (c', Inr ()) \<and> ci_inv c' \<and> ci_room n c'
    \<and> ci_map c' = (ci_map c)(i \<mapsto> stored_entry (ci_map c i) (added_entry (ci_map c i) sz))"
proof -
  have ok: "entry_ok (added_entry (ci_map c i) sz)"
    by (simp add: added_entry_def entry_ok_def UnknownBytes32_def)
  have "index_Add c i sz = index_Set c i (added_entry (ci_map c i) sz)"
    using size index_Get_correct [OF inv i]
    by (auto simp: index_Add_def added_entry_def size_conflict_def hideSystemFlags_def split: option.splits)
  with index_Set_correct [OF inv i ok room] show ?thesis by simp
qed

lemma index_Add_conflict:
  assumes inv: "ci_inv c" and i: "length i = ChunkIDSize" and size: "size_conflict (ci_map c i) sz"
  shows "\<exists>old. index_Add c i sz = Some (c, Inl (SizeConflict i old sz))"
  using size index_Get_correct [OF inv i]
  by (auto simp: index_Add_def size_conflict_def hideSystemFlags_def)

lemma index_Delete_correct:
  assumes inv: "ci_inv c" and i: "length i = ChunkIDSize" and room: "ci_room n c"
  shows "\<exists>c'. index_Delete c i = Some (c', ci_map c i \<noteq> None) \<and> ci_inv c' \<and> ci_room n c'
    \<and> ci_map c' = (ci_map c)(i := None)"
proof (cases "map_of (entries (ht c)) i")
  case None
  then have none: "ci_map c i = None" by (simp add: ci_map_def)
  have "index_Delete c i = Some (c, False)"
    using raw_Get [OF inv i] None by (simp add: index_Delete_def)
  with inv none room show ?thesis by (auto simp: fun_upd_idem)
next
  case (Some raw)
  then have old: "ci_map c i = Some (decodeEntry raw)" by (simp add: ci_map_def)
  obtain t where t: "Delete (ht c) i = Some (t, True)" "tbl_inv t"
    "map_of (entries t) = (map_of (entries (ht c)))(i := None)"
    "keySize t = ChunkIDSize" "valueSize t = EntrySize" "tbl_room n t"
    using ht.del_law [of "ht c" i n] inv i room Some by (auto simp: ci_inv_def)
  let ?new = "flags (decodeEntry raw) AND FNew \<noteq> 0"
  let ?n = "if newCount c \<ge> 0 \<and> ?new then newCount c - 1 else newCount c"
  let ?c = "c\<lparr>ht := t, newCount := ?n\<rparr>"
  have del: "index_Delete c i = Some (?c, True)"
    using raw_Get [OF inv i] Some t(1) by (simp add: index_Delete_def Let_def)
  have map: "ci_map ?c = (ci_map c)(i := None)"
    by (auto simp: ci_map_def t(3) fun_eq_iff)
  have "i \<in> new_ids (ci_map c) \<longleftrightarrow> ?new" using old by (simp add: new_ids_def)
  then have "int (card (new_ids (ci_map c) - {i})) = int (card (new_ids (ci_map c))) - (if ?new then 1 else 0)"
    using card_Suc_Diff1 [of "new_ids (ci_map c)" i] by (cases ?new) (auto simp: of_nat_diff)
  then have "?n = -1 \<or> ?n = int (card (new_ids (ci_map ?c)))"
    using inv unfolding map new_ids_del by (auto simp: ci_inv_def)
  then have "ci_inv ?c" using t by (simp add: ci_inv_def)
  with del map t(6) old show ?thesis by auto
qed

text \<open>Resolved locations on the abstract map. A chunk that is reported twice keeps the last
  location.\<close>

definition resolved :: "entry \<Rightarrow> pack_result \<Rightarrow> entry" where
  "resolved e r = e\<lparr>flags := flags e AND NOT FPending, packID := prPackID r,
     objOffset := prOffset r, objSize := prSize r\<rparr>"

fun resolve_all :: "(bytes \<rightharpoonup> entry) \<Rightarrow> pack_result list \<Rightarrow> (bytes \<rightharpoonup> entry)" where
  "resolve_all m [] = m"
| "resolve_all m (r # rs) = resolve_all (m(prChunkID r := map_option (\<lambda>e. resolved e r) (m (prChunkID r)))) rs"

lemma stored_resolved:
  "stored_entry (Some e) ((hideSystemFlags e)\<lparr>flags := flags (hideSystemFlags e) AND NOT FPending, packID := p,
     objOffset := off, objSize := sz\<rparr>) = e\<lparr>flags := flags e AND NOT FPending, packID := p, objOffset := off, objSize := sz\<rparr>"
proof -
  have "(flags e AND MaskSystem) OR (((flags e AND MaskUser) AND NOT FPending) AND MaskUser) = flags e AND NOT FPending"
    by (rule bit_word_eqI) (auto simp: bit_simps)
  then show ?thesis by (cases e) (simp add: stored_entry_def hideSystemFlags_def)
qed

lemma UpdatePackInfo_correct:
  assumes "ci_inv c" and "ci_room n c" and "\<forall>r\<in>set rs. prChunkID r \<in> dom (ci_map c) \<and> length (prPackID r) = 32"
  shows "\<exists>c'. UpdatePackInfo c rs = Some (c', Inr ()) \<and> ci_inv c' \<and> ci_room n c' \<and> ci_map c' = resolve_all (ci_map c) rs"
  using assms
proof (induction rs arbitrary: c)
  case Nil
  then show ?case by simp
next
  case (Cons r rs)
  let ?i = "prChunkID r"
  obtain e where e: "ci_map c ?i = Some e" using Cons.prems(3) by auto
  then have i: "length ?i = ChunkIDSize" using ci_map_ok [OF Cons.prems(1)] by blast
  let ?e = "(hideSystemFlags e)\<lparr>flags := flags (hideSystemFlags e) AND NOT FPending, packID := prPackID r,
     objOffset := prOffset r, objSize := prSize r\<rparr>"
  have "entry_ok ?e" using Cons.prems(3) by (simp add: entry_ok_def)
  then obtain c1 where c1: "index_Set c ?i ?e = Some (c1, Inr ())" "ci_inv c1" "ci_room n c1"
    "ci_map c1 = (ci_map c)(?i \<mapsto> stored_entry (ci_map c ?i) ?e)"
    using index_Set_existing [OF Cons.prems(1) i _ Cons.prems(2), of ?e] e by blast
  have m1: "ci_map c1 = (ci_map c)(?i \<mapsto> resolved e r)"
    unfolding c1(4) e stored_resolved by (simp add: resolved_def)
  have "\<forall>r\<in>set rs. prChunkID r \<in> dom (ci_map c1) \<and> length (prPackID r) = 32"
    using Cons.prems(3) m1 by auto
  from Cons.IH [OF c1(2,3) this] obtain c' where c': "UpdatePackInfo c1 rs = Some (c', Inr ())" "ci_inv c'"
    "ci_room n c'" "ci_map c' = resolve_all (ci_map c1) rs" by blast
  have "UpdatePackInfo c (r # rs) = Some (c', Inr ())"
    using c1(1) index_Get_correct [OF Cons.prems(1) i] e c'(1) by simp
  then show ?case using c' e unfolding m1 by (intro exI [of _ c']) simp
qed


lemma index_Contains_correct:
  "ci_inv c \<Longrightarrow> length i = ChunkIDSize \<Longrightarrow> index_Contains c i = Some (ci_map c i \<noteq> None)"
  by (simp add: index_Contains_def Contains_correct ci_inv_def ci_map_def)

lemma IsNew_correct: "ci_inv c \<Longrightarrow> length i = ChunkIDSize \<Longrightarrow> IsNew c i = Some (i \<in> new_ids (ci_map c))"
  by (auto simp: IsNew_def raw_Get ci_map_def new_ids_def split: option.splits)

lemma NewChunkIndex_correct:
  assumes "usable < 2 ^ 30"
  obtains c where "NewChunkIndex usable = Some (Inr c)" "ci_inv c" "ci_map c = Map.empty" "ci_room (2 ^ 29) c"
    "newCount c = 0"
proof -
  let ?cap = "if usable > 0 \<and> usable * 2 > minCapacity then usable * 2 else minCapacity"
  have cap: "?cap < 2 ^ 31" using assms by (auto simp: minCapacity_def)
  then obtain t where t: "NewTable ChunkIDSize EntrySize ?cap = Some (Inr t)" "tbl_inv t" "entries t = []"
    "keySize t = ChunkIDSize" "valueSize t = EntrySize" "kvUsed t = 0" "initialCapacity t = max ?cap minCapacity"
    using NewTable_correct [of ChunkIDSize EntrySize ?cap] by (auto simp: ChunkIDSize_def EntrySize_def)
  let ?c = "\<lparr>ht = t, newCount = 0\<rparr>"
  have "NewChunkIndex usable = Some (Inr ?c)" using t(1) by (simp add: NewChunkIndex_def Let_def)
  moreover have map: "ci_map ?c = Map.empty" by (simp add: ci_map_def t(3) fun_eq_iff)
  moreover have "ci_inv ?c" using t map by (simp add: ci_inv_def new_ids_def)
  moreover have "ci_room (2 ^ 29) ?c" using t cap by (simp add: tbl_room_def minCapacity_def)
  ultimately show thesis by (intro that [of ?c]) simp_all
qed

section \<open>Counting and clearing the new entries\<close>

lemma countNew_entries: "countNew t = int (length (filter (\<lambda>(k, v). flags (decodeEntry v) AND FNew \<noteq> 0) (entries t)))"
proof -
  let ?f = "\<lambda>(k :: bytes, v) (count :: int). (if flags (decodeEntry v) AND FNew \<noteq> 0 then count + 1 else count, True)"
  have "fold (\<lambda>x s. fst (?f x s)) xs n = n + int (length (filter (\<lambda>(k, v). flags (decodeEntry v) AND FNew \<noteq> 0) xs))"
    for xs :: "(bytes \<times> bytes) list" and n :: int
    by (induction xs arbitrary: n) auto
  moreover have "fold_while ?f (entries t) 0 = fold (\<lambda>x s. fst (?f x s)) (entries t) 0"
    by (rule fold_while_all) auto
  ultimately show ?thesis unfolding countNew_def Iterate_entries by (simp add: case_prod_beta')
qed

lemma countNew_correct:
  assumes "ci_inv c"
  shows "countNew (ht c) = int (card (new_ids (ci_map c)))"
proof -
  let ?P = "\<lambda>(k, v). flags (decodeEntry v) AND FNew \<noteq> 0"
  have d: "distinct (map fst (entries (ht c)))"
    using assms entries_distinct by (auto simp: ci_inv_def)
  have "new_ids (ci_map c) = fst ` set (filter ?P (entries (ht c)))"
  proof -
    have "map_of (entries (ht c)) k = Some v \<longleftrightarrow> (k, v) \<in> set (entries (ht c))" for k v using d by simp
    then have "new_ids (ci_map c) = {k. \<exists>v. (k, v) \<in> set (entries (ht c)) \<and> flags (decodeEntry v) AND FNew \<noteq> 0}"
      by (auto simp: new_ids_def ci_map_def simp del: map_of_eq_Some_iff)
    then show ?thesis by (force simp: image_iff)
  qed
  moreover have "distinct (map fst (filter ?P (entries (ht c))))" using d by (rule distinct_map_filter)
  ultimately have "card (new_ids (ci_map c)) = length (filter ?P (entries (ht c)))"
    using distinct_card [of "map fst (filter ?P (entries (ht c)))"] by (simp only: set_map length_map)
  then show ?thesis by (simp add: countNew_entries)
qed

lemma collectNew_entries:
  "collectNew t = map (\<lambda>(k, v). (k, (decodeEntry v)\<lparr>flags := flags (decodeEntry v) AND NOT FNew\<rparr>))
     (filter (\<lambda>(k, v). flags (decodeEntry v) AND FNew \<noteq> 0) (entries t))"
proof -
  let ?f = "\<lambda>(k, v) acc. (let e = decodeEntry v in
        if flags e AND FNew \<noteq> 0 then acc @ [(k, e\<lparr>flags := flags e AND NOT FNew\<rparr>)] else acc, True)"
  have "fold (\<lambda>x s. fst (?f x s)) xs acc = acc @ map (\<lambda>(k, v). (k, (decodeEntry v)\<lparr>flags := flags (decodeEntry v) AND NOT FNew\<rparr>))
     (filter (\<lambda>(k, v). flags (decodeEntry v) AND FNew \<noteq> 0) xs)" for xs :: "(bytes \<times> bytes) list" and acc
    by (induction xs arbitrary: acc) (auto simp: Let_def)
  moreover have "fold_while ?f (entries t) [] = fold (\<lambda>x s. fst (?f x s)) (entries t) []"
    by (rule fold_while_all) auto
  ultimately show ?thesis unfolding collectNew_def Iterate_entries by (simp add: case_prod_beta')
qed

fun put_all :: "(bytes \<rightharpoonup> bytes) \<Rightarrow> (bytes \<times> entry) list \<Rightarrow> (bytes \<rightharpoonup> bytes)" where
  "put_all m [] = m"
| "put_all m ((k, e) # us) = put_all (m(k \<mapsto> encode_entry e)) us"

lemma applyUpdates_correct:
  assumes "tbl_inv t" "keySize t = ChunkIDSize" "valueSize t = EntrySize" "tbl_room n t"
    and "\<forall>(k, e)\<in>set us. map_of (entries t) k \<noteq> None \<and> entry_ok e"
  shows "\<exists>t'. applyUpdates t us = Some t' \<and> tbl_inv t' \<and> keySize t' = ChunkIDSize \<and> valueSize t' = EntrySize
    \<and> tbl_room n t' \<and> map_of (entries t') = put_all (map_of (entries t)) us"
  using assms
proof (induction us arbitrary: t)
  case Nil
  then show ?case by simp
next
  case (Cons u us)
  obtain k e where u: "u = (k, e)" by (cases u)
  have k: "length k = ChunkIDSize" using Cons.prems u ht.dom_law [of t k] by auto
  obtain t1 where t1: "Set t k (encode_entry e) = Some (t1, Inr ())" "tbl_inv t1"
    "map_of (entries t1) = (map_of (entries t))(k \<mapsto> encode_entry e)"
    "keySize t1 = ChunkIDSize" "valueSize t1 = EntrySize" "tbl_room n t1"
    using ht.put_existing_law [of t k "encode_entry e" n] Cons.prems u k by auto
  have "\<forall>(k, e)\<in>set us. map_of (entries t1) k \<noteq> None \<and> entry_ok e"
    using Cons.prems(5) t1(3) by auto
  from Cons.IH [OF t1(2,4,5,6) this] obtain t' where t': "applyUpdates t1 us = Some t'" "tbl_inv t'"
    "keySize t' = ChunkIDSize" "valueSize t' = EntrySize" "tbl_room n t'"
    "map_of (entries t') = put_all (map_of (entries t1)) us" by blast
  then show ?case unfolding t1(3) using t1(1) u by (intro exI [of _ t']) simp
qed


lemma put_all_apply:
  "distinct (map fst us) \<Longrightarrow> put_all m us k = (case map_of us k of None \<Rightarrow> m k | Some e \<Rightarrow> Some (encode_entry e))"
proof (induction m us rule: put_all.induct)
  case (1 m)
  then show ?case by simp
next
  case (2 m k' e us)
  then have none: "map_of us k' = None" by (simp add: map_of_eq_None_iff)
  from 2 have "put_all (m(k' \<mapsto> encode_entry e)) us k
    = (case map_of us k of None \<Rightarrow> (m(k' \<mapsto> encode_entry e)) k | Some e \<Rightarrow> Some (encode_entry e))"
    by (intro "2.IH") simp
  then show ?case by (cases "k = k'"; cases "map_of us k") (simp_all add: none)
qed

definition cleared :: "entry \<Rightarrow> entry" where
  "cleared e = e\<lparr>flags := flags e AND NOT FNew\<rparr>"

lemma cleared_old: "flags e AND FNew = 0 \<Longrightarrow> cleared e = e"
proof -
  assume "flags e AND FNew = 0"
  then have "\<not> bit (flags e) 24" using has_flag(1) by blast
  then have "flags e AND NOT FNew = flags e" by (intro bit_word_eqI) (auto simp: bit_simps)
  then show ?thesis by (simp add: cleared_def)
qed

lemma cleared_flag: "flags (cleared e) AND FNew = 0"
  by (simp add: cleared_def and.assoc)

lemma map_of_collectNew:
  assumes inv: "ci_inv c"
  shows "map_of (collectNew (ht c)) k
    = (case ci_map c k of None \<Rightarrow> None | Some e \<Rightarrow> if flags e AND FNew \<noteq> 0 then Some (cleared e) else None)"
proof -
  let ?P = "\<lambda>(k :: bytes, v). flags (decodeEntry v) AND FNew \<noteq> 0"
  have "distinct (map fst xs) \<Longrightarrow> map_of (map (\<lambda>(k, v). (k, cleared (decodeEntry v))) (filter ?P xs)) k
    = (case map_of xs k of None \<Rightarrow> None | Some v \<Rightarrow> if flags (decodeEntry v) AND FNew \<noteq> 0 then Some (cleared (decodeEntry v)) else None)"
    for xs
  proof (induction xs)
    case Nil
    then show ?case by simp
  next
    case (Cons x xs)
    obtain k' v where x: "x = (k', v)" by (cases x)
    with Cons.prems have "map_of xs k' = None" by (auto simp: map_of_eq_None_iff)
    with Cons x show ?case by (auto split: option.splits)
  qed
  moreover have "distinct (map fst (entries (ht c)))" using inv entries_distinct by (auto simp: ci_inv_def)
  ultimately show ?thesis
    by (cases "map_of (entries (ht c)) k")
      (simp_all add: collectNew_entries cleared_def [symmetric] ci_map_def del: map_of_eq_None_iff map_of_eq_Some_iff)
qed

lemma ClearNew_correct:
  assumes inv: "ci_inv c" and room: "ci_room n c"
  shows "\<exists>c'. ClearNew c = Some c' \<and> ci_inv c' \<and> ci_room n c' \<and> ci_map c' = map_option cleared \<circ> ci_map c
    \<and> newCount c' = 0"
proof -
  let ?us = "collectNew (ht c)"
  have d: "distinct (map fst (entries (ht c)))" and t: "tbl_inv (ht c)" using inv entries_distinct by (auto simp: ci_inv_def)
  have du: "distinct (map fst ?us)"
    using distinct_map_filter [OF d, of "\<lambda>(k, v). flags (decodeEntry v) AND FNew \<noteq> 0"]
    by (simp add: collectNew_entries comp_def case_prod_beta')
  have us: "\<forall>(k, e)\<in>set ?us. map_of (entries (ht c)) k \<noteq> None \<and> entry_ok e"
  proof (clarify)
    fix k e assume "(k, e) \<in> set ?us"
    with du have "map_of ?us k = Some e" by simp
    then obtain e0 where "ci_map c k = Some e0" "e = cleared e0"
      using map_of_collectNew [OF inv] by (auto split: option.splits if_splits)
    with ci_map_ok [OF inv, of k e0] show "map_of (entries (ht c)) k \<noteq> None \<and> entry_ok e"
      by (auto simp: ci_map_def entry_ok_def cleared_def)
  qed
  obtain t' where t': "applyUpdates (ht c) ?us = Some t'" "tbl_inv t'" "keySize t' = ChunkIDSize"
    "valueSize t' = EntrySize" "tbl_room n t'" "map_of (entries t') = put_all (map_of (entries (ht c))) ?us"
    using applyUpdates_correct [OF t _ _ room us] inv by (auto simp: ci_inv_def)
  let ?c = "c\<lparr>ht := t', newCount := 0\<rparr>"
  have map: "ci_map ?c = map_option cleared \<circ> ci_map c"
  proof
    fix k
    have ok: "entry_ok e" if "map_of ?us k = Some e" for e
      using us du that map_of_SomeD [OF that] by auto
    have "ci_map ?c k = map_option decodeEntry (put_all (map_of (entries (ht c))) ?us k)"
      by (simp add: ci_map_def t'(6))
    also have "\<dots> = (case map_of ?us k of None \<Rightarrow> ci_map c k | Some e \<Rightarrow> Some e)"
      using ok by (auto simp: put_all_apply [OF du] ci_map_def decode_encode_entry split: option.splits)
    also have "\<dots> = map_option cleared (ci_map c k)"
      unfolding map_of_collectNew [OF inv] using cleared_old by (auto split: option.splits)
    finally show "ci_map ?c k = (map_option cleared \<circ> ci_map c) k" by simp
  qed
  have "new_ids (map_option cleared \<circ> ci_map c) = {}" by (auto simp: new_ids_def cleared_flag)
  then have "ci_inv ?c" using t' map by (simp add: ci_inv_def)
  with t'(1,5) map show ?thesis by (auto simp: ClearNew_def)
qed


lemma index_Clear_correct:
  assumes inv: "ci_inv c"
  obtains c' where "index_Clear c = Some c'" "ci_inv c'" "ci_map c' = Map.empty" "newCount c' = 0"
proof -
  obtain t where t: "Clear (ht c) = Some t" "tbl_inv t" "entries t = []" "keySize t = ChunkIDSize" "valueSize t = EntrySize"
    using Clear_correct [of "ht c"] inv by (auto simp: ci_inv_def)
  let ?c = "c\<lparr>ht := t, newCount := 0\<rparr>"
  have map: "ci_map ?c = Map.empty" by (simp add: ci_map_def t(3) fun_eq_iff)
  then have "ci_inv ?c" using t by (simp add: ci_inv_def new_ids_def)
  with t(1) map show thesis by (intro that [of ?c]) (simp_all add: index_Clear_def)
qed


lemma NewCount_correct:
  assumes inv: "ci_inv c"
  shows "snd (NewCount c) = int (card (new_ids (ci_map c)))" "ci_inv (fst (NewCount c))"
    "ci_map (fst (NewCount c)) = ci_map c"
  using inv countNew_correct [OF inv] by (auto simp: NewCount_def ci_inv_def Let_def ci_map_def)

lemma resolve_all_dom: "dom (resolve_all m rs) = dom m"
  by (induction rs arbitrary: m) (auto simp: dom_def)

lemma UpdatePackInfo_Cons:
  "UpdatePackInfo c (r # rs) = Option.bind (UpdatePackInfo c [r])
     (\<lambda>(c', res). case res of Inl err \<Rightarrow> Some (c', Inl err) | Inr _ \<Rightarrow> UpdatePackInfo c' rs)"
proof (cases "index_Get c (prChunkID r)")
  case (Some found)
  then show ?thesis
  proof (cases found)
    case (Some e)
    let ?set = "index_Set c (prChunkID r) (e\<lparr>flags := flags e AND NOT FPending, packID := prPackID r,
      objOffset := prOffset r, objSize := prSize r\<rparr>)"
    from Some \<open>index_Get c (prChunkID r) = Some found\<close> show ?thesis
      by (cases ?set rule: option.exhaust [case_names no yes]; (cases "snd (the ?set)")?) (auto split: prod.splits)
  qed simp
qed simp

lemma UpdatePackInfo_prefix:
  assumes inv: "ci_inv c" and room: "ci_room n c" and rs: "\<forall>r\<in>set rs. length (prPackID r) = 32"
  shows "\<exists>c' res. UpdatePackInfo c rs = Some (c', res) \<and> ci_inv c' \<and> ci_room n c'
    \<and> ci_map c' = resolve_all (ci_map c) (takeWhile (\<lambda>r. prChunkID r \<in> dom (ci_map c)) rs)
    \<and> (res = Inr () \<longleftrightarrow> (\<forall>r\<in>set rs. prChunkID r \<in> dom (ci_map c)))"
  using inv room rs
proof (induction rs arbitrary: c)
  case Nil
  then show ?case by simp
next
  case (Cons r rs)
  let ?i = "prChunkID r"
  show ?case
  proof (cases "ci_map c ?i")
    case None
    then have "index_Get c ?i = Some None"
      using index_Get_correct [OF Cons.prems(1), of ?i] index_Get_None_length [OF Cons.prems(1), of ?i] by auto
    with None Cons.prems show ?thesis by auto
  next
    case (Some e)
    obtain c1 where c1: "UpdatePackInfo c [r] = Some (c1, Inr ())" "ci_inv c1" "ci_room n c1"
      "ci_map c1 = resolve_all (ci_map c) [r]"
      using UpdatePackInfo_correct [OF Cons.prems(1,2), of "[r]"] Some Cons.prems(3) by (auto simp: dom_def)
    have "UpdatePackInfo c (r # rs) = UpdatePackInfo c1 rs"
      unfolding UpdatePackInfo_Cons [of c r rs] c1(1) by simp
    moreover have "\<forall>r\<in>set rs. length (prPackID r) = 32" using Cons.prems(3) by simp
    note ih = Cons.IH [OF c1(2,3) this, unfolded c1(4) resolve_all_dom]
    have "prChunkID r \<in> dom (ci_map c)" using Some by auto
    then have "resolve_all (ci_map c) (takeWhile (\<lambda>r. prChunkID r \<in> dom (ci_map c)) (r # rs))
        = resolve_all (resolve_all (ci_map c) [r]) (takeWhile (\<lambda>r. prChunkID r \<in> dom (ci_map c)) rs)"
      and "(\<forall>x\<in>set (r # rs). prChunkID x \<in> dom (ci_map c)) \<longleftrightarrow> (\<forall>x\<in>set rs. prChunkID x \<in> dom (ci_map c))"
      by simp_all
    note ih [folded this]
    with calculation show ?thesis by (simp only:)
  qed
qed

section \<open>Sequences of operations\<close>

datatype index_op =
    AddOp bytes uint32
  | PutOp bytes entry
  | RemoveOp bytes
  | ResolveOp "pack_result list"
  | ClearNewOp

fun index_step :: "chunk_index \<Rightarrow> index_op \<Rightarrow> chunk_index option" where
  "index_step c (AddOp i sz) = map_option fst (index_Add c i sz)"
| "index_step c (PutOp i e) = map_option fst (index_Set c i e)"
| "index_step c (RemoveOp i) = map_option fst (index_Delete c i)"
| "index_step c (ResolveOp rs) = map_option fst (UpdatePackInfo c rs)"
| "index_step c ClearNewOp = ClearNew c"

fun index_run :: "chunk_index \<Rightarrow> index_op list \<Rightarrow> chunk_index option" where
  "index_run c [] = Some c"
| "index_run c (x # xs) = Option.bind (index_step c x) (\<lambda>c'. index_run c' xs)"

text \<open>The specification: a map from id to entry.\<close>

fun spec_step :: "(bytes \<rightharpoonup> entry) \<Rightarrow> index_op \<Rightarrow> (bytes \<rightharpoonup> entry)" where
  "spec_step m (AddOp i sz) = (if size_conflict (m i) sz then m else m(i \<mapsto> stored_entry (m i) (added_entry (m i) sz)))"
| "spec_step m (PutOp i e) = m(i \<mapsto> stored_entry (m i) e)"
| "spec_step m (RemoveOp i) = m(i := None)"
| "spec_step m (ResolveOp rs) = resolve_all m (takeWhile (\<lambda>r. prChunkID r \<in> dom m) rs)"
| "spec_step m ClearNewOp = map_option cleared \<circ> m"

fun index_op_ok :: "index_op \<Rightarrow> bool" where
  "index_op_ok (AddOp i sz) \<longleftrightarrow> length i = ChunkIDSize"
| "index_op_ok (PutOp i e) \<longleftrightarrow> length i = ChunkIDSize \<and> entry_ok e"
| "index_op_ok (RemoveOp i) \<longleftrightarrow> length i = ChunkIDSize"
| "index_op_ok (ResolveOp rs) \<longleftrightarrow> list_all (\<lambda>r. length (prPackID r) = 32) rs"
| "index_op_ok ClearNewOp \<longleftrightarrow> True"

lemma ci_room_weaken: "ci_room (Suc n) c \<Longrightarrow> ci_room n c"
  by (simp add: tbl_room_def)

lemma index_step_correct:
  assumes inv: "ci_inv c" and room: "ci_room (Suc n) c" and ok: "index_op_ok x"
  shows "\<exists>c'. index_step c x = Some c' \<and> ci_inv c' \<and> ci_room n c' \<and> ci_map c' = spec_step (ci_map c) x"
proof -
  note room' = ci_room_weaken [OF room]
  show ?thesis
  proof (cases x)
    case (AddOp i sz)
    with ok have i: "length i = ChunkIDSize" by simp
    show ?thesis
    proof (cases "size_conflict (ci_map c i) sz")
      case True
      from index_Add_conflict [OF inv i True] show ?thesis using AddOp True inv room' by auto
    next
      case False
      from index_Add_correct [OF inv i room False] obtain c' where "index_Add c i sz = Some (c', Inr ())"
        "ci_inv c'" "ci_room n c'" "ci_map c' = (ci_map c)(i \<mapsto> stored_entry (ci_map c i) (added_entry (ci_map c i) sz))"
        by blast
      then show ?thesis using AddOp False by (intro exI [of _ c']) simp
    qed
  next
    case (PutOp i e)
    with ok index_Set_correct [OF inv _ _ room, of i e] obtain c' where "index_Set c i e = Some (c', Inr ())"
      "ci_inv c'" "ci_room n c'" "ci_map c' = (ci_map c)(i \<mapsto> stored_entry (ci_map c i) e)" by auto
    then show ?thesis using PutOp by (intro exI [of _ c']) simp
  next
    case (RemoveOp i)
    with ok index_Delete_correct [OF inv _ room', of i] obtain c' b where "index_Delete c i = Some (c', b)"
      "ci_inv c'" "ci_room n c'" "ci_map c' = (ci_map c)(i := None)" by auto
    then show ?thesis using RemoveOp by (intro exI [of _ c']) simp
  next
    case (ResolveOp rs)
    with ok UpdatePackInfo_prefix [OF inv room', of rs] show ?thesis by (fastforce simp: list_all_iff)
  next
    case ClearNewOp
    with ClearNew_correct [OF inv room'] show ?thesis by auto
  qed
qed

lemma index_run_correct:
  assumes "ci_inv c" and "ci_room (length xs) c" and "list_all index_op_ok xs"
  shows "\<exists>c'. index_run c xs = Some c' \<and> ci_inv c' \<and> ci_map c' = foldl spec_step (ci_map c) xs"
  using assms
proof (induction xs arbitrary: c)
  case (Cons x xs)
  then obtain c1 where c1: "index_step c x = Some c1" "ci_inv c1" "ci_room (length xs) c1"
    "ci_map c1 = spec_step (ci_map c) x"
    using index_step_correct [of c "length xs" x] by auto
  from Cons.IH [OF c1(2,3)] Cons.prems(3) show ?case by (auto simp: c1)
qed simp

lemma index_Len_correct: "ci_inv c \<Longrightarrow> index_Len c = card (dom (ci_map c))"
proof -
  assume inv: "ci_inv c"
  then have t: "tbl_inv (ht c)" by (simp add: ci_inv_def)
  have "dom (ci_map c) = dom (map_of (entries (ht c)))" by (auto simp: ci_map_def)
  then show ?thesis
    using entries_length [OF t] entries_distinct [OF tbl_inv_base [OF t]]
    by (metis distinct_card dom_map_of_conv_image_fst index_Len_def length_map set_map)
qed

text \<open>C8. The chunk index refines a map from chunk id to entry. From a new index, any sequence of
  \<open>Add\<close>, \<open>Set\<close>, \<open>Delete\<close>, \<open>UpdatePackInfo\<close> and \<open>ClearNew\<close> calls returns; then \<open>Get\<close> shows the entry
  of the specification with its system flags masked out, \<open>Len\<close> is the number of ids, and
  \<open>NewCount\<close> and \<open>IsNew\<close> report exactly the entries that were inserted and not cleared.\<close>

theorem index_refines_map:
  assumes "usable < 2 ^ 30" "length xs \<le> 2 ^ 29" "list_all index_op_ok xs" "length i = ChunkIDSize"
  shows "\<exists>c c'. NewChunkIndex usable = Some (Inr c) \<and> index_run c xs = Some c' \<and> ci_inv c'
    \<and> index_Get c' i = Some (map_option hideSystemFlags (foldl spec_step Map.empty xs i))
    \<and> index_Len c' = card (dom (foldl spec_step Map.empty xs))
    \<and> snd (NewCount c') = int (card (new_ids (foldl spec_step Map.empty xs)))
    \<and> IsNew c' i = Some (i \<in> new_ids (foldl spec_step Map.empty xs))"
proof -
  obtain c where c: "NewChunkIndex usable = Some (Inr c)" "ci_inv c" "ci_map c = Map.empty" "ci_room (2 ^ 29) c"
    using NewChunkIndex_correct [OF assms(1)] by metis
  then have "ci_room (length xs) c" using assms(2) by (simp add: tbl_room_def)
  then obtain c' where c': "index_run c xs = Some c'" "ci_inv c'" "ci_map c' = foldl spec_step Map.empty xs"
    using index_run_correct [OF c(2) _ assms(3)] c(3) by auto
  then show ?thesis
    using c(1) index_Get_correct [OF c'(2) assms(4)] index_Len_correct [OF c'(2)] NewCount_correct(1) [OF c'(2)]
      IsNew_correct [OF c'(2) assms(4)] by auto
qed

theorem index_refines_map_witness:
  "\<exists>c c'. NewChunkIndex 100 = Some (Inr c)
    \<and> index_run c [AddOp (replicate 32 1) 500, ClearNewOp, AddOp (replicate 32 2) 7] = Some c'
    \<and> IsNew c' (replicate 32 2) = Some True"
  using index_refines_map [of 100 "[AddOp (replicate 32 1) 500, ClearNewOp, AddOp (replicate 32 2) 7]" "replicate 32 2"]
  by (auto simp: ChunkIDSize_def size_conflict_def new_ids_def stored_entry_def added_entry_def flag_defs)


section \<open>The life of an entry\<close>

lemma encode_decode_entry: "length buf = EntrySize \<Longrightarrow> encode_entry (decodeEntry buf) = buf"
proof -
  assume l: "length buf = EntrySize"
  have put: "put_u32_le (get_u32_le (drop n buf)) = take 4 (drop n buf)" if "n + 4 \<le> 48" for n
    using l that by (intro put_get_u32_le) (simp add: EntrySize_def)
  have "buf = take 4 buf @ take 4 (drop 4 buf) @ take 32 (drop 8 buf) @ take 4 (drop 40 buf) @ take 4 (drop 44 buf)"
    using l append_take_drop_id [of 4 buf] append_take_drop_id [of 4 "drop 4 buf"] append_take_drop_id [of 32 "drop 8 buf"]
      append_take_drop_id [of 4 "drop 40 buf"] by (simp add: EntrySize_def)
  then show ?thesis
    using put [of 0] put [of 4] put [of 40] put [of 44] by (simp add: encode_entry_def decodeEntry_def slice_def)
qed

text \<open>The packed entry format loses nothing: an entry with a 32-byte pack id is encoded in 48
  bytes that decode to the same entry, and every 48-byte value is the encoding of the entry it
  decodes to.\<close>

theorem entry_codec:
  "(entry_ok e \<longrightarrow> length (encode_entry e) = EntrySize \<and> decodeEntry (encode_entry e) = e)
    \<and> (length buf = EntrySize \<longrightarrow> entry_ok (decodeEntry buf) \<and> encode_entry (decodeEntry buf) = buf)"
  by (simp_all add: decode_encode_entry encode_decode_entry decodeEntry_ok)

theorem entry_codec_witness:
  "decodeEntry (encode_entry \<lparr>flags = 5, esize = 0x01020304, packID = replicate 32 9, objOffset = 1, objSize = 2\<rparr>)
     = \<lparr>flags = 5, esize = 0x01020304, packID = replicate 32 9, objOffset = 1, objSize = 2\<rparr>
   \<and> encode_entry (decodeEntry (replicate 48 3)) = replicate 48 3"
  using entry_codec [of "\<lparr>flags = 5, esize = 0x01020304, packID = replicate 32 9, objOffset = 1, objSize = 2\<rparr>" "replicate 48 3"]
  by (simp add: entry_ok_def EntrySize_def)

lemma pending_flags:
  assumes "f = (case old of None \<Rightarrow> FUsed | Some p \<Rightarrow> (flags p AND MaskUser) OR FUsed) OR FPending"
  shows "bit f 2" "bit f 0"
  using assms by (auto simp: bit_simps split: option.splits)

lemma hide_bit: "n < 24 \<Longrightarrow> bit (flags (hideSystemFlags e)) n = bit (flags e) n"
  by (auto simp: hideSystemFlags_def bit_simps)

lemma IsPending_correct:
  "ci_inv c \<Longrightarrow> length i = ChunkIDSize \<Longrightarrow>
    IsPending c i = Some (case ci_map c i of None \<Rightarrow> False | Some e \<Rightarrow> bit (flags e) 2)"
  by (simp add: IsPending_def index_Get_correct has_flag hide_bit split: option.splits)

text \<open>C9. A chunk that is added is pending until its pack is stored: \<open>Add\<close> records it as used
  and pending with its size; \<open>UpdatePackInfo\<close> with the location the pack writer reports then
  makes \<open>Get\<close> return that pack, offset and stored size, still used, with the pending flag gone,
  and leaves every other id as it was.\<close>

theorem add_then_resolve:
  assumes inv: "ci_inv c" and room: "ci_room 1 c" and i: "length i = ChunkIDSize" and j: "length j = ChunkIDSize" "j \<noteq> i"
    and size: "\<not> size_conflict (ci_map c i) sz" and r: "prChunkID r = i" "length (prPackID r) = 32"
  shows "\<exists>c1 c2 e. index_Add c i sz = Some (c1, Inr ()) \<and> IsPending c1 i = Some True
    \<and> UpdatePackInfo c1 [r] = Some (c2, Inr ()) \<and> IsPending c2 i = Some False
    \<and> index_Get c2 i = Some (Some e) \<and> esize e = sz \<and> packID e = prPackID r \<and> objOffset e = prOffset r
    \<and> objSize e = prSize r \<and> flags e AND FUsed \<noteq> 0 \<and> index_Get c2 j = index_Get c j"
proof -
  let ?s = "stored_entry (ci_map c i) (added_entry (ci_map c i) sz)"
  obtain c1 where c1: "index_Add c i sz = Some (c1, Inr ())" "ci_inv c1" "ci_room 0 c1" "ci_map c1 = (ci_map c)(i \<mapsto> ?s)"
    using index_Add_correct [OF inv i _ size, of 0] room by auto
  obtain c2 where c2: "UpdatePackInfo c1 [r] = Some (c2, Inr ())" "ci_inv c2" "ci_map c2 = resolve_all (ci_map c1) [r]"
    using UpdatePackInfo_correct [OF c1(2,3), of "[r]"] c1(4) r by auto
  have m2: "ci_map c2 = (ci_map c)(i \<mapsto> resolved ?s r)" using c2(3) c1(4) r by simp
  have "bit (flags ?s) n = bit (flags (added_entry (ci_map c i) sz)) n" if "n < 24" for n
    using hide_bit [OF that, of ?s] hide_bit [OF that, of "added_entry (ci_map c i) sz"] by (simp add: stored_entry_user)
  then have bits: "bit (flags ?s) 2" "bit (flags ?s) 0"
    using pending_flags [OF refl, of "ci_map c i"] by (simp_all add: added_entry_def)
  have "esize (resolved ?s r) = sz" by (simp add: resolved_def stored_entry_def added_entry_def)
  moreover have "bit (flags (resolved ?s r)) 0" "\<not> bit (flags (resolved ?s r)) 2"
    using bits by (simp_all add: resolved_def bit_simps)
  ultimately show ?thesis
    using c1(1) c2(1) bits IsPending_correct [OF c1(2) i] IsPending_correct [OF c2(2) i] index_Get_correct [OF c2(2) i]
      index_Get_correct [OF c2(2) j(1)] index_Get_correct [OF inv j(1)] j(2)
    by (intro exI [of _ c1] exI [of _ c2] exI [of _ "hideSystemFlags (resolved ?s r)"])
      (simp add: c1(4) m2 has_flag hide_bit, simp add: hideSystemFlags_def resolved_def)
qed

theorem add_then_resolve_witness:
  "\<exists>c c1 c2 e. NewChunkIndex 0 = Some (Inr c) \<and> index_Add c (replicate 32 1) 77 = Some (c1, Inr ())
    \<and> UpdatePackInfo c1 [\<lparr>prChunkID = replicate 32 1, prPackID = replicate 32 9, prOffset = 50, prSize = 60\<rparr>] = Some (c2, Inr ())
    \<and> index_Get c2 (replicate 32 1) = Some (Some e) \<and> esize e = 77 \<and> objOffset e = 50 \<and> packID e = replicate 32 9"
proof -
  obtain c where c: "NewChunkIndex 0 = Some (Inr c)" "ci_inv c" "ci_map c = Map.empty" "ci_room (2 ^ 29) c"
    using NewChunkIndex_correct [of 0] by auto
  let ?i = "replicate 32 1 :: bytes" and ?j = "replicate 32 2 :: bytes"
  let ?r = "\<lparr>prChunkID = ?i, prPackID = replicate 32 9, prOffset = 50, prSize = 60\<rparr>"
  have room: "ci_room 1 c" using c(4) by (simp add: tbl_room_def)
  have prems: "length ?i = ChunkIDSize" "length ?j = ChunkIDSize" "?j \<noteq> ?i" "\<not> size_conflict (ci_map c ?i) 77"
    "prChunkID ?r = ?i" "length (prPackID ?r) = 32"
    by (simp_all add: ChunkIDSize_def size_conflict_def c(3))
  obtain c1 c2 e where "index_Add c ?i 77 = Some (c1, Inr ())" "UpdatePackInfo c1 [?r] = Some (c2, Inr ())"
    "index_Get c2 ?i = Some (Some e)" "esize e = 77" "packID e = prPackID ?r" "objOffset e = prOffset ?r"
    using add_then_resolve [OF c(2) room prems] by blast
  with c(1) show ?thesis by (intro exI [of _ c] exI [of _ c1] exI [of _ c2] exI [of _ e]) simp
qed

end
