(* ===== verification/Msgpack_Value.thy ===== *)
theory Msgpack_Value
  imports Borge_Prelude "HOL-Library.Multiset" "HOL-Library.Signed_Division"
begin

text \<open>
  The values of \<^verbatim>\<open>src/internal/msgpackx\<close>: what Go keeps in an \<open>any\<close> (\<^verbatim>\<open>value.go\<close>), the
  operations on the ordered \<open>Map\<close>, CPython's order on map keys (\<^verbatim>\<open>pystr.go\<close>) and the timestamp
  conversions. Strings are byte lists, as Go strings are. An \<open>int64\<close> is a 64-bit word read with
  \<open>sint\<close>; a \<open>float64\<close> is its bit pattern.
\<close>

type_synonym int64 = "64 word"

datatype mp_value =
    VNil
  | VBool bool
  | VInt int64
  | VUint uint64
  | VFloat uint64
  | VStr bytes
  | VBin bytes
  | VTime int64 uint32
  | VExt byte bytes
  | VArr "mp_value list"
  | VMap bool "(mp_value \<times> mp_value) list"
  | VGoMap "(bytes \<times> mp_value) list"
  | VOther

text \<open>\<open>VMap\<close> is a \<open>*Map\<close> with its \<open>Stable\<close> flag, \<open>VGoMap\<close> a \<open>map[string]any\<close> listed in some
  order, \<open>VOther\<close> a value of a type the encoder does not know.\<close>

type_synonym mp_entries = "(mp_value \<times> mp_value) list"

section \<open>Keys\<close>

definition asInt :: "mp_value \<Rightarrow> int option" where
  "asInt v = (case v of
     VInt n \<Rightarrow> Some (sint n)
   | VUint n \<Rightarrow> (if n > 0x7FFFFFFFFFFFFFFF then None else Some (uint n))
   | VBool b \<Rightarrow> Some (if b then 1 else 0)
   | _ \<Rightarrow> None)"

text \<open>Go's \<open>==\<close> on the bit patterns of two \<open>float64\<close>: a NaN differs from everything and the two
  zeros are equal.\<close>

definition float_is_nan :: "uint64 \<Rightarrow> bool" where
  "float_is_nan f \<longleftrightarrow> f AND 0x7FFFFFFFFFFFFFFF > 0x7FF0000000000000"

definition float_eq :: "uint64 \<Rightarrow> uint64 \<Rightarrow> bool" where
  "float_eq f g \<longleftrightarrow> \<not> float_is_nan f \<and> \<not> float_is_nan g
     \<and> (f = g \<or> (f AND 0x7FFFFFFFFFFFFFFF = 0 \<and> g AND 0x7FFFFFFFFFFFFFFF = 0))"

text \<open>\<open>a == b\<close> on two interface values. Two values of the same uncomparable type (a slice, or
  \<open>Ext\<close>, which contains one) make Go panic; two \<open>*Map\<close> compare as pointers, which the model does
  not have. Both are \<open>None\<close>.\<close>

definition iface_eq :: "mp_value \<Rightarrow> mp_value \<Rightarrow> bool option" where
  "iface_eq a b = (case a of
     VNil \<Rightarrow> Some (b = VNil)
   | VBool x \<Rightarrow> Some (b = VBool x)
   | VInt x \<Rightarrow> Some (b = VInt x)
   | VUint x \<Rightarrow> Some (b = VUint x)
   | VFloat x \<Rightarrow> Some (case b of VFloat y \<Rightarrow> float_eq x y | _ \<Rightarrow> False)
   | VStr x \<Rightarrow> Some (b = VStr x)
   | VTime s n \<Rightarrow> Some (b = VTime s n)
   | VBin _ \<Rightarrow> (case b of VBin _ \<Rightarrow> None | _ \<Rightarrow> Some False)
   | VExt _ _ \<Rightarrow> (case b of VExt _ _ \<Rightarrow> None | _ \<Rightarrow> Some False)
   | VArr _ \<Rightarrow> (case b of VArr _ \<Rightarrow> None | _ \<Rightarrow> Some False)
   | VMap _ _ \<Rightarrow> (case b of VMap _ _ \<Rightarrow> None | _ \<Rightarrow> Some False)
   | VGoMap _ \<Rightarrow> (case b of VGoMap _ \<Rightarrow> None | _ \<Rightarrow> Some False)
   | VOther \<Rightarrow> (case b of VOther \<Rightarrow> None | _ \<Rightarrow> Some False))"

definition keysEqual :: "mp_value \<Rightarrow> mp_value \<Rightarrow> bool option" where
  "keysEqual a b = (case a of
     VStr x \<Rightarrow> Some (case b of VStr y \<Rightarrow> x = y | _ \<Rightarrow> False)
   | VBin x \<Rightarrow> Some (case b of VBin y \<Rightarrow> x = y | _ \<Rightarrow> False)
   | _ \<Rightarrow> (case (asInt a, asInt b) of
        (Some na, Some nb) \<Rightarrow> Some (na = nb)
      | _ \<Rightarrow> iface_eq a b))"

section \<open>Operations on ordered maps\<close>

fun map_Set :: "mp_entries \<Rightarrow> mp_value \<Rightarrow> mp_value \<Rightarrow> mp_entries option" where
  "map_Set [] key v = Some [(key, v)]"
| "map_Set ((k, w) # es) key v =
     Option.bind (keysEqual k key) (\<lambda>eq.
       if eq then Some ((k, v) # es) else map_option ((#) (k, w)) (map_Set es key v))"

fun map_Get :: "mp_entries \<Rightarrow> mp_value \<Rightarrow> mp_value option option" where
  "map_Get [] key = Some None"
| "map_Get ((k, w) # es) key =
     Option.bind (keysEqual k key) (\<lambda>eq. if eq then Some (Some w) else map_Get es key)"

fun map_Delete :: "mp_entries \<Rightarrow> mp_value \<Rightarrow> (mp_entries \<times> bool) option" where
  "map_Delete [] key = Some ([], False)"
| "map_Delete ((k, w) # es) key =
     Option.bind (keysEqual k key) (\<lambda>eq.
       if eq then Some (es, True) else map_option (\<lambda>(es', r). ((k, w) # es', r)) (map_Delete es key))"

text \<open>Lookups with a string key never compare two values of an uncomparable type, so they do not
  panic (\<open>map_Get_str\<close> below); they are total functions here.\<close>

fun get_str :: "mp_entries \<Rightarrow> bytes \<Rightarrow> mp_value option" where
  "get_str [] key = None"
| "get_str ((k, w) # es) key = (if k = VStr key then Some w else get_str es key)"

definition GetString :: "mp_entries \<Rightarrow> bytes \<Rightarrow> bytes option" where
  "GetString m key = (case get_str m key of Some (VStr s) \<Rightarrow> Some s | _ \<Rightarrow> None)"

definition GetBytes :: "mp_entries \<Rightarrow> bytes \<Rightarrow> bytes option" where
  "GetBytes m key = (case get_str m key of Some (VBin b) \<Rightarrow> Some b | _ \<Rightarrow> None)"

definition GetInt :: "mp_entries \<Rightarrow> bytes \<Rightarrow> int64 option" where
  "GetInt m key = (case get_str m key of
     Some (VInt n) \<Rightarrow> Some n
   | Some (VUint n) \<Rightarrow> (if n > 0x7FFFFFFFFFFFFFFF then None else Some n)
   | _ \<Rightarrow> None)"

lemma keysEqual_str: "keysEqual k (VStr key) = Some (k = VStr key)"
  by (cases k) (auto simp: keysEqual_def asInt_def iface_eq_def)

lemma map_Get_str: "map_Get es (VStr key) = Some (get_str es key)"
  by (induction es) (auto simp: keysEqual_str)

section \<open>CPython's order on strings\<close>

text \<open>\<open>utf8.DecodeRuneInString\<close>: the first rune and its width. A malformed sequence gives
  \<open>RuneError\<close> and width 1, the empty string width 0.\<close>

definition RuneError :: nat where "RuneError = 0xFFFD"

definition cont_byte :: "nat \<Rightarrow> nat \<Rightarrow> byte \<Rightarrow> bool" where
  "cont_byte lo hi b \<longleftrightarrow> lo \<le> unat b \<and> unat b \<le> hi"

definition second_range :: "nat \<Rightarrow> nat \<times> nat" where
  "second_range b0 =
     (if b0 = 0xE0 then (0xA0, 0xBF) else if b0 = 0xED then (0x80, 0x9F)
      else if b0 = 0xF0 then (0x90, 0xBF) else if b0 = 0xF4 then (0x80, 0x8F) else (0x80, 0xBF))"

fun decodeRune :: "bytes \<Rightarrow> nat \<times> nat" where
  "decodeRune [] = (RuneError, 0)"
| "decodeRune (b0 # bs) =
     (let x = unat b0; (lo, hi) = second_range x in
      if x < 0x80 then (x, 1)
      else if 0xC2 \<le> x \<and> x \<le> 0xDF then
        (case bs of b1 # _ \<Rightarrow> if cont_byte lo hi b1 then ((x - 0xC0) * 64 + (unat b1 - 0x80), 2) else (RuneError, 1)
         | _ \<Rightarrow> (RuneError, 1))
      else if 0xE0 \<le> x \<and> x \<le> 0xEF then
        (case bs of b1 # b2 # _ \<Rightarrow>
           if cont_byte lo hi b1 \<and> cont_byte 0x80 0xBF b2
           then ((x - 0xE0) * 4096 + (unat b1 - 0x80) * 64 + (unat b2 - 0x80), 3) else (RuneError, 1)
         | _ \<Rightarrow> (RuneError, 1))
      else if 0xF0 \<le> x \<and> x \<le> 0xF4 then
        (case bs of b1 # b2 # b3 # _ \<Rightarrow>
           if cont_byte lo hi b1 \<and> cont_byte 0x80 0xBF b2 \<and> cont_byte 0x80 0xBF b3
           then ((x - 0xF0) * 262144 + (unat b1 - 0x80) * 4096 + (unat b2 - 0x80) * 64 + (unat b3 - 0x80), 4)
           else (RuneError, 1)
         | _ \<Rightarrow> (RuneError, 1))
      else (RuneError, 1))"

definition decodePyRune :: "bytes \<Rightarrow> nat \<times> nat" where
  "decodePyRune s = (let (r, size) = decodeRune s in
     if r = RuneError \<and> size \<le> 1 then (0xDC00 + unat (s ! 0), 1) else (r, size))"

lemma decodePyRune_size: "s \<noteq> [] \<Longrightarrow> 0 < snd (decodePyRune s) \<and> snd (decodePyRune s) \<le> length s"
  by (cases s rule: decodeRune.cases)
    (auto simp: decodePyRune_def Let_def RuneError_def split: prod.splits list.splits if_splits)

function comparePyStr :: "bytes \<Rightarrow> bytes \<Rightarrow> int" where
  "comparePyStr a b =
     (if a \<noteq> [] \<and> b \<noteq> [] then
        (if fst (decodePyRune a) \<noteq> fst (decodePyRune b)
         then (if fst (decodePyRune a) < fst (decodePyRune b) then -1 else 1)
         else comparePyStr (drop (snd (decodePyRune a)) a) (drop (snd (decodePyRune b)) b))
      else if length a < length b then -1 else if length a > length b then 1 else 0)"
  by pat_completeness auto
termination
proof (relation "measure (length \<circ> fst)", simp)
  fix a b :: bytes
  assume "a \<noteq> [] \<and> b \<noteq> []"
  then show "((drop (snd (decodePyRune a)) a, drop (snd (decodePyRune b)) b), a, b) \<in> measure (length \<circ> fst)"
    using decodePyRune_size [of a] by (cases a) auto
qed

declare comparePyStr.simps [simp del]

fun compareBytes :: "bytes \<Rightarrow> bytes \<Rightarrow> int" where
  "compareBytes (x # a) (y # b) = (if x \<noteq> y then (if x < y then -1 else 1) else compareBytes a b)"
| "compareBytes a b = (if length a < length b then -1 else if length a > length b then 1 else 0)"

datatype key_class = KStr | KBytes | KInt | KNone

definition key_class :: "mp_value \<Rightarrow> key_class" where
  "key_class k = (case k of VStr _ \<Rightarrow> KStr | VBin _ \<Rightarrow> KBytes | _ \<Rightarrow> if asInt k = None then KNone else KInt)"

definition keyLess :: "mp_value \<Rightarrow> mp_value \<Rightarrow> bool option" where
  "keyLess a b = (case a of
     VStr x \<Rightarrow> (case b of VStr y \<Rightarrow> Some (comparePyStr x y < 0) | _ \<Rightarrow> None)
   | VBin x \<Rightarrow> (case b of VBin y \<Rightarrow> Some (compareBytes x y < 0) | _ \<Rightarrow> None)
   | _ \<Rightarrow> (case (asInt a, asInt b) of (Some na, Some nb) \<Rightarrow> Some (na < nb) | _ \<Rightarrow> None))"


text \<open>\<open>sort.SliceStable\<close> with \<open>keyLess\<close>. The algorithm compares every entry of a list of two or more
  with another one, and the comparisons it makes connect all entries; so a comparison fails
  exactly when the keys are not all of one ordered class. The stable order is the one of an
  insertion sort. \<open>None\<close> is the error of mixed keys.\<close>

definition sortable :: "mp_entries \<Rightarrow> bool" where
  "sortable es \<longleftrightarrow> length es < 2 \<or>
     (key_class (fst (hd es)) \<noteq> KNone \<and> list_all (\<lambda>e. key_class (fst e) = key_class (fst (hd es))) es)"

fun insert_entry :: "mp_value \<times> mp_value \<Rightarrow> mp_entries \<Rightarrow> mp_entries" where
  "insert_entry x [] = [x]"
| "insert_entry x (y # ys) = (if keyLess (fst y) (fst x) = Some True then y # insert_entry x ys else x # y # ys)"

definition sort_entries :: "mp_entries \<Rightarrow> mp_entries" where
  "sort_entries es = foldr insert_entry es []"

definition sortedEntries :: "mp_entries \<Rightarrow> mp_entries option" where
  "sortedEntries es = (if sortable es then Some (sort_entries es) else None)"

lemma mset_insert_entry [simp]: "mset (insert_entry x ys) = add_mset x (mset ys)"
  by (induction ys) auto

lemma mset_sort_entries [simp]: "mset (sort_entries es) = mset es"
proof -
  have "mset (foldr insert_entry es acc) = mset es + mset acc" for acc
    by (induction es arbitrary: acc) auto
  from this [of "[]"] show ?thesis by (simp add: sort_entries_def)
qed

lemma set_sort_entries [simp]: "set (sort_entries es) = set es"
  using mset_sort_entries mset_eq_setD by blast

lemma length_sort_entries [simp]: "length (sort_entries es) = length es"
  using mset_sort_entries mset_eq_length by blast

subsection \<open>Strings as rune sequences\<close>

function pyRunes :: "bytes \<Rightarrow> nat list" where
  "pyRunes s = (if s = [] then [] else (let (r, n) = decodePyRune s in r # pyRunes (drop n s)))"
  by pat_completeness auto
termination
proof (relation "measure length", simp)
  fix s :: bytes and x r n
  assume "s \<noteq> []" "x = decodePyRune s" "(r, n) = x"
  then have "0 < n" "length s > 0" using decodePyRune_size [of s] by (auto simp: prod_eq_iff)
  then show "(drop n s, s) \<in> measure length" by simp
qed

declare pyRunes.simps [simp del]

fun cmp_list :: "nat list \<Rightarrow> nat list \<Rightarrow> int" where
  "cmp_list [] [] = 0"
| "cmp_list [] (y # ys) = -1"
| "cmp_list (x # xs) [] = 1"
| "cmp_list (x # xs) (y # ys) = (if x < y then -1 else if y < x then 1 else cmp_list xs ys)"

lemma cmp_list_0: "cmp_list xs ys = 0 \<longleftrightarrow> xs = ys"
  by (induction xs ys rule: cmp_list.induct) auto

lemma cmp_list_swap: "cmp_list ys xs = - cmp_list xs ys"
  by (induction xs ys rule: cmp_list.induct) auto

lemma cmp_list_trans: "cmp_list xs ys < 0 \<Longrightarrow> cmp_list ys zs < 0 \<Longrightarrow> cmp_list xs zs < 0"
proof (induction xs ys arbitrary: zs rule: cmp_list.induct)
  case (2 y ys)
  then show ?case by (cases zs) auto
next
  case (4 x xs y ys)
  then show ?case
  proof (cases zs)
    case (Cons z zs')
    show ?thesis
    proof (cases "x = y \<and> y = z")
      case True
      with Cons 4 show ?thesis by simp
    next
      case False
      with Cons 4(2,3) show ?thesis by (simp split: if_splits)
    qed
  qed simp
qed simp_all

lemma comparePyStr_runes: "comparePyStr a b = cmp_list (pyRunes a) (pyRunes b)"
proof (induction a b rule: comparePyStr.induct)
  case (1 a b)
  show ?case
  proof (cases "a \<noteq> [] \<and> b \<noteq> []")
    case True
    obtain ra na rb nb where d: "decodePyRune a = (ra, na)" "decodePyRune b = (rb, nb)" by fastforce
    from 1 True d show ?thesis
      by (simp add: comparePyStr.simps [of a b] pyRunes.simps [of a] pyRunes.simps [of b])
  next
    case False
    have ne: "pyRunes s = [] \<longleftrightarrow> s = []" for s by (subst pyRunes.simps) (auto split: prod.splits)
    have cmp: "comparePyStr a b = (if length a < length b then -1 else if length a > length b then 1 else 0)"
      using False by (subst comparePyStr.simps) auto
    from False consider "a = []" "b = []" | y ys where "a = []" "pyRunes b = y # ys" "b \<noteq> []"
      | x xs where "b = []" "pyRunes a = x # xs" "a \<noteq> []"
      using ne [of a] ne [of b] by (cases "pyRunes a"; cases "pyRunes b") auto
    then show ?thesis unfolding cmp using ne [of "[]"] by cases simp_all
  qed
qed

text \<open>The bytes of a rune, as CPython's \<open>surrogateescape\<close> encoder writes them.\<close>

definition encodePyRune :: "nat \<Rightarrow> bytes" where
  "encodePyRune r = map word_of_nat
     (if r < 0x80 then [r]
      else if r < 0x800 then [0xC0 + r div 64, 0x80 + r mod 64]
      else if 0xDC80 \<le> r \<and> r \<le> 0xDCFF then [r - 0xDC00]
      else if r < 0x10000 then [0xE0 + r div 4096, 0x80 + r div 64 mod 64, 0x80 + r mod 64]
      else [0xF0 + r div 262144, 0x80 + r div 4096 mod 64, 0x80 + r div 64 mod 64, 0x80 + r mod 64])"

lemma digit64: "c < 64 \<Longrightarrow> (q * 64 + c) div 64 = (q::nat)" "c < 64 \<Longrightarrow> (q * 64 + c) mod 64 = (c::nat)"
  by simp_all

lemma rune2:
  assumes "2 \<le> a" "a < 32" "b < 64"
  shows "encodePyRune (a * 64 + b) = [word_of_nat (0xC0 + a), word_of_nat (0x80 + b)]"
  using assms by (simp add: encodePyRune_def)

lemma rune3:
  assumes "a < 16" "b < 64" "c < 64" "a = 0 \<longrightarrow> 32 \<le> b" "a = 13 \<longrightarrow> b < 32"
  shows "encodePyRune ((a * 64 + b) * 64 + c) = [word_of_nat (0xE0 + a), word_of_nat (0x80 + b), word_of_nat (0x80 + c)]"
proof -
  let ?r = "(a * 64 + b) * 64 + c"
  have "?r div 4096 = a" using assms div_mult2_eq [of ?r 64 64] by simp
  moreover have "?r div 64 mod 64 = b" "?r mod 64 = c" using assms by (simp_all only: digit64)
  moreover have "\<not> ?r < 0x800" using assms by (cases "a = 0") auto
  moreover have "\<not> ?r < 0x80" "?r < 0x10000" using assms calculation by auto
  moreover have "\<not> (0xDC80 \<le> ?r \<and> ?r \<le> 0xDCFF)"
    using assms by (cases "a < 13"; cases "a = 13") auto
  ultimately show ?thesis by (simp only: encodePyRune_def if_False if_True list.map)
qed

lemma rune4:
  assumes "a < 5" "b < 64" "c < 64" "d < 64" "a = 0 \<longrightarrow> 16 \<le> b"
  shows "encodePyRune (((a * 64 + b) * 64 + c) * 64 + d)
    = [word_of_nat (0xF0 + a), word_of_nat (0x80 + b), word_of_nat (0x80 + c), word_of_nat (0x80 + d)]"
proof -
  let ?r = "((a * 64 + b) * 64 + c) * 64 + d"
  have 1: "?r div 64 = (a * 64 + b) * 64 + c" using assms by simp
  have 2: "?r div 4096 = a * 64 + b" using assms div_mult2_eq [of ?r 64 64] by (simp only: 1) simp
  have "?r div 262144 = a" using assms div_mult2_eq [of ?r 4096 64] by (simp only: 2) simp
  moreover have "?r div 4096 mod 64 = b" "?r div 64 mod 64 = c" "?r mod 64 = d" using assms unfolding 1 2 by (simp_all only: digit64)
  moreover have "0x10000 \<le> ?r" using assms by (cases "a = 0") auto
  moreover have "\<not> ?r < 0x80" "\<not> ?r < 0x800" "\<not> ?r < 0x10000" "\<not> ?r \<le> 0xDCFF" using calculation by auto
  ultimately show ?thesis by (simp only: encodePyRune_def if_False if_True list.map simp_thms)
qed

text \<open>Every rune of a string stands for the bytes it was decoded from.\<close>

lemma decodePyRune_take: "s \<noteq> [] \<Longrightarrow> take (snd (decodePyRune s)) s = encodePyRune (fst (decodePyRune s))"
proof -
  assume "s \<noteq> []"
  then obtain b0 bs where s: "s = b0 # bs" by (cases s) auto
  let ?x = "unat b0"
  have x: "?x < 256" by (rule unat_byte_less)
  have err: ?thesis if "decodeRune s = (RuneError, 1)" "0x80 \<le> ?x"
    using that x by (simp add: s decodePyRune_def encodePyRune_def)
  consider "?x < 0x80" | "0x80 \<le> ?x" "decodeRune s = (RuneError, 1)"
    | (two) b1 bs' where "0xC2 \<le> ?x" "?x \<le> 0xDF" "bs = b1 # bs'" "cont_byte 0x80 0xBF b1"
    | (three) b1 b2 bs' where "0xE0 \<le> ?x" "?x \<le> 0xEF" "bs = b1 # b2 # bs'"
        "cont_byte (fst (second_range ?x)) (snd (second_range ?x)) b1" "cont_byte 0x80 0xBF b2"
    | (four) b1 b2 b3 bs' where "0xF0 \<le> ?x" "?x \<le> 0xF4" "bs = b1 # b2 # b3 # bs'"
        "cont_byte (fst (second_range ?x)) (snd (second_range ?x)) b1" "cont_byte 0x80 0xBF b2" "cont_byte 0x80 0xBF b3"
  proof (cases "0x80 \<le> ?x \<and> decodeRune s \<noteq> (RuneError, 1)")
    case True
    then have "0xC2 \<le> ?x" "?x \<le> 0xF4" by (auto simp: s Let_def split: prod.splits if_splits)
    then consider "0xC2 \<le> ?x" "?x \<le> 0xDF" | "0xE0 \<le> ?x" "?x \<le> 0xEF" | "0xF0 \<le> ?x" "?x \<le> 0xF4" by linarith
    then show thesis
    proof cases
      case 1
      then have "second_range ?x = (0x80, 0xBF)" by (auto simp: second_range_def)
      with 1 True that(3) show thesis by (auto simp: s Let_def split: list.splits if_splits)
    next
      case 2
      with True that(4) show thesis by (auto simp: s Let_def split: prod.splits list.splits if_splits)
    next
      case 3
      with True that(5) show thesis by (auto simp: s Let_def split: prod.splits list.splits if_splits)
    qed
  qed (use that(1,2) in linarith)
  then show ?thesis
  proof cases
    case 1
    then show ?thesis by (simp add: s decodePyRune_def RuneError_def encodePyRune_def Let_def split: prod.splits)
  next
    case 2
    then show ?thesis by (intro err)
  next
    case two
    then have c: "0x80 \<le> unat b1" "unat b1 \<le> 0xBF" and r: "second_range ?x = (0x80, 0xBF)"
      by (auto simp: cont_byte_def second_range_def)
    have "decodePyRune s = ((?x - 0xC0) * 64 + (unat b1 - 0x80), 2)"
      using two r by (simp add: s decodePyRune_def Let_def)
    then show ?thesis using rune2 [of "?x - 0xC0" "unat b1 - 0x80"] two c by (simp add: s)
  next
    case three
    then have c: "0x80 \<le> unat b1" "unat b1 \<le> 0xBF" "0x80 \<le> unat b2" "unat b2 \<le> 0xBF"
      "?x = 0xE0 \<longrightarrow> 0xA0 \<le> unat b1" "?x = 0xED \<longrightarrow> unat b1 \<le> 0x9F"
      by (auto simp: cont_byte_def second_range_def split: if_splits)
    have "decodePyRune s = (((?x - 0xE0) * 64 + (unat b1 - 0x80)) * 64 + (unat b2 - 0x80), 3)"
      using three by (simp add: s decodePyRune_def Let_def case_prod_beta' algebra_simps)
    moreover have "?x - 0xE0 < 16" "unat b1 - 0x80 < 64" "unat b2 - 0x80 < 64" "?x - 0xE0 = 0 \<longrightarrow> 32 \<le> unat b1 - 0x80"
      "?x - 0xE0 = 13 \<longrightarrow> unat b1 - 0x80 < 32" using three c by auto
    note rune3 [OF this]
    ultimately show ?thesis using three c by (simp add: s)
  next
    case four
    then have c: "0x80 \<le> unat b1" "unat b1 \<le> 0xBF" "0x80 \<le> unat b2" "unat b2 \<le> 0xBF" "0x80 \<le> unat b3" "unat b3 \<le> 0xBF"
      "?x = 0xF0 \<longrightarrow> 0x90 \<le> unat b1"
      by (auto simp: cont_byte_def second_range_def split: if_splits)
    have "decodePyRune s = ((((?x - 0xF0) * 64 + (unat b1 - 0x80)) * 64 + (unat b2 - 0x80)) * 64 + (unat b3 - 0x80), 4)"
      using four by (simp add: s decodePyRune_def Let_def case_prod_beta' algebra_simps)
    moreover have "?x - 0xF0 < 5" "unat b1 - 0x80 < 64" "unat b2 - 0x80 < 64" "unat b3 - 0x80 < 64"
      "?x - 0xF0 = 0 \<longrightarrow> 16 \<le> unat b1 - 0x80" using four c by auto
    note rune4 [OF this]
    ultimately show ?thesis using four c by (simp add: s)
  qed
qed


lemma pyRunes_bytes: "concat (map encodePyRune (pyRunes s)) = s"
proof (induction s rule: pyRunes.induct)
  case (1 s)
  show ?case
  proof (cases "s = []")
    case False
    obtain r n where d: "decodePyRune s = (r, n)" by fastforce
    from 1 [OF False d [symmetric] refl] have "concat (map encodePyRune (pyRunes (drop n s))) = drop n s" .
    moreover have "encodePyRune r = take n s" using decodePyRune_take [OF False] d by simp
    ultimately show ?thesis using False d by (simp add: pyRunes.simps [of s])
  qed (simp add: pyRunes.simps)
qed

lemma pyRunes_inj: "pyRunes a = pyRunes b \<longleftrightarrow> a = b"
  by (metis pyRunes_bytes)

lemma comparePyStr_0: "comparePyStr a b = 0 \<longleftrightarrow> a = b"
  by (simp add: comparePyStr_runes cmp_list_0 pyRunes_inj)

lemma comparePyStr_swap: "comparePyStr b a = - comparePyStr a b"
  unfolding comparePyStr_runes by (rule cmp_list_swap)

lemma comparePyStr_trans: "comparePyStr a b < 0 \<Longrightarrow> comparePyStr b c < 0 \<Longrightarrow> comparePyStr a c < 0"
  unfolding comparePyStr_runes by (rule cmp_list_trans)

lemma compareBytes_list: "compareBytes a b = cmp_list (map unat a) (map unat b)"
proof (induction a arbitrary: b)
  case Nil
  show ?case by (cases b) auto
next
  case (Cons x a)
  then show ?case by (cases b) (auto simp: word_less_nat_alt word_unat_eq_iff)
qed

lemma map_unat_inj: "map unat (a :: bytes) = map unat b \<longleftrightarrow> a = b"
  by (rule inj_map_eq_map) (simp add: inj_def word_unat_eq_iff)

text \<open>Keys of one constructor, where \<open>keyLess\<close> is a strict linear order.\<close>

definition uniform_keys :: "mp_value set \<Rightarrow> bool" where
  "uniform_keys K \<longleftrightarrow> K \<subseteq> range VStr \<or> K \<subseteq> range VBin \<or> K \<subseteq> range VInt"

definition key_before :: "mp_value \<Rightarrow> mp_value \<Rightarrow> bool" where
  "key_before a b \<longleftrightarrow> keyLess a b = Some True"

lemma key_before_simps [simp]:
  "key_before (VStr x) (VStr y) \<longleftrightarrow> comparePyStr x y < 0"
  "key_before (VBin u) (VBin v) \<longleftrightarrow> cmp_list (map unat u) (map unat v) < 0"
  "key_before (VInt i) (VInt j) \<longleftrightarrow> sint i < sint j"
  by (simp_all add: key_before_def keyLess_def asInt_def compareBytes_list)

lemma key_before_trans: "key_before a b \<Longrightarrow> key_before b c \<Longrightarrow> uniform_keys {a, b, c} \<Longrightarrow> key_before a c"
  by (auto simp: uniform_keys_def intro: comparePyStr_trans cmp_list_trans)

lemma key_before_irrefl: "uniform_keys {a} \<Longrightarrow> \<not> key_before a a"
proof
  assume "uniform_keys {a}" "key_before a a"
  then consider x where "comparePyStr x x < 0" | u :: bytes where "cmp_list (map unat u) (map unat u) < 0"
    unfolding uniform_keys_def by auto
  then show False using comparePyStr_0 cmp_list_0 by cases (metis less_irrefl)+
qed

lemma key_before_total: "uniform_keys {a, b} \<Longrightarrow> a \<noteq> b \<Longrightarrow> \<not> key_before a b \<Longrightarrow> key_before b a"
proof -
  assume "uniform_keys {a, b}" "a \<noteq> b" "\<not> key_before a b"
  then consider x y where "a = VStr x" "b = VStr y" "x \<noteq> y" "\<not> comparePyStr x y < 0"
    | u v where "a = VBin u" "b = VBin v" "u \<noteq> v" "\<not> cmp_list (map unat u) (map unat v) < 0"
    | i j where "a = VInt i" "b = VInt j" "i \<noteq> j" "\<not> sint i < sint j"
    unfolding uniform_keys_def by fastforce
  then show ?thesis
  proof cases
    case 1
    then show ?thesis using comparePyStr_0 [of x y] comparePyStr_swap [of x y] by simp
  next
    case 2
    then show ?thesis using cmp_list_0 [of "map unat u" "map unat v"] cmp_list_swap [of "map unat u" "map unat v"]
      by (simp add: map_unat_inj)
  next
    case 3
    then show ?thesis by (simp add: signed_word_eqI linorder_neq_iff [symmetric]) (metis linorder_cases signed_word_eqI)
  qed
qed

lemma uniform_keys_mono: "uniform_keys B \<Longrightarrow> A \<subseteq> B \<Longrightarrow> uniform_keys A"
  by (auto simp: uniform_keys_def)

subsection \<open>Sorting is canonical\<close>

definition entry_before :: "mp_value \<times> mp_value \<Rightarrow> mp_value \<times> mp_value \<Rightarrow> bool" where
  "entry_before x y \<longleftrightarrow> key_before (fst x) (fst y)"

lemma insert_entry_sorted:
  assumes "uniform_keys (fst ` set (x # ys))" "fst x \<notin> fst ` set ys" "sorted_wrt entry_before ys"
  shows "sorted_wrt entry_before (insert_entry x ys)"
  using assms
proof (induction ys)
  case (Cons y ys)
  have mem: "set (insert_entry x ys) = insert x (set ys)"
    using mset_insert_entry [of x ys] by (metis set_mset_add_mset_insert set_mset_mset)
  show ?case
  proof (cases "key_before (fst y) (fst x)")
    case True
    have "sorted_wrt entry_before (insert_entry x ys)"
      using Cons by (intro Cons.IH) (auto intro: uniform_keys_mono)
    moreover have "insert_entry x (y # ys) = y # insert_entry x ys" using True by (simp add: key_before_def)
    moreover have "\<forall>z\<in>set (insert_entry x ys). entry_before y z"
      using True Cons.prems(3) by (auto simp: mem entry_before_def)
    ultimately show ?thesis by simp
  next
    case False
    have u: "uniform_keys (fst ` set (x # y # ys))" by (rule Cons.prems(1))
    have xy: "key_before (fst x) (fst y)"
      using key_before_total [of "fst y" "fst x"] uniform_keys_mono [OF u, of "{fst y, fst x}"] Cons.prems(2) False by auto
    have "key_before (fst x) (fst z)" if "z \<in> set ys" for z
      using key_before_trans [OF xy, of "fst z"] uniform_keys_mono [OF u, of "{fst x, fst y, fst z}"] that Cons.prems(3)
      by (auto simp: entry_before_def)
    then have "\<forall>z\<in>set (y # ys). entry_before x z" using xy by (auto simp: entry_before_def)
    moreover have "insert_entry x (y # ys) = x # y # ys" using False by (simp add: key_before_def)
    ultimately show ?thesis using Cons.prems(3) by simp
  qed
qed (simp add: entry_before_def)

lemma sort_entries_sorted:
  assumes "uniform_keys (fst ` set es)" "distinct (map fst es)"
  shows "sorted_wrt entry_before (sort_entries es)"
  using assms
proof (induction es)
  case (Cons e es)
  have "sorted_wrt entry_before (sort_entries es)" using Cons by (auto intro: uniform_keys_mono)
  then have "sorted_wrt entry_before (insert_entry e (sort_entries es))"
    using Cons.prems by (intro insert_entry_sorted) simp_all
  then show ?case by (simp add: sort_entries_def)
qed (simp add: sort_entries_def)

lemma sorted_unique:
  assumes "sorted_wrt R xs" "sorted_wrt R ys" "mset xs = mset ys" "\<And>x y. x \<in> set xs \<Longrightarrow> y \<in> set xs \<Longrightarrow> R x y \<Longrightarrow> \<not> R y x"
  shows "xs = ys"
  using assms
proof (induction xs arbitrary: ys)
  case (Cons x xs)
  from Cons.prems(3) obtain y zs where ys: "ys = y # zs" by (cases ys) auto
  have mem: "set (x # xs) = set (y # zs)" using Cons.prems(3) ys mset_eq_setD by blast
  have "x = y"
  proof (rule ccontr)
    assume "x \<noteq> y"
    then have "y \<in> set xs" "x \<in> set zs" using mem by auto
    then have "R x y" "R y x" using Cons.prems(1,2) ys by auto
    then show False using Cons.prems(4) [of x y] \<open>y \<in> set xs\<close> by auto
  qed
  moreover have "xs = zs" using Cons.prems ys \<open>x = y\<close> by (intro Cons.IH) auto
  ultimately show ?case using ys by simp
qed simp

text \<open>Two lists of the same entries sort to the same list.\<close>

lemma sort_entries_canonical:
  assumes "mset es = mset es'" "uniform_keys (fst ` set es)" "distinct (map fst es)"
  shows "sort_entries es = sort_entries es'"
proof (rule sorted_unique)
  have set: "set es' = set es" using assms(1) mset_eq_setD by metis
  have "mset (map fst es') = mset (map fst es)" using assms(1) by simp
  then have d: "distinct (map fst es')" using assms(3) mset_eq_imp_distinct_iff by blast
  show "sorted_wrt entry_before (sort_entries es)" using assms by (intro sort_entries_sorted)
  show "sorted_wrt entry_before (sort_entries es')" using assms d set by (intro sort_entries_sorted) auto
  show "mset (sort_entries es) = mset (sort_entries es')" using assms by simp
  fix x y
  assume xy: "x \<in> set (sort_entries es)" "y \<in> set (sort_entries es)" "entry_before x y"
  show "\<not> entry_before y x"
  proof
    assume yx: "entry_before y x"
    have "uniform_keys {fst x, fst y, fst x}" "uniform_keys {fst x}"
      using uniform_keys_mono [OF assms(2)] xy by auto
    then show False using key_before_trans [of "fst x" "fst y" "fst x"] key_before_irrefl xy(3) yx
      by (auto simp: entry_before_def)
  qed
qed

lemma sortable_uniform: "uniform_keys (fst ` set es) \<Longrightarrow> sortable es"
  by (cases es) (auto simp: uniform_keys_def sortable_def key_class_def asInt_def list_all_iff)


section \<open>Timestamps\<close>

record timestamp =
  Seconds :: int64
  Nanoseconds :: uint32

definition nanosPerSecond :: int where "nanosPerSecond = 1000000000"

text \<open>Go's \<open>/\<close> and \<open>%\<close> on \<open>int64\<close> truncate towards zero: \<open>sdiv\<close> and \<open>smod\<close> on the signed values.\<close>

definition TimestampFromUnixNano :: "int64 \<Rightarrow> timestamp" where
  "TimestampFromUnixNano ns =
     (let sec = sint ns sdiv nanosPerSecond; nsec = sint ns smod nanosPerSecond;
          (sec, nsec) = (if nsec < 0 then (sec - 1, nsec + nanosPerSecond) else (sec, nsec)) in
      \<lparr>Seconds = word_of_int sec, Nanoseconds = word_of_int nsec\<rparr>)"

definition UnixNano :: "timestamp \<Rightarrow> int64" where
  "UnixNano t = Seconds t * word_of_int nanosPerSecond + ucast (Nanoseconds t)"

lemma trunc_to_floor:
  fixes n m :: int
  assumes "0 < m"
  shows "(if n smod m < 0 then (n sdiv m - 1, n smod m + m) else (n sdiv m, n smod m)) = (n div m, n mod m)"
proof (cases "0 \<le> n")
  case True
  then have "n sdiv m = n div m" "n smod m = n mod m"
    using assms by (auto simp: signed_divide_int_def signed_modulo_int_def sgn_if algebra_simps minus_div_mult_eq_mod minus_mult_div_eq_mod)
  moreover have "\<not> n mod m < 0" using assms by (simp add: not_less)
  ultimately show ?thesis by simp
next
  case False
  define k where "k = - n"
  have k: "n = - k" "0 < k" using False by (simp_all add: k_def)
  have q: "n sdiv m = - (k div m)" "n smod m = - (k mod m)"
    using assms k by (auto simp: signed_divide_int_def signed_modulo_int_def sgn_if algebra_simps minus_mult_div_eq_mod)
  have f: "n div m = (if k mod m = 0 then - (k div m) else - (k div m) - 1)"
    "n mod m = (if k mod m = 0 then 0 else m - k mod m)"
    using assms by (simp_all add: k(1) zdiv_zminus1_eq_if zmod_zminus1_eq_if)
  have "0 \<le> k mod m" using assms by simp
  then show ?thesis unfolding q f by auto
qed

lemma TimestampFromUnixNano_floor:
  "TimestampFromUnixNano ns = \<lparr>Seconds = word_of_int (sint ns div nanosPerSecond), Nanoseconds = word_of_int (sint ns mod nanosPerSecond)\<rparr>"
  using trunc_to_floor [of nanosPerSecond "sint ns"]
  unfolding TimestampFromUnixNano_def Let_def by (simp only: nanosPerSecond_def) simp

text \<open>Every \<open>int64\<close> count of nanoseconds, also one before the epoch, becomes the floor of its
  seconds and a nanosecond part below one second, and converts back to the same count.\<close>

theorem timestamp_roundtrip:
  "UnixNano (TimestampFromUnixNano ns) = ns
   \<and> sint (Seconds (TimestampFromUnixNano ns)) = sint ns div nanosPerSecond
   \<and> uint (Nanoseconds (TimestampFromUnixNano ns)) = sint ns mod nanosPerSecond"
proof -
  have r: "0 \<le> sint ns mod nanosPerSecond" "sint ns mod nanosPerSecond < 2 ^ 32"
    using pos_mod_sign [of nanosPerSecond "sint ns"] pos_mod_bound [of nanosPerSecond "sint ns"] by (simp_all add: nanosPerSecond_def)
  then have n: "uint (word_of_int (sint ns mod nanosPerSecond) :: uint32) = sint ns mod nanosPerSecond"
    by (simp add: uint_word_of_int_eq take_bit_int_eq_self)
  have b: "- (2 ^ 63) \<le> sint ns" "sint ns < 2 ^ 63" using sint_greater_eq [of ns] sint_less [of ns] by simp_all
  have d: "- (2 ^ 63) \<le> sint ns div nanosPerSecond" "sint ns div nanosPerSecond < 2 ^ 63"
    using b by (simp_all add: nanosPerSecond_def)
  then have s: "sint (word_of_int (sint ns div nanosPerSecond) :: int64) = sint ns div nanosPerSecond"
    by (simp add: signed_of_int signed_take_bit_int_eq_self)
  have "UnixNano (TimestampFromUnixNano ns) = word_of_int (sint ns div nanosPerSecond * nanosPerSecond + sint ns mod nanosPerSecond)"
    using n unfolding UnixNano_def TimestampFromUnixNano_floor of_int_add of_int_mult
    by (simp only: timestamp.select_convs unsigned_ucast_eq ucast_eq)
  then show ?thesis unfolding TimestampFromUnixNano_floor by (simp add: n s)
qed

section \<open>Ordered maps with string keys\<close>

lemma get_str_map_of: "get_str es key = map_of es (VStr key)"
  by (induction es) auto

lemma map_Set_str: "\<exists>es'. map_Set es (VStr key) v = Some es' \<and> map_of es' = (map_of es)(VStr key \<mapsto> v)
   \<and> map fst es' = (if VStr key \<in> fst ` set es then map fst es else map fst es @ [VStr key])"
proof (induction es)
  case (Cons e es)
  obtain k w where e: "e = (k, w)" by (cases e)
  show ?case
  proof (cases "k = VStr key")
    case False
    from Cons obtain es' where "map_Set es (VStr key) v = Some es'" "map_of es' = (map_of es)(VStr key \<mapsto> v)"
      "map fst es' = (if VStr key \<in> fst ` set es then map fst es else map fst es @ [VStr key])" by blast
    with False e show ?thesis by (intro exI [of _ "(k, w) # es'"]) (auto simp: keysEqual_str fun_upd_twist)
  qed (auto simp: e keysEqual_str fun_eq_iff)
qed (auto simp: fun_eq_iff)

lemma map_Delete_str:
  "distinct (map fst es) \<Longrightarrow> \<exists>es'. map_Delete es (VStr key) = Some (es', VStr key \<in> fst ` set es)
    \<and> es' = filter (\<lambda>e. fst e \<noteq> VStr key) es"
proof (induction es)
  case (Cons e es)
  obtain k w where e: "e = (k, w)" by (cases e)
  show ?case
  proof (cases "k = VStr key")
    case True
    then have "filter (\<lambda>e. fst e \<noteq> VStr key) es = es" using Cons.prems e by (auto simp: filter_id_conv image_iff)
    with True e show ?thesis by (simp add: keysEqual_str)
  next
    case False
    with Cons e show ?thesis by (auto simp: keysEqual_str)
  qed
qed simp

text \<open>With string keys the ordered map behaves as a Python dict, whatever the other keys are:
  \<open>Set\<close> replaces the value of a present key in place and appends an absent one, \<open>Get\<close> returns the
  last value set, \<open>Delete\<close> removes the key and keeps the order of the rest, and none of them
  panics on uncomparable keys.\<close>

theorem map_dict:
  assumes "distinct (map fst es)"
  shows "\<exists>es' es''. map_Set es (VStr key) v = Some es' \<and> map_Delete es (VStr key) = Some (es'', map_Get es (VStr key) \<noteq> Some None)
    \<and> distinct (map fst es') \<and> distinct (map fst es'')
    \<and> map_Get es' (VStr k) = (if k = key then Some (Some v) else map_Get es (VStr k))
    \<and> map_Get es'' (VStr k) = (if k = key then Some None else map_Get es (VStr k))
    \<and> map fst es' = (if VStr key \<in> set (map fst es) then map fst es else map fst es @ [VStr key])
    \<and> map fst es'' = removeAll (VStr key) (map fst es)"
proof -
  obtain es' where s: "map_Set es (VStr key) v = Some es'" "map_of es' = (map_of es)(VStr key \<mapsto> v)"
    "map fst es' = (if VStr key \<in> fst ` set es then map fst es else map fst es @ [VStr key])"
    using map_Set_str by blast
  let ?d = "filter (\<lambda>e. fst e \<noteq> VStr key) es"
  have d: "map_Delete es (VStr key) = Some (?d, VStr key \<in> fst ` set es)" using map_Delete_str [OF assms] by blast
  have mem: "(VStr key \<in> fst ` set es) \<longleftrightarrow> map_Get es (VStr key) \<noteq> Some None"
    by (simp add: map_Get_str get_str_map_of) (metis domIff dom_map_of_conv_image_fst not_None_eq)
  have "distinct (map fst es')" unfolding s(3) using assms by auto
  moreover have "distinct (map fst ?d)" using assms by (rule distinct_map_filter)
  moreover have "map_of ?d (VStr k) = (if k = key then None else map_of es (VStr k))"
    by (induction es) auto
  moreover have "map fst ?d = removeAll (VStr key) (map fst es)" by (induction es) auto
  ultimately show ?thesis using s d mem by (simp add: map_Get_str get_str_map_of)
qed

theorem map_dict_witness:
  "\<exists>es'. map_Set [(VNil, VNil), (VStr [1], VBool True)] (VStr [1]) (VInt 7) = Some es'
    \<and> map_Get es' (VStr [1]) = Some (Some (VInt 7)) \<and> map fst es' = [VNil, VStr [1]]"
  using map_dict [of "[(VNil, VNil), (VStr [1], VBool True)]" "[1]" "VInt 7" "[1]"] by auto


end
