(* ===== verification/Msgpack.thy ===== *)
theory Msgpack
  imports Msgpack_Value
begin

text \<open>
  The msgpack codec of \<^verbatim>\<open>src/internal/msgpackx/encode.go\<close> and \<^verbatim>\<open>decode.go\<close>. The encoder writes to
  a buffer that cannot fail, so its functions return the bytes they write; the decoder's state
  \<open>buf[pos:]\<close> is the list of bytes still to be read. \<open>Int\<close> lengths fit in 64 bits, so they are
  natural numbers. The mutual recursion of the code (\<open>encode\<close> and \<open>encodeMap\<close>, \<open>decode\<close>,
  \<open>decodeArray\<close> and \<open>decodeMap\<close>) is kept; its loops over elements are functions of their own. The
  switch of \<open>decode\<close> on the format byte is \<open>decode_head\<close>.
\<close>

datatype mp_error =
    TooDeep
  | CannotEncode
  | MixedKeys
  | TooLong
  | NanosRange
  | ShortBuffer
  | EndOfInput
  | InvalidFormat byte
  | TimestampLength nat
  | TrailingBytes nat

definition DefaultMaxDepth :: nat where "DefaultMaxDepth = 64"

section \<open>Encoding\<close>

definition encodeUint :: "uint64 \<Rightarrow> bytes" where
  "encodeUint n =
     (let u = unat n in
      if u \<le> 0x7f then [ucast n]
      else if u \<le> 0xff then [0xcc, ucast n]
      else if u \<le> 0xffff then 0xcd # be_enc 2 u
      else if u \<le> 0xffffffff then 0xce # be_enc 4 u
      else 0xcf # be_enc 8 u)"

definition encodeInt :: "int64 \<Rightarrow> bytes" where
  "encodeInt n =
     (if sint n \<ge> 0 then encodeUint n
      else if sint n \<ge> -32 then [ucast n]
      else if sint n \<ge> -(2 ^ 7) then [0xd0, ucast n]
      else if sint n \<ge> -(2 ^ 15) then 0xd1 # be_enc 2 (unat n)
      else if sint n \<ge> -(2 ^ 31) then 0xd2 # be_enc 4 (unat n)
      else 0xd3 # be_enc 8 (unat n))"

definition encodeFloat64 :: "uint64 \<Rightarrow> bytes" where
  "encodeFloat64 f = 0xcb # be_enc 8 (unat f)"

definition encodeStr :: "bytes \<Rightarrow> mp_error + bytes" where
  "encodeStr s =
     (let n = length s in
      if n < 32 then Inr ((0xa0 OR word_of_nat n) # s)
      else if n \<le> 0xff then Inr (0xd9 # word_of_nat n # s)
      else if n \<le> 0xffff then Inr (0xda # be_enc 2 n @ s)
      else if n \<le> 0xffffffff then Inr (0xdb # be_enc 4 n @ s)
      else Inl TooLong)"

definition encodeBin :: "bytes \<Rightarrow> mp_error + bytes" where
  "encodeBin b =
     (let n = length b in
      if n \<le> 0xff then Inr (0xc4 # word_of_nat n # b)
      else if n \<le> 0xffff then Inr (0xc5 # be_enc 2 n @ b)
      else if n \<le> 0xffffffff then Inr (0xc6 # be_enc 4 n @ b)
      else Inl TooLong)"

definition encodeTimestamp :: "int64 \<Rightarrow> uint32 \<Rightarrow> mp_error + bytes" where
  "encodeTimestamp secs nsec =
     (if unat nsec \<ge> 1000000000 then Inl NanosRange
      else if sint secs \<ge> 0 \<and> drop_bit 34 secs = 0 then
        (let combined = push_bit 34 (ucast nsec) OR secs in
         if combined AND 0xffffffff00000000 = 0 then Inr (0xd6 # 0xff # be_enc 4 (unat combined))
         else Inr (0xd7 # 0xff # be_enc 8 (unat combined)))
      else Inr (0xc7 # 12 # 0xff # be_enc 4 (unat nsec) @ be_enc 8 (unat secs)))"

definition encodeExt :: "byte \<Rightarrow> bytes \<Rightarrow> mp_error + bytes" where
  "encodeExt typ data =
     (let n = length data in
      if n = 1 then Inr (0xd4 # typ # data)
      else if n = 2 then Inr (0xd5 # typ # data)
      else if n = 4 then Inr (0xd6 # typ # data)
      else if n = 8 then Inr (0xd7 # typ # data)
      else if n = 16 then Inr (0xd8 # typ # data)
      else if n \<le> 0xff then Inr (0xc7 # word_of_nat n # typ # data)
      else if n \<le> 0xffff then Inr (0xc8 # be_enc 2 n @ typ # data)
      else if n \<le> 0xffffffff then Inr (0xc9 # be_enc 4 n @ typ # data)
      else Inl TooLong)"

definition writeArrayHeader :: "nat \<Rightarrow> mp_error + bytes" where
  "writeArrayHeader n =
     (if n < 16 then Inr [0x90 OR word_of_nat n]
      else if n \<le> 0xffff then Inr (0xdc # be_enc 2 n)
      else if n \<le> 0xffffffff then Inr (0xdd # be_enc 4 n)
      else Inl TooLong)"

definition writeMapHeader :: "nat \<Rightarrow> mp_error + bytes" where
  "writeMapHeader n =
     (if n < 16 then Inr [0x80 OR word_of_nat n]
      else if n \<le> 0xffff then Inr (0xde # be_enc 2 n)
      else if n \<le> 0xffffffff then Inr (0xdf # be_enc 4 n)
      else Inl TooLong)"

text \<open>The keys of a \<open>map[string]any\<close> in the order of \<open>comparePyStr\<close>.\<close>

fun insert_go :: "bytes \<times> mp_value \<Rightarrow> (bytes \<times> mp_value) list \<Rightarrow> (bytes \<times> mp_value) list" where
  "insert_go x [] = [x]"
| "insert_go x (y # ys) = (if comparePyStr (fst y) (fst x) < 0 then y # insert_go x ys else x # y # ys)"

definition sort_go :: "(bytes \<times> mp_value) list \<Rightarrow> (bytes \<times> mp_value) list" where
  "sort_go kvs = foldr insert_go kvs []"

lemma mset_insert_go [simp]: "mset (insert_go x ys) = add_mset x (mset ys)"
  by (induction ys) auto

lemma mset_sort_go [simp]: "mset (sort_go kvs) = mset kvs"
proof -
  have "mset (foldr insert_go kvs acc) = mset kvs + mset acc" for acc
    by (induction kvs arbitrary: acc) auto
  from this [of "[]"] show ?thesis by (simp add: sort_go_def)
qed

lemma set_sort_go [simp]: "set (sort_go kvs) = set kvs"
  using mset_sort_go mset_eq_setD by blast

lemma length_sort_go [simp]: "length (sort_go kvs) = length kvs"
  using mset_sort_go mset_eq_length by blast

lemma size_list_mset: "mset xs = mset ys \<Longrightarrow> size_list f xs = size_list f ys"
proof -
  have "size_list f xs = (\<Sum>x\<in>#mset xs. Suc (f x))" for xs by (induction xs) auto
  then show "mset xs = mset ys \<Longrightarrow> ?thesis" by simp
qed

function (sequential) encode :: "nat \<Rightarrow> nat \<Rightarrow> mp_value \<Rightarrow> mp_error + bytes"
  and encodeElems :: "nat \<Rightarrow> nat \<Rightarrow> mp_value list \<Rightarrow> mp_error + bytes"
  and encodeEntries :: "nat \<Rightarrow> nat \<Rightarrow> mp_entries \<Rightarrow> mp_error + bytes"
  and encodeGo :: "nat \<Rightarrow> nat \<Rightarrow> (bytes \<times> mp_value) list \<Rightarrow> mp_error + bytes" where
  "encode D d v =
     (if d > D then Inl TooDeep
      else case v of
        VNil \<Rightarrow> Inr [0xc0]
      | VBool b \<Rightarrow> Inr [if b then 0xc3 else 0xc2]
      | VInt n \<Rightarrow> Inr (encodeInt n)
      | VUint n \<Rightarrow> Inr (encodeUint n)
      | VFloat f \<Rightarrow> Inr (encodeFloat64 f)
      | VStr s \<Rightarrow> encodeStr s
      | VBin b \<Rightarrow> encodeBin b
      | VTime s n \<Rightarrow> encodeTimestamp s n
      | VExt t b \<Rightarrow> encodeExt t b
      | VArr xs \<Rightarrow> bind_res (writeArrayHeader (length xs)) (\<lambda>h. bind_res (encodeElems D (Suc d) xs) (\<lambda>b. Inr (h @ b)))
      | VMap st es \<Rightarrow>
          (case (if st then sortedEntries es else Some es) of
             None \<Rightarrow> Inl MixedKeys
           | Some _ \<Rightarrow> bind_res (writeMapHeader (length es)) (\<lambda>h.
               bind_res (encodeEntries D (Suc d) (if st then sort_entries es else es)) (\<lambda>b. Inr (h @ b))))
      | VGoMap kvs \<Rightarrow> bind_res (writeMapHeader (length kvs)) (\<lambda>h. bind_res (encodeGo D (Suc d) (sort_go kvs)) (\<lambda>b. Inr (h @ b)))
      | VOther \<Rightarrow> Inl CannotEncode)"
| "encodeElems D d [] = Inr []"
| "encodeElems D d (x # xs) = bind_res (encode D d x) (\<lambda>b. bind_res (encodeElems D d xs) (\<lambda>bs. Inr (b @ bs)))"
| "encodeEntries D d [] = Inr []"
| "encodeEntries D d ((k, v) # es) = bind_res (encode D d k) (\<lambda>b. bind_res (encode D d v) (\<lambda>c.
     bind_res (encodeEntries D d es) (\<lambda>bs. Inr (b @ c @ bs))))"
| "encodeGo D d [] = Inr []"
| "encodeGo D d ((k, v) # kvs) = bind_res (encodeStr k) (\<lambda>b. bind_res (encode D d v) (\<lambda>c.
     bind_res (encodeGo D d kvs) (\<lambda>bs. Inr (b @ c @ bs))))"
  by pat_completeness auto
termination
proof (relation "measure (\<lambda>x. case x of
    Inl (Inl (_, _, v)) \<Rightarrow> 2 * size v
  | Inl (Inr (_, _, xs)) \<Rightarrow> 2 * size_list size xs + 1
  | Inr (Inl (_, _, es)) \<Rightarrow> 2 * size_list (size_prod size size) es + 1
  | Inr (Inr (_, _, kvs)) \<Rightarrow> 2 * size_list (size_prod (\<lambda>_. 0) size) kvs + 1)", goal_cases)
qed (auto simp: size_list_mset [OF mset_sort_entries] size_list_mset [OF mset_sort_go])

definition Marshal :: "mp_value \<Rightarrow> mp_error + bytes" where
  "Marshal v = encode DefaultMaxDepth 0 v"


section \<open>Decoding\<close>

definition readByte :: "bytes \<Rightarrow> mp_error + byte \<times> bytes" where
  "readByte bs = (case bs of [] \<Rightarrow> Inl ShortBuffer | b # r \<Rightarrow> Inr (b, r))"

definition readN :: "nat \<Rightarrow> bytes \<Rightarrow> mp_error + bytes \<times> bytes" where
  "readN n bs = (if n > length bs then Inl ShortBuffer else Inr (take n bs, drop n bs))"

definition readLen :: "nat \<Rightarrow> bytes \<Rightarrow> mp_error + nat \<times> bytes" where
  "readLen w bs = bind_res (readN w bs) (\<lambda>(b, r). Inr (be_dec b, r))"

definition checkCount :: "nat \<Rightarrow> nat \<Rightarrow> bytes \<Rightarrow> bool" where
  "checkCount n perElement bs \<longleftrightarrow> n * perElement \<le> length bs"

definition decodeStr :: "nat \<Rightarrow> bytes \<Rightarrow> mp_error + mp_value \<times> bytes" where
  "decodeStr n bs = bind_res (readN n bs) (\<lambda>(b, r). Inr (VStr b, r))"

definition decodeBin :: "nat \<Rightarrow> bytes \<Rightarrow> mp_error + mp_value \<times> bytes" where
  "decodeBin n bs = bind_res (readN n bs) (\<lambda>(b, r). Inr (VBin b, r))"

definition decodeTimestamp :: "bytes \<Rightarrow> mp_error + mp_value" where
  "decodeTimestamp b =
     (if length b = 4 then Inr (VTime (word_of_nat (be_dec b)) 0)
      else if length b = 8 then
        (let v = word_of_nat (be_dec b) :: uint64; nsec = ucast (drop_bit 34 v) :: uint32; secs = v AND 0x3ffffffff in
         if unat nsec \<ge> 1000000000 then Inl NanosRange else Inr (VTime secs nsec))
      else if length b = 12 then
        (let nsec = word_of_nat (be_dec (take 4 b)) :: uint32; secs = word_of_nat (be_dec (drop 4 b)) in
         if unat nsec \<ge> 1000000000 then Inl NanosRange else Inr (VTime secs nsec))
      else Inl (TimestampLength (length b)))"

definition decodeExt :: "nat \<Rightarrow> bytes \<Rightarrow> mp_error + mp_value \<times> bytes" where
  "decodeExt n bs = bind_res (readByte bs) (\<lambda>(t, r). bind_res (readN n r) (\<lambda>(body, r').
     if t = 0xff then bind_res (decodeTimestamp body) (\<lambda>v. Inr (v, r')) else Inr (VExt t body, r')))"

text \<open>The conversion of a \<open>float32\<close> to a \<open>float64\<close>, on bit patterns: exact for numbers and
  infinities; a NaN is quieted and keeps its payload, as the conversion instructions of the
  64-bit platforms do.\<close>

fun normalize :: "nat \<Rightarrow> nat \<Rightarrow> nat \<Rightarrow> nat \<times> nat" where
  "normalize 0 e m = (e, m)"
| "normalize (Suc k) e m = (if m \<ge> 2 ^ 23 then (e, m) else normalize k (e - 1) (2 * m))"

definition widen :: "uint32 \<Rightarrow> uint64" where
  "widen f =
     (let u = unat f; s = u div 2 ^ 31; e = u div 2 ^ 23 mod 2 ^ 8; m = u mod 2 ^ 23;
          (e', m') = (if e = 255 then (2047, if m = 0 then 0 else m mod 2 ^ 22 + 2 ^ 22)
                      else if e = 0 then (if m = 0 then (0, 0) else (case normalize 23 897 m of (e1, m1) \<Rightarrow> (e1, m1 - 2 ^ 23)))
                      else (e + 896, m)) in
      word_of_nat (s * 2 ^ 63 + e' * 2 ^ 52 + m' * 2 ^ 29))"

datatype head = HVal mp_value | HArr nat | HMap nat

definition hval :: "(mp_error + mp_value \<times> bytes) \<Rightarrow> mp_error + head \<times> bytes" where
  "hval m = bind_res m (\<lambda>(v, r). Inr (HVal v, r))"

definition hlen :: "nat \<Rightarrow> bytes \<Rightarrow> (nat \<Rightarrow> bytes \<Rightarrow> mp_error + head \<times> bytes) \<Rightarrow> mp_error + head \<times> bytes" where
  "hlen w r f = bind_res (readLen w r) (\<lambda>(n, r'). f n r')"

definition decode_head :: "bytes \<Rightarrow> mp_error + head \<times> bytes" where
  "decode_head bs = bind_res (readByte bs) (\<lambda>(c, r).
     if c \<le> 0x7f then Inr (HVal (VInt (ucast c)), r)
     else if c \<ge> 0xe0 then Inr (HVal (VInt (scast c)), r)
     else if c AND 0xf0 = 0x80 then Inr (HMap (unat (c AND 0x0f)), r)
     else if c AND 0xf0 = 0x90 then Inr (HArr (unat (c AND 0x0f)), r)
     else if c AND 0xe0 = 0xa0 then hval (decodeStr (unat (c AND 0x1f)) r)
     else if c = 0xc0 then Inr (HVal VNil, r)
     else if c = 0xc2 then Inr (HVal (VBool False), r)
     else if c = 0xc3 then Inr (HVal (VBool True), r)
     else if c = 0xcc then bind_res (readByte r) (\<lambda>(b, r'). Inr (HVal (VInt (ucast b)), r'))
     else if c = 0xcd then bind_res (readN 2 r) (\<lambda>(b, r'). Inr (HVal (VInt (word_of_nat (be_dec b))), r'))
     else if c = 0xce then bind_res (readN 4 r) (\<lambda>(b, r'). Inr (HVal (VInt (word_of_nat (be_dec b))), r'))
     else if c = 0xcf then bind_res (readN 8 r) (\<lambda>(b, r').
       let n = word_of_nat (be_dec b) :: uint64 in
       Inr (HVal (if n \<le> 0x7FFFFFFFFFFFFFFF then VInt n else VUint n), r'))
     else if c = 0xd0 then bind_res (readByte r) (\<lambda>(b, r'). Inr (HVal (VInt (scast b)), r'))
     else if c = 0xd1 then bind_res (readN 2 r) (\<lambda>(b, r'). Inr (HVal (VInt (scast (word_of_nat (be_dec b) :: 16 word))), r'))
     else if c = 0xd2 then bind_res (readN 4 r) (\<lambda>(b, r'). Inr (HVal (VInt (scast (word_of_nat (be_dec b) :: 32 word))), r'))
     else if c = 0xd3 then bind_res (readN 8 r) (\<lambda>(b, r'). Inr (HVal (VInt (word_of_nat (be_dec b))), r'))
     else if c = 0xca then bind_res (readN 4 r) (\<lambda>(b, r'). Inr (HVal (VFloat (widen (word_of_nat (be_dec b)))), r'))
     else if c = 0xcb then bind_res (readN 8 r) (\<lambda>(b, r'). Inr (HVal (VFloat (word_of_nat (be_dec b))), r'))
     else if c = 0xd9 then hlen 1 r (\<lambda>n r'. hval (decodeStr n r'))
     else if c = 0xda then hlen 2 r (\<lambda>n r'. hval (decodeStr n r'))
     else if c = 0xdb then hlen 4 r (\<lambda>n r'. hval (decodeStr n r'))
     else if c = 0xc4 then hlen 1 r (\<lambda>n r'. hval (decodeBin n r'))
     else if c = 0xc5 then hlen 2 r (\<lambda>n r'. hval (decodeBin n r'))
     else if c = 0xc6 then hlen 4 r (\<lambda>n r'. hval (decodeBin n r'))
     else if c = 0xdc then hlen 2 r (\<lambda>n r'. Inr (HArr n, r'))
     else if c = 0xdd then hlen 4 r (\<lambda>n r'. Inr (HArr n, r'))
     else if c = 0xde then hlen 2 r (\<lambda>n r'. Inr (HMap n, r'))
     else if c = 0xdf then hlen 4 r (\<lambda>n r'. Inr (HMap n, r'))
     else if c = 0xd4 then hval (decodeExt 1 r)
     else if c = 0xd5 then hval (decodeExt 2 r)
     else if c = 0xd6 then hval (decodeExt 4 r)
     else if c = 0xd7 then hval (decodeExt 8 r)
     else if c = 0xd8 then hval (decodeExt 16 r)
     else if c = 0xc7 then hlen 1 r (\<lambda>n r'. hval (decodeExt n r'))
     else if c = 0xc8 then hlen 2 r (\<lambda>n r'. hval (decodeExt n r'))
     else if c = 0xc9 then hlen 4 r (\<lambda>n r'. hval (decodeExt n r'))
     else Inl (InvalidFormat c))"

function (sequential) decode :: "nat \<Rightarrow> nat \<Rightarrow> bytes \<Rightarrow> mp_error + mp_value \<times> bytes"
  and decodeArray :: "nat \<Rightarrow> nat \<Rightarrow> nat \<Rightarrow> bytes \<Rightarrow> mp_error + mp_value \<times> bytes"
  and decodeMap :: "nat \<Rightarrow> nat \<Rightarrow> nat \<Rightarrow> bytes \<Rightarrow> mp_error + mp_value \<times> bytes"
  and decodeElems :: "nat \<Rightarrow> nat \<Rightarrow> nat \<Rightarrow> bytes \<Rightarrow> mp_error + mp_value list \<times> bytes"
  and decodeEntries :: "nat \<Rightarrow> nat \<Rightarrow> nat \<Rightarrow> bytes \<Rightarrow> mp_error + mp_entries \<times> bytes" where
  "decode D d bs =
     (if d > D then Inl TooDeep
      else bind_res (decode_head bs) (\<lambda>(h, r). case h of
        HVal v \<Rightarrow> Inr (v, r)
      | HArr n \<Rightarrow> decodeArray D (Suc d) n r
      | HMap n \<Rightarrow> decodeMap D (Suc d) n r))"
| "decodeArray D d n bs =
     (if \<not> checkCount n 1 bs then Inl ShortBuffer
      else bind_res (decodeElems D d n bs) (\<lambda>(xs, r). Inr (VArr xs, r)))"
| "decodeMap D d n bs =
     (if \<not> checkCount n 2 bs then Inl ShortBuffer
      else bind_res (decodeEntries D d n bs) (\<lambda>(es, r). Inr (VMap False es, r)))"
| "decodeElems D d 0 bs = Inr ([], bs)"
| "decodeElems D d (Suc n) bs = bind_res (decode D d bs) (\<lambda>(x, r).
     bind_res (decodeElems D d n r) (\<lambda>(xs, r'). Inr (x # xs, r')))"
| "decodeEntries D d 0 bs = Inr ([], bs)"
| "decodeEntries D d (Suc n) bs = bind_res (decode D d bs) (\<lambda>(k, r). bind_res (decode D d r) (\<lambda>(v, r').
     bind_res (decodeEntries D d n r') (\<lambda>(es, r''). Inr ((k, v) # es, r''))))"
  by pat_completeness auto
termination
  by (relation "inv_image (less_than <*lex*> less_than) (\<lambda>x. case x of
    Inl (Inl (D, d, _)) \<Rightarrow> (Suc D - d, 0)
  | Inl (Inr (D, d, n, _)) \<Rightarrow> (Suc D - d, Suc (Suc n))
  | Inr (Inl (D, d, n, _)) \<Rightarrow> (Suc D - d, Suc (Suc n))
  | Inr (Inr (Inl (D, d, n, _))) \<Rightarrow> (Suc D - d, Suc n)
  | Inr (Inr (Inr (D, d, n, _))) \<Rightarrow> (Suc D - d, Suc n))") auto

definition Decode :: "bytes \<Rightarrow> mp_error + mp_value \<times> bytes" where
  "Decode bs = (if bs = [] then Inl EndOfInput else decode DefaultMaxDepth 0 bs)"

definition Unmarshal :: "bytes \<Rightarrow> mp_error + mp_value" where
  "Unmarshal bs = bind_res (Decode bs) (\<lambda>(v, r). if length r \<noteq> 0 then Inl (TrailingBytes (length r)) else Inr v)"

declare decode.simps [simp del] encode.simps [simp del]


section \<open>Heads of encoded values\<close>

lemma readByte_Cons [simp]: "readByte (b # r) = Inr (b, r)"
  by (simp add: readByte_def)

lemma readN_append [simp]: "length b = n \<Longrightarrow> readN n (b @ r) = Inr (b, r)"
  by (auto simp: readN_def)

lemma readN_Cons1 [simp]: "readN (Suc 0) (b # r) = Inr ([b], r)"
  by (simp add: readN_def)

lemma be_dec_single [simp]: "be_dec [b] = unat b"
  by (simp add: be_dec_def)

lemma readLen_append: "length b = w \<Longrightarrow> readLen w (b @ r) = Inr (be_dec b, r)"
  by (simp add: readLen_def)

lemma readLen_be [simp]: "n < 256 ^ w \<Longrightarrow> readLen w (be_enc w n @ r) = Inr (n, r)"
  by (simp add: readLen_append be_dec_enc)

lemma readLen_byte [simp]: "n < 256 \<Longrightarrow> readLen (Suc 0) (word_of_nat n # r) = Inr (n, r)"
  by (simp add: readLen_def unat_of_nat)

lemma unat_ucast_byte: "unat (n :: uint64) < 256 \<Longrightarrow> unat (ucast n :: byte) = unat n"
  by (simp add: unsigned_ucast_eq take_bit_nat_eq_self)

lemma ucast_ucast_byte: "unat (n :: uint64) < 256 \<Longrightarrow> ucast (ucast n :: byte) = n"
proof -
  assume n: "unat n < 256"
  have "unat (ucast (ucast n :: byte) :: uint64) = unat (ucast n :: byte)"
    using unat_byte_less [of "ucast n :: byte"] unsigned_ucast_eq [of "ucast n :: byte", where ?'c = 64 and ?'a = nat]
    by (simp only: take_bit_nat_eq_self) (simp add: take_bit_nat_eq_self)
  with n show ?thesis by (simp only: word_unat_eq_iff unat_ucast_byte)
qed

lemma small_uint: "unat (n :: uint64) \<le> 0xffffffff \<Longrightarrow> n \<le> 0x7FFFFFFFFFFFFFFF"
  by (simp add: word_le_nat_alt)

lemma head_uint: "decode_head (encodeUint n @ r) = Inr (HVal (if n \<le> 0x7FFFFFFFFFFFFFFF then VInt n else VUint n), r)"
proof -
  consider "unat n \<le> 0x7f" | "0x7f < unat n" "unat n \<le> 0xff" | "0xff < unat n" "unat n \<le> 0xffff"
    | "0xffff < unat n" "unat n \<le> 0xffffffff" | "0xffffffff < unat n" by linarith
  then show ?thesis
  proof cases
    case 1
    then have "(ucast n :: byte) \<le> 0x7f" "ucast (ucast n :: byte) = n"
      by (simp_all only: word_le_nat_alt unat_ucast_byte ucast_ucast_byte) simp
    with 1 small_uint [of n] show ?thesis by (simp add: encodeUint_def decode_head_def)
  next
    case 2
    then have "ucast (ucast n :: byte) = n" by (simp only: ucast_ucast_byte)
    with 2 small_uint [of n] show ?thesis by (simp add: encodeUint_def decode_head_def)
  next
    case 3
    with small_uint [of n] show ?thesis by (simp add: encodeUint_def decode_head_def be_dec_enc)
  next
    case 4
    with small_uint [of n] show ?thesis by (simp add: encodeUint_def decode_head_def be_dec_enc)
  next
    case 5
    have "unat n < 256 ^ 8" using unsigned_less [of n] by simp
    with 5 show ?thesis by (simp add: encodeUint_def decode_head_def be_dec_enc)
  qed
qed

lemma sign_extend:
  assumes "- (2 ^ (LENGTH('a) - 1)) \<le> sint (n :: int64)" "sint n < 2 ^ (LENGTH('a) - 1)" "LENGTH('a) \<le> 64"
  shows "scast (ucast n :: 'a :: len word) = n"
proof -
  have "sint (ucast n :: 'a word) = signed_take_bit (LENGTH('a) - 1) (uint n)"
    by (simp add: signed_ucast_eq)
  also have "\<dots> = signed_take_bit (LENGTH('a) - 1) (sint n)"
    using assms(3) by (simp add: sint_uint min_absorb1 le_diff_conv)
  also have "\<dots> = sint n" using assms(1,2) by (rule signed_take_bit_int_eq_self)
  finally have "sint (ucast n :: 'a word) = sint n" .
  then have "sint (scast (ucast n :: 'a word) :: int64) = signed_take_bit 63 (sint n)"
    by (simp only: signed_scast_eq) simp
  also have "\<dots> = sint n" using sint_greater_eq [of n] sint_less [of n] by (intro signed_take_bit_int_eq_self) simp_all
  finally show ?thesis by (rule signed_word_eqI)
qed


lemma word_of_be:
  "word_of_nat (be_dec (be_enc 2 (unat n))) = (ucast (n :: int64) :: 16 word)"
  "word_of_nat (be_dec (be_enc 4 (unat n))) = (ucast (n :: int64) :: 32 word)"
  "word_of_nat (be_dec (be_enc 8 (unat n))) = n"
proof -
  have "unat n < 256 ^ 8" using unsigned_less [of n] by simp
  then show "word_of_nat (be_dec (be_enc 8 (unat n))) = n" by (simp add: be_dec_enc)
qed (simp_all add: be_dec_enc word_unat_eq_iff unsigned_ucast_eq unat_of_nat take_bit_eq_mod)

lemma head_int: "decode_head (encodeInt n @ r) = Inr (HVal (VInt n), r)"
proof -
  consider "0 \<le> sint n" | "sint n < 0" "-32 \<le> sint n" | "sint n < -32" "-(2 ^ 7) \<le> sint n" | "sint n < -(2 ^ 7)" "-(2 ^ 15) \<le> sint n"
    | "sint n < -(2 ^ 15)" "-(2 ^ 31) \<le> sint n" | "sint n < -(2 ^ 31)" by linarith
  then show ?thesis
  proof cases
    case 1
    then have "uint n = sint n" using sint_less [of n] by (simp only: uint_sint) (intro take_bit_int_eq_self; simp)
    then have "uint n < 2 ^ 63" using sint_less [of n] by simp
    then have "n \<le> 0x7FFFFFFFFFFFFFFF" by (simp add: word_le_def)
    with 1 show ?thesis by (simp add: encodeInt_def head_uint)
  next
    case 2
    have "uint (ucast n :: byte) = sint n mod 256"
      using unsigned_ucast_eq [of n, where ?'c = 8 and ?'a = int] uint_sint [of n]
      by (simp add: take_bit_eq_mod mod_mod_cancel)
    also have "\<dots> = sint n + 256" using 2 mod_pos_pos_trivial [of "sint n + 256" 256] by simp
    finally have "(ucast n :: byte) \<ge> 0xe0" "\<not> (ucast n :: byte) \<le> 0x7f" using 2 by (simp_all add: word_le_def)
    with 2 sign_extend [where 'a = 8, of n] show ?thesis by (simp add: encodeInt_def decode_head_def)
  next
    case 3
    with sign_extend [where 'a = 8, of n] show ?thesis by (simp add: encodeInt_def decode_head_def)
  next
    case 4
    with sign_extend [where 'a = 16, of n] show ?thesis by (simp add: encodeInt_def decode_head_def word_of_be)
  next
    case 5
    with sign_extend [where 'a = 32, of n] show ?thesis by (simp add: encodeInt_def decode_head_def word_of_be)
  next
    case 6
    then show ?thesis by (simp add: encodeInt_def decode_head_def word_of_be)
  qed
qed


text \<open>The format bytes that carry a small length: the prefix and the length can be read back.\<close>

lemma prefix_bytes:
  "n < 32 \<Longrightarrow> \<not> (0xa0 OR word_of_nat n :: byte) \<le> 0x7f \<and> \<not> (0xa0 OR word_of_nat n :: byte) \<ge> 0xe0
     \<and> (0xa0 OR word_of_nat n :: byte) AND 0xf0 \<noteq> 0x80 \<and> (0xa0 OR word_of_nat n :: byte) AND 0xf0 \<noteq> 0x90
     \<and> (0xa0 OR word_of_nat n :: byte) AND 0xe0 = 0xa0 \<and> unat ((0xa0 OR word_of_nat n :: byte) AND 0x1f) = n"
  "n < 16 \<Longrightarrow> \<not> (0x90 OR word_of_nat n :: byte) \<le> 0x7f \<and> \<not> (0x90 OR word_of_nat n :: byte) \<ge> 0xe0
     \<and> (0x90 OR word_of_nat n :: byte) AND 0xf0 = 0x90 \<and> unat ((0x90 OR word_of_nat n :: byte) AND 0x0f) = n"
  "n < 16 \<Longrightarrow> \<not> (0x80 OR word_of_nat n :: byte) \<le> 0x7f \<and> \<not> (0x80 OR word_of_nat n :: byte) \<ge> 0xe0
     \<and> (0x80 OR word_of_nat n :: byte) AND 0xf0 = 0x80 \<and> unat ((0x80 OR word_of_nat n :: byte) AND 0x0f) = n"
proof -
  have "\<forall>n\<in>set [0..<32]. \<not> (0xa0 OR word_of_nat n :: byte) \<le> 0x7f \<and> \<not> (0xa0 OR word_of_nat n :: byte) \<ge> 0xe0
     \<and> (0xa0 OR word_of_nat n :: byte) AND 0xf0 \<noteq> 0x80 \<and> (0xa0 OR word_of_nat n :: byte) AND 0xf0 \<noteq> 0x90
     \<and> (0xa0 OR word_of_nat n :: byte) AND 0xe0 = 0xa0 \<and> unat ((0xa0 OR word_of_nat n :: byte) AND 0x1f) = n"
    by code_simp
  then show "n < 32 \<Longrightarrow> \<not> (0xa0 OR word_of_nat n :: byte) \<le> 0x7f \<and> \<not> (0xa0 OR word_of_nat n :: byte) \<ge> 0xe0
     \<and> (0xa0 OR word_of_nat n :: byte) AND 0xf0 \<noteq> 0x80 \<and> (0xa0 OR word_of_nat n :: byte) AND 0xf0 \<noteq> 0x90
     \<and> (0xa0 OR word_of_nat n :: byte) AND 0xe0 = 0xa0 \<and> unat ((0xa0 OR word_of_nat n :: byte) AND 0x1f) = n"
    by simp
  have "\<forall>n\<in>set [0..<16]. \<not> (0x90 OR word_of_nat n :: byte) \<le> 0x7f \<and> \<not> (0x90 OR word_of_nat n :: byte) \<ge> 0xe0
     \<and> (0x90 OR word_of_nat n :: byte) AND 0xf0 = 0x90 \<and> unat ((0x90 OR word_of_nat n :: byte) AND 0x0f) = n"
    by code_simp
  then show "n < 16 \<Longrightarrow> \<not> (0x90 OR word_of_nat n :: byte) \<le> 0x7f \<and> \<not> (0x90 OR word_of_nat n :: byte) \<ge> 0xe0
     \<and> (0x90 OR word_of_nat n :: byte) AND 0xf0 = 0x90 \<and> unat ((0x90 OR word_of_nat n :: byte) AND 0x0f) = n"
    by simp
  have "\<forall>n\<in>set [0..<16]. \<not> (0x80 OR word_of_nat n :: byte) \<le> 0x7f \<and> \<not> (0x80 OR word_of_nat n :: byte) \<ge> 0xe0
     \<and> (0x80 OR word_of_nat n :: byte) AND 0xf0 = 0x80 \<and> unat ((0x80 OR word_of_nat n :: byte) AND 0x0f) = n"
    by code_simp
  then show "n < 16 \<Longrightarrow> \<not> (0x80 OR word_of_nat n :: byte) \<le> 0x7f \<and> \<not> (0x80 OR word_of_nat n :: byte) \<ge> 0xe0
     \<and> (0x80 OR word_of_nat n :: byte) AND 0xf0 = 0x80 \<and> unat ((0x80 OR word_of_nat n :: byte) AND 0x0f) = n"
    by simp
qed

lemmas head_simps = decode_head_def hval_def hlen_def decodeStr_def decodeBin_def decodeExt_def Let_def

lemma head_str: "encodeStr s = Inr b \<Longrightarrow> decode_head (b @ r) = Inr (HVal (VStr s), r)"
  using prefix_bytes(1) [of "length s"] by (auto simp: encodeStr_def head_simps split: if_splits)

lemma head_bin: "encodeBin s = Inr b \<Longrightarrow> decode_head (b @ r) = Inr (HVal (VBin s), r)"
  by (auto simp: encodeBin_def head_simps split: if_splits)

lemma head_ext: "encodeExt t s = Inr b \<Longrightarrow> t \<noteq> 0xff \<Longrightarrow> decode_head (b @ r) = Inr (HVal (VExt t s), r)"
  by (auto simp: encodeExt_def head_simps split: if_splits)

lemma head_float: "decode_head (encodeFloat64 f @ r) = Inr (HVal (VFloat f), r)"
  by (simp add: encodeFloat64_def head_simps word_of_be)

lemma head_arr: "writeArrayHeader n = Inr b \<Longrightarrow> decode_head (b @ r) = Inr (HArr n, r)"
  using prefix_bytes(2) [of n] by (auto simp: writeArrayHeader_def head_simps split: if_splits)

lemma head_map: "writeMapHeader n = Inr b \<Longrightarrow> decode_head (b @ r) = Inr (HMap n, r)"
  using prefix_bytes(3) [of n] by (auto simp: writeMapHeader_def head_simps split: if_splits)


lemma combined_uint:
  assumes "uint (nsec :: uint32) < 2 ^ 30" "uint (secs :: uint64) < 2 ^ 34"
  shows "uint (push_bit 34 (ucast nsec) OR secs) = uint nsec * 2 ^ 34 + uint secs"
proof -
  have u: "uint (ucast nsec :: uint64) = uint nsec"
    using assms(1) by (simp add: unsigned_ucast_eq take_bit_int_eq_self)
  have "uint (push_bit 34 (ucast nsec) :: uint64) = push_bit 34 (uint nsec)"
    using assms(1) by (simp only: unsigned_push_bit_eq u) (simp add: take_bit_int_eq_self push_bit_eq_mult)
  then have "uint (push_bit 34 (ucast nsec) OR secs) = take_bit 34 (uint secs) OR push_bit 34 (uint nsec)"
    using assms(2) by (simp add: unsigned_or_eq or.commute take_bit_int_eq_self)
  also have "\<dots> = concat_bit 34 (uint secs) (uint nsec)" by (simp add: concat_bit_def)
  also have "\<dots> = take_bit 34 (uint secs) + push_bit 34 (uint nsec)" by (rule concat_bit_eq)
  finally show ?thesis using assms(2) by (simp add: take_bit_int_eq_self push_bit_eq_mult)
qed

lemma high_bits: "(w :: uint64) AND 0xffffffff00000000 = 0 \<longleftrightarrow> uint w < 2 ^ 32"
proof -
  have "(0xffffffff00000000 :: uint64) = NOT (mask 32)" by (simp add: mask_eq_exp_minus_1)
  then have "w AND 0xffffffff00000000 = 0 \<longleftrightarrow> w AND NOT (mask 32) = 0" by (simp only:)
  also have "\<dots> \<longleftrightarrow> w AND mask 32 = w"
  proof
    have "w = (w AND mask 32) OR (w AND NOT (mask 32))" by (simp flip: bit.conj_disj_distrib)
    then show "w AND NOT (mask 32) = 0 \<Longrightarrow> w AND mask 32 = w" by simp
    assume "w AND mask 32 = w"
    then have "w AND NOT (mask 32) = (w AND mask 32) AND NOT (mask 32)" by simp
    then show "w AND NOT (mask 32) = 0" by (simp add: and.assoc)
  qed
  finally show ?thesis by (simp add: mask_eq_iff)
qed

lemma decodeTimestamp_encode:
  assumes n: "unat nsec < 1000000000"
  shows "\<not> (sint secs \<ge> 0 \<and> drop_bit 34 secs = 0) \<Longrightarrow>
      decodeTimestamp (be_enc 4 (unat nsec) @ be_enc 8 (unat secs)) = Inr (VTime secs nsec)"
    and "drop_bit 34 secs = 0 \<Longrightarrow> combined = push_bit 34 (ucast nsec) OR secs \<Longrightarrow>
      decodeTimestamp (be_enc 8 (unat combined)) = Inr (VTime secs nsec)"
    and "drop_bit 34 secs = 0 \<Longrightarrow> combined = push_bit 34 (ucast nsec) OR secs \<Longrightarrow> combined AND 0xffffffff00000000 = 0 \<Longrightarrow>
      decodeTimestamp (be_enc 4 (unat combined)) = Inr (VTime secs nsec)"
proof -
  have l: "unat secs < 18446744073709551616" using unsigned_less [of secs] by simp
  have "unat nsec mod 4294967296 = unat nsec" using n by simp
  then have "(word_of_nat (unat nsec mod 4294967296) :: uint32) = nsec" by simp
  then show "\<not> (sint secs \<ge> 0 \<and> drop_bit 34 secs = 0) \<Longrightarrow>
      decodeTimestamp (be_enc 4 (unat nsec) @ be_enc 8 (unat secs)) = Inr (VTime secs nsec)"
    using n l by (simp add: decodeTimestamp_def be_dec_enc)
  assume d: "drop_bit 34 secs = 0" and c: "combined = push_bit 34 (ucast nsec) OR secs"
  have s: "uint secs < 2 ^ 34"
  proof -
    have "drop_bit 34 (uint secs) = 0" using arg_cong [OF d, of uint] uint_lt2p [of secs]
      by (simp add: unsigned_drop_bit_eq take_bit_int_eq_self)
    then show ?thesis by (auto simp: drop_bit_eq_div zdiv_eq_0_iff)
  qed
  have "int (unat nsec) < 1000000000" using n by linarith
  then have ni: "uint nsec < 1000000000" by simp
  have u: "uint combined = uint nsec * 2 ^ 34 + uint secs" unfolding c by (rule combined_uint) (use ni s in simp_all)
  have hi: "uint (drop_bit 34 combined) = uint nsec"
  proof -
    have "take_bit 64 (uint combined) = uint combined" using uint_lt2p [of combined] by (simp add: take_bit_int_eq_self)
    then have "uint (drop_bit 34 combined) = drop_bit 34 (uint combined)" by (simp only: unsigned_drop_bit_eq) simp
    then show ?thesis using s by (simp only: u) (simp add: drop_bit_eq_div)
  qed
  have ns: "ucast (drop_bit 34 combined) = nsec"
  proof -
    have "uint (ucast (drop_bit 34 combined) :: uint32) = take_bit 32 (uint nsec)"
      by (simp only: unsigned_ucast_eq hi) simp
    also have "\<dots> = uint nsec" using ni by (simp add: take_bit_int_eq_self)
    finally show ?thesis by (rule unsigned_word_eqI)
  qed
  have lo: "combined AND 0x3ffffffff = secs"
  proof -
    have m: "(0x3ffffffff :: uint64) = mask 34" by (simp add: mask_eq_exp_minus_1)
    have "uint (combined AND mask 34) = uint combined mod 2 ^ 34"
      by (simp only: take_bit_eq_mask [symmetric] unsigned_take_bit_eq) (simp only: take_bit_eq_mod)
    also have "\<dots> = uint secs" using s by (simp add: u)
    finally show ?thesis unfolding m by (rule unsigned_word_eqI)
  qed
  show "decodeTimestamp (be_enc 8 (unat combined)) = Inr (VTime secs nsec)"
    using n by (simp add: decodeTimestamp_def word_of_be ns lo Let_def)
  assume "combined AND 0xffffffff00000000 = 0"
  then have "uint nsec * 2 ^ 34 + uint secs < 2 ^ 32" by (simp add: high_bits u)
  then have "uint nsec * 17179869184 + uint secs < 4294967296" by simp
  moreover have "0 \<le> uint nsec" "0 \<le> uint secs" by simp_all
  ultimately have "uint nsec = 0" by linarith
  then have nz: "nsec = 0" and uc: "uint combined = uint secs" using u by (simp_all add: uint_0_iff)
  then have cs: "combined = secs" by (simp add: unsigned_word_eqI)
  have "int (unat secs) < int 4294967296" using \<open>uint nsec * 17179869184 + uint secs < 4294967296\<close> \<open>uint nsec = 0\<close> by simp
  then have "unat secs < 4294967296" by (simp only: of_nat_less_iff)
  then have "unat secs < 256 ^ 4" by simp
  then show "decodeTimestamp (be_enc 4 (unat combined)) = Inr (VTime secs nsec)"
    by (simp add: decodeTimestamp_def be_dec_enc cs nz)
qed

lemma readLen_single: "readLen (Suc 0) (b # r) = Inr (unat b, r)"
  by (simp add: readLen_def)

lemma head_time: "encodeTimestamp secs nsec = Inr b \<Longrightarrow> decode_head (b @ r) = Inr (HVal (VTime secs nsec), r)"
  using decodeTimestamp_encode [of nsec secs]
  by (auto simp: encodeTimestamp_def head_simps readN_def readLen_single split: if_splits)


section \<open>Round trip\<close>

text \<open>What decoding an encoded value gives: the same value, with the integer type the decoder
  chooses, a \<open>Map\<close> in the order it was written, and a Go map as a \<open>Map\<close>.\<close>

function canon :: "mp_value \<Rightarrow> mp_value" where
  "canon v = (case v of
     VUint n \<Rightarrow> (if n \<le> 0x7FFFFFFFFFFFFFFF then VInt n else VUint n)
   | VArr xs \<Rightarrow> VArr (map canon xs)
   | VMap st es \<Rightarrow> VMap False (map (\<lambda>(k, w). (canon k, canon w)) (if st then sort_entries es else es))
   | VGoMap kvs \<Rightarrow> VMap False (map (\<lambda>(k, w). (VStr k, canon w)) (sort_go kvs))
   | _ \<Rightarrow> v)"
  by pat_completeness auto
termination
proof (relation "measure size", goal_cases)
  case (2 v xs x)
  then show ?case using size_list_estimation' [of x xs "size x" size] by simp
next
  case (3 v st es e k w)
  then have "e \<in> set es" by (auto split: if_splits)
  with 3 size_list_estimation' [of e es "size_prod size size e" "size_prod size size"] show ?case by auto
next
  case (4 v st es e k w)
  then have "e \<in> set es" by (auto split: if_splits)
  with 4 size_list_estimation' [of e es "size_prod size size e" "size_prod size size"] show ?case by auto
next
  case (5 v kvs e k w)
  then have "e \<in> set kvs" by auto
  with 5 size_list_estimation' [of e kvs "size_prod (\<lambda>_. 0) size e" "size_prod (\<lambda>_. 0) size"] show ?case by auto
qed simp

declare canon.simps [simp del]

text \<open>An extension value of the type reserved for timestamps does not survive.\<close>

fun plain_ext :: "mp_value \<Rightarrow> bool" where
  "plain_ext (VExt t b) \<longleftrightarrow> t \<noteq> 0xff"
| "plain_ext (VArr xs) \<longleftrightarrow> list_all plain_ext xs"
| "plain_ext (VMap st es) \<longleftrightarrow> list_all (\<lambda>(k, v). plain_ext k \<and> plain_ext v) es"
| "plain_ext (VGoMap kvs) \<longleftrightarrow> list_all (\<lambda>(k, v). plain_ext v) kvs"
| "plain_ext _ \<longleftrightarrow> True"

lemma decode_head_ne: "decode_head bs = Inr x \<Longrightarrow> bs \<noteq> []"
  by (auto simp: decode_head_def readByte_def)

lemma decode_val: "d \<le> D \<Longrightarrow> decode_head bs = Inr (HVal v, r) \<Longrightarrow> decode D d bs = Inr (v, r)"
  by (simp add: decode.simps)

lemma decode_ne: "decode D d bs = Inr x \<Longrightarrow> bs \<noteq> []"
  by (auto simp: decode.simps bind_res_Inr dest: decode_head_ne split: if_splits)

lemma roundtrip_aux:
  shows "encode D d v = Inr b \<Longrightarrow> plain_ext v \<Longrightarrow> decode D d (b @ r) = Inr (canon v, r)"
    and "encodeElems D d xs = Inr b \<Longrightarrow> list_all plain_ext xs \<Longrightarrow>
      decodeElems D d (length xs) (b @ r) = Inr (map canon xs, r) \<and> length xs \<le> length b"
    and "encodeEntries D d es = Inr b \<Longrightarrow> list_all (\<lambda>(k, v). plain_ext k \<and> plain_ext v) es \<Longrightarrow>
      decodeEntries D d (length es) (b @ r) = Inr (map (\<lambda>(k, w). (canon k, canon w)) es, r) \<and> 2 * length es \<le> length b"
    and "encodeGo D d kvs = Inr b \<Longrightarrow> list_all (\<lambda>(k, v). plain_ext v) kvs \<Longrightarrow>
      decodeEntries D d (length kvs) (b @ r) = Inr (map (\<lambda>(k, w). (VStr k, canon w)) kvs, r) \<and> 2 * length kvs \<le> length b"
proof (induction D d v and D d xs and D d es and D d kvs arbitrary: b r and b r and b r and b r
    rule: encode_encodeElems_encodeEntries_encodeGo.induct)
  case (1 D d v)
  then have d: "d \<le> D" by (auto simp: encode.simps split: if_splits)
  show ?case
  proof (cases v)
    case VNil
    with 1 d show ?thesis by (intro decode_val) (auto simp: encode.simps canon.simps decode_head_def)
  next
    case (VBool x)
    with 1 d show ?thesis by (intro decode_val) (auto simp: encode.simps canon.simps decode_head_def)
  next
    case (VInt n)
    with 1 d show ?thesis by (intro decode_val) (auto simp: encode.simps canon.simps head_int)
  next
    case (VUint n)
    with 1 d show ?thesis by (intro decode_val) (auto simp: encode.simps canon.simps head_uint)
  next
    case (VFloat n)
    with 1 d show ?thesis by (intro decode_val) (auto simp: encode.simps canon.simps head_float)
  next
    case (VStr n)
    with 1 d show ?thesis by (intro decode_val) (auto simp: encode.simps canon.simps head_str)
  next
    case (VBin n)
    with 1 d show ?thesis by (intro decode_val) (auto simp: encode.simps canon.simps head_bin)
  next
    case (VTime s n)
    with 1 d show ?thesis by (intro decode_val) (auto simp: encode.simps canon.simps head_time)
  next
    case (VExt t n)
    with 1 d show ?thesis by (intro decode_val) (auto simp: encode.simps canon.simps head_ext)
  next
    case (VArr xs)
    with 1(4) d obtain h c where h: "writeArrayHeader (length xs) = Inr h" "encodeElems D (Suc d) xs = Inr c" "b = h @ c"
      by (auto simp: encode.simps bind_res_Inr)
    from 1(1) [OF _ VArr h(2)] 1(5) VArr d
    have "decodeElems D (Suc d) (length xs) (c @ r) = Inr (map canon xs, r)" "length xs \<le> length c" by simp_all
    with h d VArr show ?thesis by (simp add: decode.simps head_arr checkCount_def canon.simps)
  next
    case (VMap st es)
    let ?es = "if st then sort_entries es else es"
    from VMap 1(4) d obtain h c where h: "writeMapHeader (length es) = Inr h" "encodeEntries D (Suc d) ?es = Inr c" "b = h @ c"
      and s: "(if st then sortedEntries es else Some es) \<noteq> None"
      by (auto simp: encode.simps bind_res_Inr split: option.splits)
    have "list_all (\<lambda>(k, v). plain_ext k \<and> plain_ext v) ?es" using 1(5) VMap by (auto simp: list_all_iff)
    then have "decodeEntries D (Suc d) (length es) (c @ r) = Inr (map (\<lambda>(k, w). (canon k, canon w)) ?es, r)" "2 * length es \<le> length c"
      using 1(2) [OF _ VMap _ h(2)] d s by (cases st; force)+
    with h d VMap show ?thesis by (simp add: decode.simps head_map checkCount_def canon.simps)
  next
    case (VGoMap kvs)
    with 1(4) d obtain h c where h: "writeMapHeader (length kvs) = Inr h" "encodeGo D (Suc d) (sort_go kvs) = Inr c" "b = h @ c"
      by (auto simp: encode.simps bind_res_Inr)
    have "list_all (\<lambda>(k, v). plain_ext v) (sort_go kvs)" using 1(5) VGoMap by (auto simp: list_all_iff)
    from 1(3) [OF _ VGoMap h(2) this] d
    have "decodeEntries D (Suc d) (length kvs) (c @ r) = Inr (map (\<lambda>(k, w). (VStr k, canon w)) (sort_go kvs), r)"
      "2 * length kvs \<le> length c" by simp_all
    with h d VGoMap show ?thesis by (simp add: decode.simps head_map checkCount_def canon.simps)
  qed (use 1(4) d in \<open>simp add: encode.simps\<close>)
next
  case (3 D d x xs)
  then obtain b1 b2 where b: "encode D d x = Inr b1" "encodeElems D d xs = Inr b2" "b = b1 @ b2"
    by (auto simp: bind_res_Inr)
  have 1: "decode D d (b1 @ r') = Inr (canon x, r')" for r' using 3(1) [OF b(1)] 3(4) by simp
  have "b1 \<noteq> []" using decode_ne [OF 1 [of "[]"]] by simp
  then have "Suc (length xs) \<le> length b1 + length b2" if "length xs \<le> length b2" using that by (cases b1) auto
  with 1 3(2) [OF b(2)] 3(4) b(3) show ?case by simp
next
  case (5 D d k v es)
  then obtain b1 b2 b3 where b: "encode D d k = Inr b1" "encode D d v = Inr b2" "encodeEntries D d es = Inr b3" "b = b1 @ b2 @ b3"
    by (auto simp: bind_res_Inr)
  have 1: "decode D d (b1 @ r') = Inr (canon k, r')" for r' using 5(1) [OF b(1)] 5(5) by simp
  have 2: "decode D d (b2 @ r') = Inr (canon v, r')" for r' using 5(2) [OF b(2)] 5(5) by simp
  have "b1 \<noteq> []" "b2 \<noteq> []" using decode_ne [OF 1 [of "[]"]] decode_ne [OF 2 [of "[]"]] by simp_all
  then have "2 + 2 * length es \<le> length b1 + (length b2 + length b3)" if "2 * length es \<le> length b3"
    using that by (cases b1; cases b2) auto
  with 1 2 5(3) [OF b(3)] 5(5) b(4) show ?case by simp
next
  case (7 D d k v kvs)
  then obtain b1 b2 b3 where b: "encodeStr k = Inr b1" "encode D d v = Inr b2" "encodeGo D d kvs = Inr b3" "b = b1 @ b2 @ b3"
    by (auto simp: bind_res_Inr)
  have d: "d \<le> D" using b(2) by (auto simp: encode.simps split: if_splits)
  have 1: "decode D d (b1 @ r') = Inr (VStr k, r')" for r' using decode_val [OF d head_str [OF b(1)]] .
  have 2: "decode D d (b2 @ r') = Inr (canon v, r')" for r' using 7(1) [OF b(2)] 7(4) by simp
  have "b1 \<noteq> []" "b2 \<noteq> []" using decode_ne [OF 1 [of "[]"]] decode_ne [OF 2 [of "[]"]] by simp_all
  then have "2 + 2 * length kvs \<le> length b1 + (length b2 + length b3)" if "2 * length kvs \<le> length b3"
    using that by (cases b1; cases b2) auto
  with 1 2 7(2) [OF b(3)] 7(4) b(4) show ?case by simp
qed simp_all


lemma Unmarshal_Marshal:
  assumes "Marshal v = Inr b" "plain_ext v"
  shows "Unmarshal b = Inr (canon v)"
proof -
  have "decode DefaultMaxDepth 0 b = Inr (canon v, [])"
    using roundtrip_aux(1) [of DefaultMaxDepth 0 v b "[]"] assms by (simp add: Marshal_def)
  then show ?thesis using decode_ne by (fastforce simp: Unmarshal_def Decode_def)
qed

text \<open>C11. Decoding inverts encoding: whatever \<open>Marshal\<close> writes, \<open>Unmarshal\<close> reads back as the same
  value, consuming every byte (the value up to the integer type, the key order and the map type
  the decoder chooses).\<close>

theorem marshal_roundtrip:
  assumes "Marshal v = Inr b" "plain_ext v"
  shows "Unmarshal b = Inr (canon v)"
  using assms by (rule Unmarshal_Marshal)

theorem marshal_roundtrip_witness:
  "Unmarshal [0x82, 0xa1, 0x61, 0xcd, 1, 0, 0xa1, 0x62, 0x92, 0xc3, 0xff]
    = Inr (VMap False [(VStr [0x61], VInt 256), (VStr [0x62], VArr [VBool True, VInt (-1)])])"
proof -
  let ?v = "VMap True [(VStr [0x62], VArr [VBool True, VInt (-1)]), (VStr [0x61], VUint 256)]"
  have less: "comparePyStr [0x61] [0x62] = -1" by (simp add: comparePyStr.simps decodePyRune_def Let_def RuneError_def split: prod.splits)
  have sort: "sort_entries [(VStr [0x62], x), (VStr [0x61], y)] = [(VStr [0x61], y), (VStr [0x62], x)]" for x y
    by (simp add: sort_entries_def keyLess_def less)
  have "be_enc 2 n = [word_of_nat (n div 256 mod 256), word_of_nat (n mod 256)]" for n
    by (simp add: be_enc_def numeral_2_eq_2)
  moreover have "(ucast (-1 :: int64) :: byte) = 0xff" by code_simp
  ultimately have "encodeUint 256 = [0xcd, 1, 0]" "encodeInt (-1) = [0xff]"
    by (simp_all add: encodeUint_def encodeInt_def Let_def)
  then have "Marshal ?v = Inr [0x82, 0xa1, 0x61, 0xcd, 1, 0, 0xa1, 0x62, 0x92, 0xc3, 0xff]"
    by (simp add: Marshal_def DefaultMaxDepth_def encode.simps sortedEntries_def sortable_def key_class_def sort
        writeMapHeader_def writeArrayHeader_def encodeStr_def)
  moreover have "plain_ext ?v" by simp
  moreover have "canon ?v = VMap False [(VStr [0x61], VInt 256), (VStr [0x62], VArr [VBool True, VInt (-1)])]"
    by (simp add: canon.simps sort)
  ultimately show ?thesis using marshal_roundtrip [of ?v] by simp
qed

text \<open>C15. The packed bytes of a stable map depend on its entries only, not on the order they were
  inserted in: two maps with the same entries under distinct string, byte or integer keys are
  packed to the same bytes, so they get the same chunk id.\<close>

theorem stable_map_canonical:
  assumes "mset es = mset es'" "uniform_keys (fst ` set es)" "distinct (map fst es)"
  shows "Marshal (VMap True es) = Marshal (VMap True es')"
proof -
  have "set es' = set es" using assms(1) mset_eq_setD by metis
  then have "sortable es" "sortable es'" using assms(2) sortable_uniform [of es] sortable_uniform [of es'] by simp_all
  moreover have "length es = length es'" using assms(1) mset_eq_length by blast
  ultimately show ?thesis
    using sort_entries_canonical [OF assms] by (simp add: Marshal_def encode.simps sortedEntries_def)
qed

theorem stable_map_canonical_witness:
  "Marshal (VMap True [(VStr [0xff], VNil), (VStr [0x41], VInt 3)]) = Marshal (VMap True [(VStr [0x41], VInt 3), (VStr [0xff], VNil)])"
  by (rule stable_map_canonical) (auto simp: uniform_keys_def)

section \<open>Decoding arbitrary input\<close>

lemma readN_Inr: "readN n bs = Inr (b, r) \<longleftrightarrow> n \<le> length bs \<and> b = take n bs \<and> r = drop n bs"
  by (auto simp: readN_def)

lemma readByte_Inr: "readByte bs = Inr (b, r) \<longleftrightarrow> bs = b # r"
  by (auto simp: readByte_def split: list.splits)

lemma readLen_Inr: "readLen w bs = Inr (n, r) \<longleftrightarrow> w \<le> length bs \<and> n = be_dec (take w bs) \<and> r = drop w bs"
  by (auto simp: readLen_def readN_def)

text \<open>Nodes of a value, each needing an allocation of its own.\<close>

fun nodes :: "mp_value \<Rightarrow> nat" where
  "nodes (VArr xs) = 1 + sum_list (map nodes xs)"
| "nodes (VMap st es) = 1 + sum_list (map (\<lambda>(k, v). nodes k + nodes v) es)"
| "nodes (VGoMap kvs) = 1 + sum_list (map (\<lambda>(k, v). 1 + nodes v) kvs)"
| "nodes (VStr s) = 1 + length s"
| "nodes (VBin s) = 1 + length s"
| "nodes (VExt t s) = 1 + length s"
| "nodes _ = 1"

text \<open>What the decoder guarantees of a value it returns after reading \<open>m\<close> bytes: it is no larger
  than its input, it is in the form the encoder reproduces, and it can be encoded again.\<close>

definition val_ok :: "mp_value \<Rightarrow> nat \<Rightarrow> bool" where
  "val_ok v m \<longleftrightarrow> nodes v \<le> m \<and> plain_ext v \<and> canon v = v"

definition encodable :: "nat \<Rightarrow> nat \<Rightarrow> mp_value \<Rightarrow> bool" where
  "encodable D d v \<longleftrightarrow> (\<exists>b. encode D d v = Inr b)"

definition head_ok :: "head \<Rightarrow> nat \<Rightarrow> bool" where
  "head_ok h m \<longleftrightarrow> 1 \<le> m \<and> (case h of HVal v \<Rightarrow> val_ok v m \<and> (\<forall>D d. d \<le> D \<longrightarrow> encodable D d v)
     | HArr n \<Rightarrow> n < 2 ^ 32 | HMap n \<Rightarrow> n < 2 ^ 32)"

lemma simple_ok:
  "1 \<le> m \<Longrightarrow> head_ok (HVal VNil) m" "1 \<le> m \<Longrightarrow> head_ok (HVal (VBool x)) m" "1 \<le> m \<Longrightarrow> head_ok (HVal (VInt n)) m"
  "1 \<le> m \<Longrightarrow> head_ok (HVal (VFloat f)) m" "1 \<le> m \<Longrightarrow> \<not> u \<le> 0x7FFFFFFFFFFFFFFF \<Longrightarrow> head_ok (HVal (VUint u)) m"
  by (simp_all add: head_ok_def val_ok_def encodable_def canon.simps encode.simps)

lemma cnt_ok: "1 \<le> m \<Longrightarrow> n < 2 ^ 32 \<Longrightarrow> head_ok (HArr n) m" "1 \<le> m \<Longrightarrow> n < 2 ^ 32 \<Longrightarrow> head_ok (HMap n) m"
  by (simp_all add: head_ok_def)

lemma str_ok: "1 + length b \<le> m \<Longrightarrow> length b < 2 ^ 32 \<Longrightarrow> head_ok (HVal (VStr b)) m"
  by (simp add: head_ok_def val_ok_def encodable_def canon.simps encode.simps encodeStr_def Let_def)

lemma bin_ok: "1 + length b \<le> m \<Longrightarrow> length b < 2 ^ 32 \<Longrightarrow> head_ok (HVal (VBin b)) m"
  by (simp add: head_ok_def val_ok_def encodable_def canon.simps encode.simps encodeBin_def Let_def)

lemma ext_ok: "1 + length b \<le> m \<Longrightarrow> length b < 2 ^ 32 \<Longrightarrow> t \<noteq> 0xff \<Longrightarrow> head_ok (HVal (VExt t b)) m"
  by (simp add: head_ok_def val_ok_def encodable_def canon.simps encode.simps encodeExt_def Let_def)

lemma time_ok: "decodeTimestamp b = Inr v \<Longrightarrow> 1 \<le> m \<Longrightarrow> head_ok (HVal v) m"
  by (auto simp: decodeTimestamp_def Let_def head_ok_def val_ok_def encodable_def canon.simps encode.simps
      encodeTimestamp_def split: if_splits)

text \<open>The reading functions consume a prefix.\<close>

definition reads :: "bytes \<Rightarrow> bytes \<Rightarrow> (nat \<Rightarrow> bool) \<Rightarrow> bool" where
  "reads bs r P \<longleftrightarrow> (\<exists>used. bs = used @ r \<and> P (length used))"

lemma reads_Cons: "reads bs r P \<Longrightarrow> (\<And>m. P m \<Longrightarrow> Q (Suc m)) \<Longrightarrow> reads (b # bs) r Q"
  unfolding reads_def by (metis append_Cons length_Cons)

lemma reads_readN: "readN n bs = Inr (b, r) \<Longrightarrow> reads bs r (\<lambda>m. m = n \<and> length b = n)"
  by (auto simp: readN_def reads_def split: if_splits) (metis append_take_drop_id length_take min.absorb2 not_less)

lemma reads_append: "reads bs r P \<Longrightarrow> reads r r' Q \<Longrightarrow> reads bs r' (\<lambda>m. \<exists>a b. m = a + b \<and> P a \<and> Q b)"
  unfolding reads_def by (metis append.assoc length_append)

lemma reads_mono: "reads bs r P \<Longrightarrow> (\<And>m. P m \<Longrightarrow> Q m) \<Longrightarrow> reads bs r Q"
  unfolding reads_def by blast

lemma hval_str: "hval (decodeStr n bs) = Inr (h, r) \<Longrightarrow> n < 2 ^ 32 \<Longrightarrow> reads bs r (\<lambda>m. head_ok h (Suc m))"
  by (auto simp: hval_def decodeStr_def bind_res_Inr intro!: str_ok dest!: reads_readN elim!: reads_mono)

lemma hval_bin: "hval (decodeBin n bs) = Inr (h, r) \<Longrightarrow> n < 2 ^ 32 \<Longrightarrow> reads bs r (\<lambda>m. head_ok h (Suc m))"
  by (auto simp: hval_def decodeBin_def bind_res_Inr intro!: bin_ok dest!: reads_readN elim!: reads_mono)

lemma hval_ext: "hval (decodeExt n bs) = Inr (h, r) \<Longrightarrow> n < 2 ^ 32 \<Longrightarrow> reads bs r (\<lambda>m. head_ok h (Suc m))"
  by (auto simp: hval_def decodeExt_def bind_res_Inr readByte_Inr intro: ext_ok time_ok
      dest!: reads_readN elim!: reads_Cons split: if_splits)

lemma head_ok_mono: "head_ok h m \<Longrightarrow> m \<le> n \<Longrightarrow> head_ok h n"
  by (auto simp: head_ok_def val_ok_def split: head.splits)

lemma hlen_ok:
  assumes "hlen w bs f = Inr (h, r)" "w \<le> 4" "\<And>n r'. f n r' = Inr (h, r) \<Longrightarrow> n < 2 ^ 32 \<Longrightarrow> reads r' r (\<lambda>m. head_ok h (Suc m))"
  shows "reads bs r (\<lambda>m. head_ok h (Suc m))"
proof -
  obtain b r' where b: "readN w bs = Inr (b, r')" "f (be_dec b) r' = Inr (h, r)"
    using assms(1) by (auto simp: hlen_def readLen_def bind_res_Inr)
  from b(1) have "length b = w" by (auto simp: readN_def split: if_splits)
  then have "be_dec b < 256 ^ w" using be_dec_bound by blast
  also have "(256::nat) ^ w \<le> 256 ^ 4" using assms(2) by (intro power_increasing) auto
  finally have "be_dec b < 2 ^ 32" by simp
  from reads_append [OF reads_readN [OF b(1)] assms(3) [OF b(2) this]]
  show ?thesis by (rule reads_mono) (auto intro: head_ok_mono)
qed

lemma reads_self: "reads r r (\<lambda>m. m = 0)"
  by (simp add: reads_def)

lemma count_ok: "n < 2 ^ 32 \<Longrightarrow> reads r r (\<lambda>m. head_ok (HArr n) (Suc m))" "n < 2 ^ 32 \<Longrightarrow> reads r r (\<lambda>m. head_ok (HMap n) (Suc m))"
  by (simp_all add: reads_def head_ok_def)


lemma if_resE: "(if P then a else b) = Inr x \<Longrightarrow> (P \<Longrightarrow> a = Inr x \<Longrightarrow> Q) \<Longrightarrow> (\<not> P \<Longrightarrow> b = Inr x \<Longrightarrow> Q) \<Longrightarrow> Q"
  by (cases P) auto

lemma head_reads: "decode_head bs = Inr (h, r) \<Longrightarrow> reads bs r (head_ok h)"
proof -
  assume h: "decode_head bs = Inr (h, r)"
  then obtain c s where bs: "bs = c # s" by (cases bs) (auto simp: decode_head_def readByte_def)
  have small: "unat (x AND 0x1f) < 2 ^ 32" "unat (x AND 0x0f) < 2 ^ 32" for x :: byte
    using unat_byte_less [of "x AND 0x1f"] unat_byte_less [of "x AND 0x0f"] by simp_all
  have fixed: "reads s r (\<lambda>m. head_ok h (Suc m))" if "bind_res (readN n s) (\<lambda>(b, r'). Inr (HVal (f b), r')) = Inr (h, r)"
    "\<And>b m. 1 \<le> m \<Longrightarrow> head_ok (HVal (f b)) m" for n f
    using that by (auto simp: bind_res_Inr dest!: reads_readN elim!: reads_mono)
  have one: "reads s r (\<lambda>m. head_ok h (Suc m))" if "bind_res (readByte s) (\<lambda>(b, r'). Inr (HVal (f b), r')) = Inr (h, r)"
    "\<And>b m. 1 \<le> m \<Longrightarrow> head_ok (HVal (f b)) m" for f
    using that by (auto simp: bind_res_Inr readByte_Inr intro!: reads_Cons [OF reads_self])
  have now: "reads s r (\<lambda>m. head_ok h (Suc m))" if "Inr (h', s) = Inr (h, r)" "\<And>m. 1 \<le> m \<Longrightarrow> head_ok h' m" for h'
    using that by (auto intro!: reads_mono [OF reads_self])
  have "reads s r (\<lambda>m. head_ok h (Suc m))"
    using h unfolding bs decode_head_def readByte_Cons bind_res_simps prod.case Let_def
    apply (elim if_resE)
    apply ((erule now, erule simple_ok cnt_ok, (rule small)?)
      | (erule fixed, auto intro: simple_ok)[1]
      | (erule one, erule simple_ok)
      | (erule hval_str, rule small)
      | (erule hval_ext, simp)
      | (erule hlen_ok, simp, (erule hval_str hval_bin hval_ext, assumption))
      | (erule hlen_ok, simp, auto intro: count_ok)[1]
      | simp)+
    done
  then show ?thesis unfolding bs by (rule reads_Cons)
qed


lemma reads_append_le:
  assumes "reads bs r (\<lambda>m. a \<le> m)" "reads r r' (\<lambda>m. b \<le> m)" shows "reads bs r' (\<lambda>m. a + b \<le> m)"
  using reads_append [OF assms] by (rule reads_mono) auto

definition elems_ok :: "nat \<Rightarrow> nat \<Rightarrow> mp_value list \<Rightarrow> bool" where
  "elems_ok D d xs \<longleftrightarrow> list_all plain_ext xs \<and> map canon xs = xs \<and> (\<exists>b. encodeElems D d xs = Inr b)"

definition entries_ok :: "nat \<Rightarrow> nat \<Rightarrow> mp_entries \<Rightarrow> bool" where
  "entries_ok D d es \<longleftrightarrow> list_all (\<lambda>(k, v). plain_ext k \<and> plain_ext v) es \<and> map (\<lambda>(k, w). (canon k, canon w)) es = es
     \<and> (\<exists>b. encodeEntries D d es = Inr b)"

lemma decode_ok:
  shows "decode D d bs = Inr (v, r) \<Longrightarrow> reads bs r (\<lambda>m. nodes v \<le> m) \<and> plain_ext v \<and> canon v = v \<and> encodable D d v"
    and "decodeArray D d n bs = Inr (v, r) \<Longrightarrow> n < 2 ^ 32 \<Longrightarrow>
      reads bs r (\<lambda>m. nodes v \<le> Suc m) \<and> (\<exists>xs. v = VArr xs \<and> length xs = n \<and> elems_ok D d xs)"
    and "decodeMap D d n bs = Inr (v, r) \<Longrightarrow> n < 2 ^ 32 \<Longrightarrow>
      reads bs r (\<lambda>m. nodes v \<le> Suc m) \<and> (\<exists>es. v = VMap False es \<and> length es = n \<and> entries_ok D d es)"
    and "decodeElems D d n bs = Inr (xs, r) \<Longrightarrow>
      reads bs r (\<lambda>m. sum_list (map nodes xs) \<le> m) \<and> length xs = n \<and> elems_ok D d xs"
    and "decodeEntries D d n bs = Inr (es, r) \<Longrightarrow>
      reads bs r (\<lambda>m. sum_list (map (\<lambda>(k, v). nodes k + nodes v) es) \<le> m) \<and> length es = n \<and> entries_ok D d es"
proof (induction D d bs and D d n bs and D d n bs and D d n bs and D d n bs
    arbitrary: v r and v r and v r and xs r and es r
    rule: decode_decodeArray_decodeMap_decodeElems_decodeEntries.induct)
  case (1 D d bs)
  then obtain h s where h: "decode_head bs = Inr (h, s)" and d: "d \<le> D"
    and rest: "(case h of HVal v \<Rightarrow> Inr (v, s) | HArr n \<Rightarrow> decodeArray D (Suc d) n s | HMap n \<Rightarrow> decodeMap D (Suc d) n s) = Inr (v, r)"
    by (auto simp: decode.simps bind_res_Inr split: if_splits)
  have rd: "reads bs s (head_ok h)" by (rule head_reads [OF h])
  then have hk: "\<exists>m. head_ok h m" by (auto simp: reads_def)
  have one: "reads bs s (\<lambda>m. 1 \<le> m)" using rd by (rule reads_mono) (auto simp: head_ok_def)
  show ?case
  proof (cases h)
    case (HVal w)
    then have "w = v" "s = r" using rest by simp_all
    with HVal hk d have "plain_ext v" "canon v = v" "encodable D d v" by (auto simp: head_ok_def val_ok_def)
    moreover have "reads bs r (\<lambda>m. nodes v \<le> m)"
      using rd HVal \<open>w = v\<close> \<open>s = r\<close> by (auto elim!: reads_mono simp: head_ok_def val_ok_def)
    ultimately show ?thesis by blast
  next
    case (HArr n)
    then have n: "n < 2 ^ 32" using hk by (auto simp: head_ok_def)
    from 1(1) [of h n s v r] d HArr rest n obtain xs where xs: "v = VArr xs" "length xs = n" "elems_ok D (Suc d) xs"
      "reads s r (\<lambda>m. nodes v \<le> Suc m)" by auto
    have "reads bs r (\<lambda>m. 1 + (nodes v - 1) \<le> m)" using xs(4) by (intro reads_append_le [OF one]) (auto elim: reads_mono)
    moreover have "encodable D d v" using xs n d
      by (auto simp: encodable_def encode.simps elems_ok_def writeArrayHeader_def)
    ultimately show ?thesis using xs by (auto simp: elems_ok_def canon.simps)
  next
    case (HMap n)
    then have n: "n < 2 ^ 32" using hk by (auto simp: head_ok_def)
    from 1(2) [of h n s v r] d HMap rest n obtain es where es: "v = VMap False es" "length es = n" "entries_ok D (Suc d) es"
      "reads s r (\<lambda>m. nodes v \<le> Suc m)" by auto
    have "reads bs r (\<lambda>m. 1 + (nodes v - 1) \<le> m)" using es(4) by (intro reads_append_le [OF one]) (auto elim: reads_mono)
    moreover have "encodable D d v" using es n d
      by (auto simp: encodable_def encode.simps entries_ok_def writeMapHeader_def)
    ultimately show ?thesis using es by (auto simp: entries_ok_def canon.simps)
  qed
next
  case (2 D d n bs)
  then show ?case by (auto simp: bind_res_Inr split: if_splits)
next
  case (3 D d n bs)
  then show ?case by (auto simp: bind_res_Inr split: if_splits)
next
  case (5 D d n bs)
  then obtain x s ys where b: "decode D d bs = Inr (x, s)" "decodeElems D d n s = Inr (ys, r)" "xs = x # ys"
    by (auto simp: bind_res_Inr)
  have 1: "reads bs s (\<lambda>m. nodes x \<le> m)" "plain_ext x" "canon x = x" "encodable D d x" using 5(1) [OF b(1)] by auto
  have 2: "reads s r (\<lambda>m. sum_list (map nodes ys) \<le> m)" "length ys = n" "elems_ok D d ys"
    using 5(2) [OF b(2)] by auto
  from reads_append_le [OF 1(1) 2(1)] 1 2 b(3) show ?case by (auto simp: elems_ok_def encodable_def)
next
  case (7 D d n bs)
  then obtain k s w t fs where b: "decode D d bs = Inr (k, s)" "decode D d s = Inr (w, t)" "decodeEntries D d n t = Inr (fs, r)"
    "es = (k, w) # fs" by (auto simp: bind_res_Inr)
  have 1: "reads bs s (\<lambda>m. nodes k \<le> m)" "plain_ext k" "canon k = k" "encodable D d k" using 7(1) [OF b(1)] by auto
  have 2: "reads s t (\<lambda>m. nodes w \<le> m)" "plain_ext w" "canon w = w" "encodable D d w" using 7(2) [OF b(2)] by auto
  have 3: "reads t r (\<lambda>m. sum_list (map (\<lambda>(k, v). nodes k + nodes v) fs) \<le> m)" "length fs = n" "entries_ok D d fs"
    using 7(3) [OF b(3)] by auto
  from reads_append_le [OF 1(1) reads_append_le [OF 2(1) 3(1)]] 1 2 3 b(4) show ?case
    by (auto simp: entries_ok_def encodable_def add.assoc)
qed (auto simp: reads_def elems_ok_def entries_ok_def)




text \<open>C16. Whatever \<open>Unmarshal\<close> accepts can be written again: \<open>Marshal\<close> succeeds on the decoded value
  and its bytes decode to the same value.\<close>

theorem unmarshal_remarshal:
  assumes "Unmarshal bs = Inr v"
  shows "\<exists>bs'. Marshal v = Inr bs' \<and> Unmarshal bs' = Inr v"
proof -
  obtain r where d: "decode DefaultMaxDepth 0 bs = Inr (v, r)"
    using assms by (auto simp: Unmarshal_def Decode_def bind_res_Inr split: if_splits)
  from decode_ok(1) [OF d] obtain bs' where m: "encode DefaultMaxDepth 0 v = Inr bs'" and v: "plain_ext v" "canon v = v"
    by (auto simp: encodable_def)
  have r: "decode DefaultMaxDepth 0 bs' = Inr (v, [])" using roundtrip_aux(1) [OF m v(1), of "[]"] v(2) by simp
  then show ?thesis using m decode_ne [OF r] by (auto simp: Marshal_def Unmarshal_def Decode_def)
qed

theorem unmarshal_remarshal_witness: "\<exists>bs'. Marshal (VInt 5) = Inr bs' \<and> Unmarshal bs' = Inr (VInt 5)"
  by (rule unmarshal_remarshal [of "[0xd3, 0, 0, 0, 0, 0, 0, 0, 5]"])
    (simp add: Unmarshal_def Decode_def decode.simps decode_head_def DefaultMaxDepth_def readN_def be_dec_def)

text \<open>A timestamp of 2^32 seconds or more with no nanoseconds is written in the 8-byte form: the
  4-byte form needs the seconds to fit in 32 bits.\<close>

theorem timestamp32_needs_32_bits:
  "encodeTimestamp 0x100000000 0 = Inr [0xd7, 0xff, 0, 0, 0, 1, 0, 0, 0, 0]
   \<and> encodeTimestamp 0xffffffff 0 = Inr [0xd6, 0xff, 0xff, 0xff, 0xff, 0xff]"
proof -
  have 4: "(4::nat) = Suc (Suc (Suc (Suc 0)))" and 8: "(8::nat) = Suc (Suc (Suc (Suc (Suc (Suc (Suc (Suc 0)))))))" by simp_all
  have "be_enc 4 0xffffffff = [0xff, 0xff, 0xff, 0xff]" unfolding be_enc_def 4 by simp
  moreover have "be_enc 8 0x100000000 = [0, 0, 0, 1, 0, 0, 0, 0]" unfolding be_enc_def 8 by simp
  ultimately show ?thesis by (simp add: encodeTimestamp_def Let_def)
qed

end
