(* ===== verification/Go_Strings.thy ===== *)
theory Go_Strings
  imports Main
begin

text \<open>
  The parts of Go's \<^verbatim>\<open>strings\<close> and \<^verbatim>\<open>strconv\<close> that the parsers use, on strings as lists of
  characters, with the round trips the parsers rely on.
\<close>

section \<open>Splitting and joining\<close>

fun Split :: "char \<Rightarrow> string \<Rightarrow> string list" where
  "Split c [] = [[]]"
| "Split c (x # xs) = (if x = c then [] # Split c xs
     else (case Split c xs of [] \<Rightarrow> [[x]] | f # fs \<Rightarrow> (x # f) # fs))"

fun Join :: "char \<Rightarrow> string list \<Rightarrow> string" where
  "Join c [] = []"
| "Join c [f] = f"
| "Join c (f # fs) = f @ c # Join c fs"

lemma Split_ne [simp]: "Split c xs \<noteq> []"
  by (induction xs) (auto split: list.split)

lemma Split_field: "c \<notin> set f \<Longrightarrow> Split c f = [f]"
  by (induction f) auto

lemma Split_append: "c \<notin> set f \<Longrightarrow> Split c (f @ c # xs) = f # Split c xs"
  by (induction f) auto

lemma Split_Join: "fs \<noteq> [] \<Longrightarrow> \<forall>f\<in>set fs. c \<notin> set f \<Longrightarrow> Split c (Join c fs) = fs"
proof (induction fs rule: Join.induct)
  case (3 c f g fs)
  have "Split c (Join c (f # g # fs)) = f # Split c (Join c (g # fs))" using 3(3) by (simp add: Split_append)
  with 3 show ?case by simp
qed (simp_all add: Split_field)

section \<open>Decimal numbers\<close>

definition digit :: "nat \<Rightarrow> char" where
  "digit n = char_of (48 + n)"

definition digit_val :: "char \<Rightarrow> nat option" where
  "digit_val c = (let n = of_char c :: nat in if 48 \<le> n \<and> n \<le> 57 then Some (n - 48) else None)"

function nat_str :: "nat \<Rightarrow> string" where
  "nat_str n = (if n < 10 then [digit n] else nat_str (n div 10) @ [digit (n mod 10)])"
  by pat_completeness auto
termination by (relation "measure id") auto

declare nat_str.simps [simp del]

definition Itoa :: "int \<Rightarrow> string" where
  "Itoa i = (if i < 0 then CHR ''-'' # nat_str (nat (- i)) else nat_str (nat i))"

fun digits_val :: "nat \<Rightarrow> string \<Rightarrow> nat option" where
  "digits_val acc [] = Some acc"
| "digits_val acc (c # cs) = Option.bind (digit_val c) (\<lambda>d. digits_val (10 * acc + d) cs)"

text \<open>\<open>strconv.Atoi\<close>: an optional sign, at least one digit, and a value that fits in an \<open>int64\<close>.\<close>

definition Atoi :: "string \<Rightarrow> int option" where
  "Atoi s =
     (let neg = (s \<noteq> [] \<and> hd s = CHR ''-'');
          ds = (if s \<noteq> [] \<and> (hd s = CHR ''-'' \<or> hd s = CHR ''+'') then tl s else s) in
      if ds = [] then None
      else Option.bind (digits_val 0 ds) (\<lambda>n. let v = (if neg then - int n else int n) in
        if - (2 ^ 63) \<le> v \<and> v < 2 ^ 63 then Some v else None))"

lemma digit_val_digit [simp]: "n < 10 \<Longrightarrow> digit_val (digit n) = Some n"
  by (simp add: digit_val_def digit_def)

lemma digits_val_append: "digits_val acc (xs @ ys) = Option.bind (digits_val acc xs) (\<lambda>a. digits_val a ys)"
  by (induction xs arbitrary: acc) (auto split: bind_splits)

lemma digits_val_nat_str: "digits_val 0 (nat_str n) = Some n"
proof (induction n rule: nat_str.induct)
  case (1 n)
  show ?case
  proof (cases "n < 10")
    case True
    then show ?thesis by (subst nat_str.simps) simp
  next
    case False
    then show ?thesis using 1 by (subst nat_str.simps) (simp add: digits_val_append)
  qed
qed

lemma nat_str_digits: "c \<in> set (nat_str n) \<Longrightarrow> \<exists>d<10. c = digit d"
proof (induction n rule: nat_str.induct)
  case (1 n)
  show ?case
  proof (cases "n < 10")
    case True
    then show ?thesis using 1(2) by (subst (asm) nat_str.simps) auto
  next
    case False
    then have "c \<in> set (nat_str (n div 10)) \<or> c = digit (n mod 10)" using 1(2) by (subst (asm) nat_str.simps) auto
    moreover have "n mod 10 < 10" by simp
    ultimately show ?thesis using 1(1) [OF False] by blast
  qed
qed

lemma nat_str_ne [simp]: "nat_str n \<noteq> []"
  by (subst nat_str.simps) simp

lemma digit_neq: "d < 10 \<Longrightarrow> of_char c < (48 :: nat) \<Longrightarrow> digit d \<noteq> c"
  by (auto simp: digit_def)

lemma nat_str_plain: "of_char c < (48 :: nat) \<Longrightarrow> c \<notin> set (nat_str n)"
  using nat_str_digits [of c n] digit_neq by auto

lemma nat_str_hd: "of_char c < (48 :: nat) \<Longrightarrow> hd (nat_str n) \<noteq> c"
  using nat_str_plain [of c n] hd_in_set [OF nat_str_ne, of n] by auto

lemma Atoi_Itoa: "- (2 ^ 63) \<le> i \<Longrightarrow> i < 2 ^ 63 \<Longrightarrow> Atoi (Itoa i) = Some i"
  using nat_str_hd [of "CHR ''-''" "nat i"] nat_str_hd [of "CHR ''+''" "nat i"]
  by (cases "i < 0") (simp_all add: Atoi_def Itoa_def digits_val_nat_str)

lemma Itoa_no_comma: "CHR '','' \<notin> set (Itoa i)"
  by (simp add: Itoa_def nat_str_plain)

section \<open>Trimming\<close>

text \<open>The UTF-8 encodings of the characters \<open>unicode.IsSpace\<close> accepts. \<open>strings.TrimSpace\<close> decodes runes
  from both ends; on these complete sequences that is removing them as prefixes and suffixes.\<close>

definition space_seqs :: "string list" where
  "space_seqs = map (map char_of) ([[9], [10], [11], [12], [13], [32], [0xC2, 0x85], [0xC2, 0xA0], [0xE1, 0x9A, 0x80]]
     @ map (\<lambda>n. [0xE2, 0x80, n]) ([0x80 ..< 0x8B] @ [0xA8, 0xA9, 0xAF])
     @ [[0xE2, 0x81, 0x9F], [0xE3, 0x80, 0x80 :: nat]])"

definition strip_seq :: "string list \<Rightarrow> string \<Rightarrow> string option" where
  "strip_seq seqs s = (case filter (\<lambda>q. take (length q) s = q \<and> q \<noteq> []) seqs of [] \<Rightarrow> None | q # _ \<Rightarrow> Some (drop (length q) s))"

function trimLeft :: "string list \<Rightarrow> string \<Rightarrow> string" where
  "trimLeft seqs s = (case strip_seq seqs s of None \<Rightarrow> s | Some r \<Rightarrow> trimLeft seqs r)"
  by pat_completeness auto
termination
proof (relation "measure (length \<circ> snd)")
  fix seqs s r
  assume "strip_seq seqs s = Some r"
  then obtain q qs where f: "filter (\<lambda>q. take (length q) s = q \<and> q \<noteq> []) seqs = q # qs" and r: "r = drop (length q) s"
    by (auto simp: strip_seq_def split: list.splits)
  from f have "take (length q) s = q \<and> q \<noteq> []" using filter_eq_Cons_iff [of "\<lambda>q. take (length q) s = q \<and> q \<noteq> []" seqs q qs] by auto
  with r have "0 < length q" "0 < length s" "r = drop (length q) s" by auto
  then show "((seqs, r), (seqs, s)) \<in> measure (length \<circ> snd)" by simp
qed simp

declare trimLeft.simps [simp del]

definition TrimSpace :: "string \<Rightarrow> string" where
  "TrimSpace s = rev (trimLeft (map rev space_seqs) (rev (trimLeft space_seqs s)))"


lemma strip_none: "\<forall>q\<in>set seqs. q = [] \<or> hd q \<noteq> hd s \<Longrightarrow> s \<noteq> [] \<Longrightarrow> strip_seq seqs s = None"
proof -
  assume h: "\<forall>q\<in>set seqs. q = [] \<or> hd q \<noteq> hd s" and s: "s \<noteq> []"
  have "take (length q) s \<noteq> q" if "q \<in> set seqs" "q \<noteq> []" for q
  proof
    assume t: "take (length q) s = q"
    then have "hd q = hd s" using that(2) s by (metis hd_take length_greater_0_conv)
    then show False using h that by blast
  qed
  then have "filter (\<lambda>q. take (length q) s = q \<and> q \<noteq> []) seqs = []" by (auto simp: filter_empty_conv)
  then show ?thesis by (simp add: strip_seq_def)
qed

lemma trimLeft_plain: "\<forall>q\<in>set seqs. q = [] \<or> hd q \<noteq> hd s \<Longrightarrow> s \<noteq> [] \<Longrightarrow> trimLeft seqs s = s"
  by (subst trimLeft.simps) (simp add: strip_none)

lemma TrimSpace_plain:
  assumes "s \<noteq> []" "33 \<le> (of_char (hd s) :: nat)" "of_char (hd s) < (128 :: nat)" "33 \<le> (of_char (last s) :: nat)" "of_char (last s) < (128 :: nat)"
  shows "TrimSpace s = s"
proof -
  have "q = [] \<or> (of_char (hd q) :: nat) < 33 \<or> 128 \<le> (of_char (hd q) :: nat)" if "q \<in> set space_seqs" for q
    using that by (auto simp: space_seqs_def)
  then have l: "trimLeft space_seqs s = s" using assms by (intro trimLeft_plain) fastforce+
  have "q = [] \<or> (of_char (last q) :: nat) < 33 \<or> 128 \<le> (of_char (last q) :: nat)" if "q \<in> set space_seqs" for q
    using that by (auto simp: space_seqs_def)
  then have "trimLeft (map rev space_seqs) (rev s) = rev s" using assms by (intro trimLeft_plain) (fastforce simp: hd_rev)+
  with l show ?thesis by (simp add: TrimSpace_def)
qed

lemma of_char_digit: "d < 10 \<Longrightarrow> of_char (digit d) = 48 + d"
  by (simp add: digit_def)

lemma TrimSpace_Itoa: "TrimSpace (Itoa i) = Itoa i"
proof -
  have d: "33 \<le> (of_char c :: nat) \<and> (of_char c :: nat) < 128" if "c \<in> set (nat_str n)" for c n
    using nat_str_digits [OF that] by (auto simp: of_char_digit)
  note h = d [OF hd_in_set [OF nat_str_ne]] d [OF last_in_set [OF nat_str_ne]]
  show ?thesis by (rule TrimSpace_plain) (use h in \<open>simp_all add: Itoa_def\<close>)
qed

end
