(* ===== verification/Compress.thy ===== *)
theory Compress
  imports Borge_Prelude Go_Strings
begin

text \<open>
  The compression layer, \<^verbatim>\<open>src/internal/compress\<close>: the metadata, the deciding compressors, the two
  meta-compressors and their inverse (\<^verbatim>\<open>compress.go\<close>, \<^verbatim>\<open>codecs.go\<close>, \<^verbatim>\<open>meta.go\<close>), and the
  specifications that select them (\<^verbatim>\<open>spec.go\<close>). The codecs themselves come from libraries and are
  fields of \<open>codecs\<close>; the random amounts of padding are an argument.
\<close>

section \<open>Identifiers and metadata\<close>

definition IDNone :: byte where "IDNone = 0x00"
definition IDLZ4 :: byte where "IDLZ4 = 0x01"
definition IDLZMA :: byte where "IDLZMA = 0x02"
definition IDZstd :: byte where "IDZstd = 0x03"
definition IDObfuscate :: byte where "IDObfuscate = 0x04"
definition IDZlib :: byte where "IDZlib = 0x05"
definition IDZlibLegacy :: byte where "IDZlibLegacy = 0x08"

lemmas comp_ids = IDNone_def IDLZ4_def IDLZMA_def IDZstd_def IDObfuscate_def IDZlib_def IDZlibLegacy_def

definition UnknownLevel :: int where "UnknownLevel = 255"
definition ROBJFileStream :: string where "ROBJFileStream = ''F''"
definition MaxDataSize :: nat where "MaxDataSize = 20971479"

text \<open>The optional fields (\<open>Size\<close> with \<open>SizeSet\<close> and so on) are options.\<close>

record cmeta =
  cm_Type :: string
  cm_Size :: "int option"
  CType :: byte
  CLevel :: byte
  CSize :: int
  PSize :: "int option"
  OLevel :: "int option"

datatype comp_error =
    BadLevel | CodecFailed | NoInner | CSizeMismatch | PSizeTooLarge | SlicePanic | NoDecompressor | SizeMismatch | NegativeSize

text \<open>The libraries. A compressor may fail; LZ4 reports incompressible data by an empty result.\<close>

record codecs =
  lz4CompressBlock :: "bytes \<Rightarrow> bytes option"
  lz4UncompressBlock :: "bytes \<Rightarrow> nat \<Rightarrow> bytes option"
  zstdEncodeAll :: "nat \<Rightarrow> bytes \<Rightarrow> bytes"
  zstdDecodeAll :: "bytes \<Rightarrow> bytes option"
  zlibCompress :: "int \<Rightarrow> bytes \<Rightarrow> bytes option"
  zlibDecompress :: "bytes \<Rightarrow> bytes option"
  xzCompress :: "nat \<Rightarrow> bytes \<Rightarrow> bytes option"
  xzDecompress :: "bytes \<Rightarrow> bytes option"

datatype compressor = CNone | CLZ4 | CZstd int | CZlib int | CLZMA int | CAuto compressor | CObfuscate int compressor

section \<open>Levels\<close>

definition encodeLevel :: "int \<Rightarrow> comp_error + byte" where
  "encodeLevel level = (if level < 0 \<or> level > 255 then Inl BadLevel else Inr (word_of_int level))"

definition zstd_EncodeLevel :: "int \<Rightarrow> comp_error + byte" where
  "zstd_EncodeLevel level = (if level < - 128 \<or> level > 127 then Inl BadLevel else Inr (word_of_int level))"

definition zstd_DecodeLevel :: "byte \<Rightarrow> int" where
  "zstd_DecodeLevel clevel = sint clevel"

fun comp_ID :: "compressor \<Rightarrow> byte" where
  "comp_ID CNone = IDNone"
| "comp_ID CLZ4 = IDLZ4"
| "comp_ID (CZstd _) = IDZstd"
| "comp_ID (CZlib _) = IDZlib"
| "comp_ID (CLZMA _) = IDLZMA"
| "comp_ID (CAuto _) = IDNone"
| "comp_ID (CObfuscate _ _) = IDObfuscate"

fun comp_Level :: "compressor \<Rightarrow> int" where
  "comp_Level (CZstd l) = l"
| "comp_Level (CZlib l) = l"
| "comp_Level (CLZMA l) = l"
| "comp_Level (CObfuscate l _) = l"
| "comp_Level _ = UnknownLevel"

fun levelByte :: "compressor \<Rightarrow> comp_error + byte" where
  "levelByte (CZstd l) = zstd_EncodeLevel l"
| "levelByte c = encodeLevel (comp_Level c)"

definition finish :: "cmeta \<Rightarrow> compressor \<Rightarrow> bytes \<Rightarrow> comp_error + bytes \<times> cmeta" where
  "finish meta c out = bind_res (levelByte c) (\<lambda>clevel.
     Inr (out, meta\<lparr>CType := comp_ID c, CLevel := clevel, CSize := int (length out)\<rparr>))"

text \<open>klauspost's four encoder levels, and the dictionary sizes of the xz presets.\<close>

definition zstdLevel :: "int \<Rightarrow> nat" where
  "zstdLevel level = (if level \<le> 2 then 1 else if level \<le> 5 then 2 else if level \<le> 11 then 3 else 4)"

definition lzmaDictCap :: "int \<Rightarrow> nat" where
  "lzmaDictCap level =
     (if level = 0 then 256 * 1024
      else if level = 1 then 1024 * 1024
      else if level = 2 then 2 * 1024 * 1024
      else if level = 3 then 4 * 1024 * 1024
      else if level = 4 then 4 * 1024 * 1024
      else if level = 5 then 8 * 1024 * 1024
      else if level = 6 then 8 * 1024 * 1024
      else if level = 7 then 16 * 1024 * 1024
      else if level = 8 then 32 * 1024 * 1024
      else 64 * 1024 * 1024)"

section \<open>Compressing\<close>

definition none_Compress :: "cmeta \<Rightarrow> bytes \<Rightarrow> comp_error + bytes \<times> cmeta" where
  "none_Compress meta data = finish (meta\<lparr>cm_Size := Some (int (length data))\<rparr>) CNone data"

text \<open>\<open>attempt\<close>: an error, nothing worth keeping (\<open>nil\<close>), or the compressed bytes.\<close>

definition decideCompress :: "cmeta \<Rightarrow> compressor \<Rightarrow> bytes \<Rightarrow> (comp_error + bytes option) \<Rightarrow> comp_error + bytes \<times> cmeta" where
  "decideCompress meta c data attempt =
     (let meta' = meta\<lparr>cm_Size := Some (int (length data))\<rparr> in
      case attempt of
        Inl e \<Rightarrow> Inl e
      | Inr None \<Rightarrow> none_Compress meta' data
      | Inr (Some out) \<Rightarrow> finish meta' c out)"

definition lz4_attempt :: "codecs \<Rightarrow> bytes \<Rightarrow> comp_error + bytes option" where
  "lz4_attempt cd data =
     (if data = [] then Inr None
      else case lz4CompressBlock cd data of
        None \<Rightarrow> Inl CodecFailed
      | Some out \<Rightarrow> if out = [] \<or> length out \<ge> length data then Inr None else Inr (Some out))"

definition lz4_Compress :: "codecs \<Rightarrow> cmeta \<Rightarrow> bytes \<Rightarrow> comp_error + bytes \<times> cmeta" where
  "lz4_Compress cd meta data = decideCompress meta CLZ4 data (lz4_attempt cd data)"

definition kept :: "bytes \<Rightarrow> bytes option \<Rightarrow> comp_error + bytes option" where
  "kept data res = (case res of None \<Rightarrow> Inl CodecFailed | Some out \<Rightarrow> if length out \<ge> length data then Inr None else Inr (Some out))"

text \<open>Padding. The Padme scheme works on the position of the highest set bit, which is what flooring
  \<open>math.Log2\<close> gives for every size below the object limit.\<close>

fun ilog2 :: "nat \<Rightarrow> nat" where
  "ilog2 n = (if n < 2 then 0 else Suc (ilog2 (n div 2)))"

declare ilog2.simps [simp del]

definition padmePadding :: "nat \<Rightarrow> nat" where
  "padmePadding compressedSize =
     (if compressedSize < 2 then 0
      else let e = ilog2 compressedSize; s = ilog2 e + 1 in
        if e < s then 0
        else let lastBits = e - s; padded = (compressedSize + (2 ^ lastBits - 1)) div 2 ^ lastBits * 2 ^ lastBits in
          padded - compressedSize)"

definition obf_padding :: "(int \<Rightarrow> nat \<Rightarrow> int) \<Rightarrow> int \<Rightarrow> nat \<Rightarrow> int" where
  "obf_padding rnd level compressedSize =
     (if (1 \<le> level \<and> level \<le> 6) \<or> (110 \<le> level \<and> level \<le> 123) then rnd level compressedSize
      else if level = 250 then int (padmePadding compressedSize)
      else 0)"

definition zstd_Compress :: "codecs \<Rightarrow> int \<Rightarrow> cmeta \<Rightarrow> bytes \<Rightarrow> comp_error + bytes \<times> cmeta" where [simp]:
  "zstd_Compress cd l meta data = decideCompress meta (CZstd l) data (kept data (Some (zstdEncodeAll cd (zstdLevel l) data)))"

definition zlib_Compress :: "codecs \<Rightarrow> int \<Rightarrow> cmeta \<Rightarrow> bytes \<Rightarrow> comp_error + bytes \<times> cmeta" where [simp]:
  "zlib_Compress cd l meta data = decideCompress meta (CZlib l) data (kept data (zlibCompress cd l data))"

definition lzma_Compress :: "codecs \<Rightarrow> int \<Rightarrow> cmeta \<Rightarrow> bytes \<Rightarrow> comp_error + bytes \<times> cmeta" where [simp]:
  "lzma_Compress cd l meta data = decideCompress meta (CLZMA l) data (kept data (xzCompress cd (lzmaDictCap l) data))"

text \<open>The ratios of \<open>Auto\<close> are compared in \<open>float64\<close>: \<open>a / b \<ge> 0.97\<close> is \<open>100 a \<ge> 97 b\<close>, because for
  lengths below 2^40 the quotient is either exactly 0.97, which rounds as the constant does, or
  further from it than the rounding error.\<close>

fun comp_Compress :: "codecs \<Rightarrow> (int \<Rightarrow> nat \<Rightarrow> int) \<Rightarrow> compressor \<Rightarrow> cmeta \<Rightarrow> bytes \<Rightarrow> comp_error + bytes \<times> cmeta" where
  "comp_Compress cd rnd CNone meta data = none_Compress meta data"
| "comp_Compress cd rnd CLZ4 meta data = lz4_Compress cd meta data"
| "comp_Compress cd rnd (CZstd l) meta data = zstd_Compress cd l meta data"
| "comp_Compress cd rnd (CZlib l) meta data = zlib_Compress cd l meta data"
| "comp_Compress cd rnd (CLZMA l) meta data = lzma_Compress cd l meta data"
| "comp_Compress cd rnd (CAuto inner) meta data =
     bind_res (lz4_Compress cd meta data) (\<lambda>(cheap, cheapMeta).
       if 100 * length cheap \<ge> 97 * (length data + 2) then Inr (cheap, cheapMeta)
       else bind_res (comp_Compress cd rnd inner meta data) (\<lambda>(expensive, expensiveMeta).
         if length cheap > 0 \<and> 100 * length expensive < 99 * length cheap then Inr (expensive, expensiveMeta)
         else Inr (cheap, cheapMeta)))"
| "comp_Compress cd rnd (CObfuscate l inner) meta data =
     bind_res (comp_Compress cd rnd inner meta data) (\<lambda>(out, meta1).
       let meta2 = meta1\<lparr>PSize := Some (CSize meta1)\<rparr>;
           pad0 = (if cm_Type meta2 = ROBJFileStream then obf_padding rnd l (length out) else 0);
           pad1 = (if pad0 < 0 then 0 else pad0);
           limit = int MaxDataSize - 1024 - int (length out);
           pad = (if pad1 > limit then limit else pad1);
           out' = (if pad > 0 then out @ replicate (nat pad) 0 else out) in
       Inr (out', meta2\<lparr>CSize := int (length out'), OLevel := Some l\<rparr>))"

section \<open>Decompressing\<close>

text \<open>LZ4 blocks carry no length: without one in the metadata, larger and larger buffers are tried.\<close>

partial_function (option) lz4_grow :: "codecs \<Rightarrow> bytes \<Rightarrow> nat \<Rightarrow> (comp_error + bytes) option" where
  "lz4_grow cd data osize =
     (case lz4UncompressBlock cd data osize of
        Some out \<Rightarrow> Some (Inr out)
      | None \<Rightarrow> if osize > 2 ^ 27 then Some (Inl CodecFailed) else lz4_grow cd data (osize * 3 div 2))"

definition lz4_Decompress :: "codecs \<Rightarrow> cmeta \<Rightarrow> bytes \<Rightarrow> (comp_error + bytes) option" where
  "lz4_Decompress cd meta data =
     (case cm_Size meta of
        Some sz \<Rightarrow> Some
          (if sz < 0 then Inl NegativeSize
           else case lz4UncompressBlock cd data (nat sz) of
             None \<Rightarrow> Inl CodecFailed
           | Some out \<Rightarrow> if int (length out) \<noteq> sz then Inl SizeMismatch else Inr out)
      | None \<Rightarrow> lz4_grow cd data (max 9226752 (length data * 3)))"

definition codec_result :: "bytes option \<Rightarrow> (comp_error + bytes) option" where
  "codec_result r = Some (case r of None \<Rightarrow> Inl CodecFailed | Some out \<Rightarrow> Inr out)"

definition Detect :: "codecs \<Rightarrow> byte \<Rightarrow> (cmeta \<Rightarrow> bytes \<Rightarrow> (comp_error + bytes) option) option" where
  "Detect cd ctype =
     (if ctype = IDLZ4 then Some (lz4_Decompress cd)
      else if ctype = IDZstd then Some (\<lambda>_ data. codec_result (zstdDecodeAll cd data))
      else if ctype = IDNone then Some (\<lambda>_ data. Some (Inr data))
      else if ctype = IDZlib then Some (\<lambda>_ data. codec_result (zlibDecompress cd data))
      else if ctype = IDLZMA then Some (\<lambda>_ data. codec_result (xzDecompress cd data))
      else None)"

definition Decompress :: "codecs \<Rightarrow> cmeta \<Rightarrow> bytes \<Rightarrow> (comp_error + bytes) option" where
  "Decompress cd meta data =
     (if CSize meta \<noteq> 0 \<and> int (length data) \<noteq> CSize meta then Some (Inl CSizeMismatch)
      else if (case PSize meta of None \<Rightarrow> False | Some ps \<Rightarrow> ps > int (length data)) then Some (Inl PSizeTooLarge)
      else if (case PSize meta of None \<Rightarrow> False | Some ps \<Rightarrow> ps < 0) then Some (Inl SlicePanic)
      else let payload = (case PSize meta of None \<Rightarrow> data | Some ps \<Rightarrow> take (nat ps) data) in
        case Detect cd (CType meta) of
          None \<Rightarrow> Some (Inl NoDecompressor)
        | Some dec \<Rightarrow> map_option (\<lambda>res. case res of
            Inl e \<Rightarrow> Inl e
          | Inr out \<Rightarrow> (case cm_Size meta of
              Some sz \<Rightarrow> if sz \<noteq> int (length out) then Inl SizeMismatch else Inr out
            | None \<Rightarrow> Inr out)) (dec meta payload))"


section \<open>What the codecs promise\<close>

definition codecs_ok :: "codecs \<Rightarrow> bool" where
  "codecs_ok cd \<longleftrightarrow>
     (\<forall>data out sz. lz4CompressBlock cd data = Some out \<longrightarrow> out \<noteq> [] \<longrightarrow> length data \<le> sz \<longrightarrow> lz4UncompressBlock cd out sz = Some data)
     \<and> (\<forall>l data. zstdDecodeAll cd (zstdEncodeAll cd l data) = Some data)
     \<and> (\<forall>l data out. zlibCompress cd l data = Some out \<longrightarrow> zlibDecompress cd out = Some data)
     \<and> (\<forall>l data out. xzCompress cd l data = Some out \<longrightarrow> xzDecompress cd out = Some data)"

fun obf_free :: "compressor \<Rightarrow> bool" where
  "obf_free (CAuto c) = obf_free c"
| "obf_free (CObfuscate _ _) = False"
| "obf_free _ = True"

text \<open>The levels \<open>NewObfuscateSize\<close> accepts.\<close>

definition obf_level_ok :: "int \<Rightarrow> bool" where
  "obf_level_ok n \<longleftrightarrow> (1 \<le> n \<and> n \<le> 6) \<or> (110 \<le> n \<and> n \<le> 123) \<or> n = 250"

fun wf_comp :: "compressor \<Rightarrow> bool" where
  "wf_comp (CAuto c) = wf_comp c"
| "wf_comp (CObfuscate l c) = (obf_level_ok l \<and> obf_free c)"
| "wf_comp _ = True"

text \<open>\<open>out\<close> with its metadata stands for \<open>data\<close> and is not padded.\<close>

definition plain_for :: "codecs \<Rightarrow> cmeta \<Rightarrow> bytes \<Rightarrow> bytes \<times> cmeta \<Rightarrow> bool" where
  "plain_for cd meta data r \<longleftrightarrow> PSize (snd r) = PSize meta \<and> OLevel (snd r) = OLevel meta \<and> cm_Type (snd r) = cm_Type meta
     \<and> CSize (snd r) = int (length (fst r)) \<and> cm_Size (snd r) = Some (int (length data)) \<and> length (fst r) \<le> length data
     \<and> (CType (snd r) = IDNone \<longrightarrow> fst r = data) \<and> (CType (snd r) \<noteq> IDNone \<longrightarrow> length (fst r) < length data)
     \<and> (\<exists>dec. Detect cd (CType (snd r)) = Some dec \<and> (\<forall>m. cm_Size m = Some (int (length data)) \<longrightarrow> dec m (fst r) = Some (Inr data)))"

lemma finish_Inr: "finish meta c out = Inr r \<longleftrightarrow> (\<exists>b. levelByte c = Inr b \<and> r = (out, meta\<lparr>CType := comp_ID c, CLevel := b, CSize := int (length out)\<rparr>))"
  by (auto simp: finish_def bind_res_Inr)

lemma none_plain: "none_Compress meta data = Inr r \<Longrightarrow> plain_for cd meta data r"
  by (auto simp: none_Compress_def finish_Inr plain_for_def Detect_def comp_ids)

lemma decide_plain:
  assumes "decideCompress meta c data att = Inr r" "\<And>out. att = Inr (Some out) \<Longrightarrow> length out < length data"
    "\<And>out. att = Inr (Some out) \<Longrightarrow> comp_ID c \<noteq> IDNone \<and>
      (\<exists>dec. Detect cd (comp_ID c) = Some dec \<and> (\<forall>m. cm_Size m = Some (int (length data)) \<longrightarrow> dec m out = Some (Inr data)))"
  shows "plain_for cd meta data r"
proof -
  consider "att = Inr None" | out where "att = Inr (Some out)" using assms(1) by (auto simp: decideCompress_def Let_def split: sum.splits option.splits)
  then show ?thesis
  proof cases
    case 1
    then show ?thesis using none_plain [of "meta\<lparr>cm_Size := Some (int (length data))\<rparr>" data r cd] assms(1)
      by (simp add: decideCompress_def Let_def plain_for_def)
  next
    case 2
    then show ?thesis using assms(1) assms(2,3) [OF 2] by (auto simp: decideCompress_def Let_def finish_Inr plain_for_def)
  qed
qed

lemma lz4_attempt_Some: "lz4_attempt cd data = Inr (Some out) \<Longrightarrow> lz4CompressBlock cd data = Some out \<and> out \<noteq> [] \<and> length out < length data"
  by (auto simp: lz4_attempt_def split: if_splits option.splits)

lemma lz4_plain:
  assumes "codecs_ok cd" "lz4_Compress cd meta data = Inr r"
  shows "plain_for cd meta data r"
  using assms(2) unfolding lz4_Compress_def
proof (rule decide_plain)
  fix out
  assume "lz4_attempt cd data = Inr (Some out)"
  note a = lz4_attempt_Some [OF this]
  then show "length out < length data" by simp
  have "lz4UncompressBlock cd out (length data) = Some data" using a assms(1) by (simp add: codecs_ok_def)
  then have "\<forall>m. cm_Size m = Some (int (length data)) \<longrightarrow> lz4_Decompress cd m out = Some (Inr data)" by (simp add: lz4_Decompress_def)
  then show "comp_ID CLZ4 \<noteq> IDNone \<and> (\<exists>dec. Detect cd (comp_ID CLZ4) = Some dec \<and> (\<forall>m. cm_Size m = Some (int (length data)) \<longrightarrow> dec m out = Some (Inr data)))"
    by (simp add: comp_ids Detect_def)
qed

lemma kept_Some: "kept data r = Inr (Some out) \<longleftrightarrow> r = Some out \<and> length out < length data"
  by (auto simp: kept_def split: option.splits)

lemma obf_free_plain: "codecs_ok cd \<Longrightarrow> obf_free c \<Longrightarrow> comp_Compress cd rnd c meta data = Inr r \<Longrightarrow> plain_for cd meta data r"
proof (induction c arbitrary: r)
  case (CAuto c)
  then show ?case using lz4_plain [OF CAuto.prems(1)] by (auto simp: bind_res_Inr split: if_splits)
next
  case (CZstd l)
  then show ?case by (intro decide_plain [of meta "CZstd l"]) (auto simp: kept_Some codecs_ok_def codec_result_def Detect_def comp_ids)
next
  case (CZlib l)
  then show ?case by (intro decide_plain [of meta "CZlib l"]) (auto simp: kept_Some codecs_ok_def codec_result_def Detect_def comp_ids)
next
  case (CLZMA l)
  then show ?case by (intro decide_plain [of meta "CLZMA l"]) (auto simp: kept_Some codecs_ok_def codec_result_def Detect_def comp_ids)
qed (auto simp: none_plain lz4_plain)

lemma plain_Decompress: "plain_for cd meta data (out, m) \<Longrightarrow> PSize meta = None \<Longrightarrow> Decompress cd m out = Some (Inr data)"
  by (auto simp: plain_for_def Decompress_def)

text \<open>The padding is what lies behind \<open>psize\<close>.\<close>

lemma obfuscate_form:
  assumes "codecs_ok cd" "obf_free c" "comp_Compress cd rnd (CObfuscate l c) meta data = Inr (out, m)"
  shows "\<exists>inner m1 n. comp_Compress cd rnd c meta data = Inr (inner, m1) \<and> plain_for cd meta data (inner, m1) \<and> out = inner @ replicate n 0
    \<and> m = m1\<lparr>PSize := Some (int (length inner)), CSize := int (length out), OLevel := Some l\<rparr>
    \<and> int (length out) \<le> max (int (length inner)) (int MaxDataSize - 1024) \<and> (cm_Type meta \<noteq> ROBJFileStream \<longrightarrow> n = 0)"
proof -
  obtain inner m1 where i: "comp_Compress cd rnd c meta data = Inr (inner, m1)" using assms(3) by (auto simp: bind_res_Inr)
  note p = obf_free_plain [OF assms(1,2) i]
  define pad0 where "pad0 = (if cm_Type m1 = ROBJFileStream then obf_padding rnd l (length inner) else 0)"
  define pad1 where "pad1 = (if pad0 < 0 then 0 else pad0)"
  define limit where "limit = int MaxDataSize - 1024 - int (length inner)"
  define pad where "pad = (if pad1 > limit then limit else pad1)"
  have o: "out = (if pad > 0 then inner @ replicate (nat pad) 0 else inner)"
    "m = m1\<lparr>PSize := Some (CSize m1), CSize := int (length out), OLevel := Some l\<rparr>"
    using assms(3) i by (auto simp: Let_def pad_def pad1_def pad0_def limit_def)
  have "out = inner @ replicate (if pad > 0 then nat pad else 0) 0" using o(1) by simp
  moreover have "int (length out) \<le> max (int (length inner)) (int MaxDataSize - 1024)"
    using o(1) by (auto simp: pad_def limit_def split: if_splits)
  moreover have "pad \<le> 0" if "cm_Type meta \<noteq> ROBJFileStream" using that p by (auto simp: pad_def pad1_def pad0_def plain_for_def)
  moreover have "CSize m1 = int (length inner)" using p by (simp add: plain_for_def)
  ultimately show ?thesis using i p o(2) by (intro exI [of _ inner] exI [of _ m1] exI [of _ "if pad > 0 then nat pad else 0"]) auto
qed

lemma compress_Decompress:
  assumes "codecs_ok cd" "PSize meta = None"
  shows "wf_comp c \<Longrightarrow> comp_Compress cd rnd c meta data = Inr (out, m) \<Longrightarrow> Decompress cd m out = Some (Inr data)"
proof (induction c arbitrary: out m)
  case (CAuto c)
  then show ?case using plain_Decompress [OF lz4_plain [OF assms(1)] assms(2)] by (auto simp: bind_res_Inr split: if_splits)
next
  case (CObfuscate l c)
  then have "obf_free c" by simp
  from obfuscate_form [OF assms(1) this CObfuscate.prems(2)] obtain inner m1 n
    where f: "plain_for cd meta data (inner, m1)" "out = inner @ replicate n 0"
      "m = m1\<lparr>PSize := Some (int (length inner)), CSize := int (length out), OLevel := Some l\<rparr>" by blast
  then show ?case by (auto simp: plain_for_def Decompress_def)
qed (erule plain_Decompress [OF obf_free_plain [OF assms(1)] assms(2), rotated], simp)+

definition meta_in_bounds :: "byte list \<Rightarrow> byte list \<Rightarrow> cmeta \<Rightarrow> bool" where
  "meta_in_bounds data out m \<longleftrightarrow> length out \<le> MaxDataSize \<and> cm_Size m = Some (int (length data))
    \<and> CSize m = int (length out) \<and> pred_option (\<lambda>n. 0 \<le> n \<and> n \<le> int MaxDataSize) (PSize m) \<and> pred_option obf_level_ok (OLevel m)"

lemma plain_in_bounds: "plain_for cd meta data (out, m) \<Longrightarrow> PSize meta = None \<Longrightarrow> OLevel meta = None \<Longrightarrow> length data \<le> MaxDataSize \<Longrightarrow> meta_in_bounds data out m"
  by (simp add: plain_for_def meta_in_bounds_def)

lemma compress_bounds:
  assumes "codecs_ok cd" "PSize meta = None" "OLevel meta = None" "length data \<le> MaxDataSize"
  shows "wf_comp c \<Longrightarrow> comp_Compress cd rnd c meta data = Inr (out, m) \<Longrightarrow> meta_in_bounds data out m"
proof (induction c arbitrary: out m)
  case (CAuto c)
  then show ?case using plain_in_bounds [OF lz4_plain [OF assms(1)] assms(2-4)] by (auto simp: bind_res_Inr split: if_splits)
next
  case (CObfuscate l c)
  then have "obf_free c" "obf_level_ok l" by simp_all
  from obfuscate_form [OF assms(1) this(1) CObfuscate.prems(2)] obtain inner m1 n
    where f: "plain_for cd meta data (inner, m1)" "out = inner @ replicate n 0" "int (length out) \<le> max (int (length inner)) (int MaxDataSize - 1024)"
      "m = m1\<lparr>PSize := Some (int (length inner)), CSize := int (length out), OLevel := Some l\<rparr>" by blast
  have "length inner \<le> MaxDataSize" using f(1) assms(4) by (simp add: plain_for_def)
  moreover have "length out \<le> MaxDataSize" using f(3) calculation by (simp add: max_def split: if_splits)
  ultimately show ?case using f(1,4) \<open>obf_level_ok l\<close> by (simp add: plain_for_def meta_in_bounds_def)
qed (erule plain_in_bounds [OF obf_free_plain [OF assms(1)] assms(2-4), rotated], simp)+

text \<open>C23. Compression loses nothing: whichever compressor ran, with \<open>auto\<close> and one layer of \<open>obfuscate\<close>
  included, decompressing its output by the metadata it wrote gives the data back; and without
  obfuscation the output is never larger than the data and is the data itself when it did not get
  smaller, recorded as uncompressed.\<close>

theorem compress_roundtrip:
  assumes "codecs_ok cd" "wf_comp c" "PSize meta = None" "comp_Compress cd rnd c meta data = Inr (out, m)"
  shows "Decompress cd m out = Some (Inr data)
    \<and> (obf_free c \<longrightarrow> (if CType m = IDNone then out = data else length out < length data))"
  using compress_Decompress [OF assms(1,3,2,4)] obf_free_plain [OF assms(1) _ assms(4)] by (auto simp: plain_for_def)


text \<open>Codecs to instantiate the statements with: LZ4 halves a run of equal bytes, the others fail
  or store.\<close>

definition toy_codecs :: codecs where
  "toy_codecs = \<lparr>lz4CompressBlock = (\<lambda>d. Some (if d \<noteq> [] \<and> d = replicate (length d) (hd d) \<and> length d < 256 then [hd d, word_of_nat (length d)] else [])),
     lz4UncompressBlock = (\<lambda>b n. if length b = 2 \<and> unat (b ! 1) \<le> n then Some (replicate (unat (b ! 1)) (b ! 0)) else None),
     zstdEncodeAll = (\<lambda>_ d. 0 # d), zstdDecodeAll = (\<lambda>d. if d = [] then None else Some (tl d)),
     zlibCompress = (\<lambda>_ _. None), zlibDecompress = (\<lambda>_. None), xzCompress = (\<lambda>_ _. None), xzDecompress = (\<lambda>_. None)\<rparr>"

lemma toy_codecs_ok: "codecs_ok toy_codecs"
  by (auto simp: codecs_ok_def toy_codecs_def unat_of_nat)

definition new_meta :: "string \<Rightarrow> cmeta" where
  "new_meta t = \<lparr>cm_Type = t, cm_Size = None, CType = 0, CLevel = 0, CSize = 0, PSize = None, OLevel = None\<rparr>"

theorem compress_roundtrip_witness:
  "\<exists>out m. comp_Compress toy_codecs (\<lambda>_ _. 5) (CObfuscate 110 CLZ4) (new_meta ''F'') [7, 7, 7, 7] = Inr (out, m)
    \<and> out = [7, 4, 0, 0, 0, 0, 0] \<and> Decompress toy_codecs m out = Some (Inr [7, 7, 7, 7])"
proof -
  have "lz4_attempt toy_codecs [7, 7, 7, 7] = Inr (Some [7, 4])"
    by (simp add: lz4_attempt_def toy_codecs_def eval_nat_numeral)
  then have "\<exists>m. lz4_Compress toy_codecs (new_meta ''F'') [7, 7, 7, 7] = Inr ([7, 4], m) \<and> cm_Type m = ''F''"
    by (simp add: lz4_Compress_def decideCompress_def finish_def encodeLevel_def UnknownLevel_def new_meta_def Let_def)
  moreover have "replicate 5 (0 :: byte) = [0, 0, 0, 0, 0]" by (simp add: numeral_eq_Suc)
  ultimately obtain m where m: "comp_Compress toy_codecs (\<lambda>_ _. 5) (CObfuscate 110 CLZ4) (new_meta ''F'') [7, 7, 7, 7] = Inr ([7, 4, 0, 0, 0, 0, 0], m)"
    by (auto simp: ROBJFileStream_def obf_padding_def MaxDataSize_def Let_def)
  have "wf_comp (CObfuscate 110 CLZ4)" "PSize (new_meta ''F'') = None" by (simp_all add: new_meta_def obf_level_ok_def)
  from compress_roundtrip [OF toy_codecs_ok this m] m show ?thesis by blast
qed

text \<open>Obfuscation inside obfuscation is not undone. The outer layer overwrites \<open>psize\<close> with the padded
  size of the inner one, so the inner padding is handed to the decompressor: one byte, stored
  uncompressed under two layers that pad by one byte each, cannot be read back. A stored negative
  \<open>psize\<close> makes reading panic.\<close>

theorem nested_obfuscation_breaks:
  "(\<exists>out m. comp_Compress cd (\<lambda>_ _. 1) (CObfuscate 110 (CObfuscate 110 CNone)) (new_meta ''F'') [1] = Inr (out, m)
     \<and> Decompress cd m out = Some (Inl SizeMismatch))
   \<and> Decompress cd ((new_meta ''F'')\<lparr>PSize := Some (- 1)\<rparr>) [] = Some (Inl SlicePanic)"
  by (simp add: none_Compress_def finish_def encodeLevel_def UnknownLevel_def new_meta_def ROBJFileStream_def obf_padding_def
      MaxDataSize_def Let_def Decompress_def Detect_def comp_ids)

section \<open>Padme\<close>

lemma ilog2_bounds: "0 < n \<Longrightarrow> 2 ^ ilog2 n \<le> n \<and> n < 2 ^ Suc (ilog2 n)"
proof (induction n rule: ilog2.induct)
  case (1 n)
  show ?case
  proof (cases "n < 2")
    case True
    then show ?thesis using 1(2) by (subst (1 2) ilog2.simps) simp
  next
    case False
    then have "2 ^ ilog2 (n div 2) \<le> n div 2" "n div 2 < 2 ^ Suc (ilog2 (n div 2))" using 1(1) by simp_all
    then show ?thesis using False by (subst (1 2) ilog2.simps) (simp, linarith)
  qed
qed

lemma round_up:
  fixes n k :: nat
  defines "p \<equiv> (n + (2 ^ k - 1)) div 2 ^ k * 2 ^ k"
  shows "n \<le> p" "p - n \<le> 2 ^ k - 1" "2 ^ k dvd p" "2 ^ k dvd n \<Longrightarrow> p = n"
proof -
  have p: "p + (n + (2 ^ k - 1)) mod 2 ^ k = n + (2 ^ k - 1)" unfolding p_def by (rule div_mult_mod_eq)
  have m: "(n + (2 ^ k - 1)) mod 2 ^ k < 2 ^ k" by simp
  show "n \<le> p" using p m by linarith
  show "p - n \<le> 2 ^ k - 1" using p by linarith
  show "2 ^ k dvd p" by (simp add: p_def)
  show "p = n" if "2 ^ k dvd n"
  proof -
    from \<open>2 ^ k dvd n\<close> obtain q where q: "n = 2 ^ k * q" by (rule dvdE)
    have "(2 ^ k * q + (2 ^ k - 1)) div 2 ^ k = q"
    proof (rule div_nat_eqI)
      show "2 ^ k * q \<le> 2 ^ k * q + (2 ^ k - 1)" by (rule le_add1)
      have "0 < (2 :: nat) ^ k" by simp
      then show "2 ^ k * q + (2 ^ k - 1) < 2 ^ k * Suc q" unfolding mult_Suc_right by linarith
    qed
    then show ?thesis by (simp add: p_def q mult.commute)
  qed
qed

lemma padme_bits:
  assumes "0 < e"
  defines "s \<equiv> ilog2 e + 1"
  shows "s \<le> e" "100 * (2 ^ (e - s) - 1 :: nat) \<le> 12 * (2 ^ e + 1)"
proof -
  have b: "2 ^ (s - 1) \<le> e" "e < 2 ^ s" using ilog2_bounds [OF assms(1)] by (simp_all add: s_def)
  have "s - 1 < 2 ^ (s - 1)" by (rule less_exp)
  then show le: "s \<le> e" using b(1) by linarith
  define k where "k = e - s"
  have e: "(2 :: nat) ^ e = 2 ^ s * 2 ^ k" using le by (simp add: k_def power_add [symmetric])
  have k1: "k + s < 2 ^ s" using b(2) le by (simp add: k_def)
  consider "s = 1" | "s = 2" | "s = 3" | "4 \<le> s" using s_def by linarith
  then show "100 * (2 ^ (e - s) - 1 :: nat) \<le> 12 * (2 ^ e + 1)"
  proof cases
    case 1
    then show ?thesis using k1 by (simp add: k_def)
  next
    case 2
    then have "k = 0 \<or> k = 1" using k1 by auto
    then show ?thesis using 2 e unfolding k_def [symmetric] by auto
  next
    case 3
    then have "k < 5" using k1 by simp
    then have "k \<in> {0, 1, 2, 3, 4}" by auto
    then show ?thesis using 3 e unfolding k_def [symmetric] by auto
  next
    case 4
    then have "(2 :: nat) ^ 4 \<le> 2 ^ s" by (intro power_increasing) auto
    then have "16 * 2 ^ k \<le> (2 :: nat) ^ e" unfolding e by (intro mult_right_mono) auto
    then show ?thesis unfolding k_def [symmetric] by simp
  qed
qed

text \<open>Padme padding only lengthens, and by at most 12 percent, and the padded size is a multiple of the
  block its magnitude prescribes, so that all but the leading bits of the true size are hidden.\<close>

theorem padme_overhead:
  "100 * padmePadding n \<le> 12 * n \<and> 2 ^ (ilog2 n - (ilog2 (ilog2 n) + 1)) dvd (n + padmePadding n)"
proof (cases "n < 2")
  case True
  then show ?thesis by (auto simp: padmePadding_def ilog2.simps [of n])
next
  case False
  let ?e = "ilog2 n" let ?k = "?e - (ilog2 ?e + 1)" let ?p = "(n + (2 ^ ?k - 1)) div 2 ^ ?k * 2 ^ ?k"
  have b: "2 ^ ?e \<le> n" "n < 2 ^ Suc ?e" using ilog2_bounds [of n] False by simp_all
  have "?e \<noteq> 0" using b(2) False by (cases ?e) auto
  note pb = padme_bits [of ?e]
  have pad: "padmePadding n = ?p - n" using False pb(1) \<open>?e \<noteq> 0\<close> by (simp add: padmePadding_def Let_def)
  note r = round_up [where n = n and k = ?k]
  have "100 * (?p - n) \<le> 12 * n"
  proof (cases "n = 2 ^ ?e")
    case True
    have "(2 :: nat) ^ ?k dvd 2 ^ ?e" by (rule le_imp_power_dvd) simp
    then have "?p = n" using r(4) True by simp
    then show ?thesis by simp
  next
    case ne: False
    then have "2 ^ ?e + 1 \<le> n" using b(1) by simp
    then have "12 * (2 ^ ?e + 1) \<le> 12 * n" by (rule mult_le_mono2)
    moreover have "100 * (?p - n) \<le> 100 * (2 ^ ?k - 1)" using r(2) by (rule mult_le_mono2)
    moreover have "100 * (2 ^ ?k - 1) \<le> 12 * (2 ^ ?e + 1 :: nat)" using pb(2) \<open>?e \<noteq> 0\<close> by simp
    ultimately show ?thesis by linarith
  qed
  moreover have "n + (?p - n) = ?p" using r(1) by simp
  ultimately show ?thesis using r(3) pad by simp
qed

end
