(* ===== verification/Mac_Key.thy ===== *)
theory Mac_Key
  imports Borge_Prelude
begin

text \<open>
  Repository keys, \<^verbatim>\<open>src/internal/crypto/key/key.go\<close>: the interface every key implements, the
  check of a chunk id against its content, and the keys that tag without encrypting. SHA-256,
  HMAC and BLAKE3 come from libraries and are parameters (\<open>hashes\<close>). A key is passed as a state,
  because the encrypting keys of \<open>Aead_Key\<close> count messages.
\<close>

datatype key_error =
    AadTooLong | TruncatedEnvelope | InvalidEnvelope | TagMismatch | IdMismatch | DeriveTooLong
  | SessionIdSize | NoRandomness | CounterOverflow | CouldNotDecrypt | CipherSetup | MessageTooLarge
  | CryptKeySize | IdKeySize | Blake3KeyPanic

record hashes =
  sha256 :: "bytes \<Rightarrow> bytes"
  hmac_sha256 :: "bytes \<Rightarrow> bytes \<Rightarrow> bytes"
  blake3 :: "bytes \<Rightarrow> bytes"
  blake3_keyed :: "bytes \<Rightarrow> bytes \<Rightarrow> bytes"

section \<open>The interface\<close>

text \<open>What a repository object relies on. \<open>same k k'\<close> says that two key objects hold the same key,
  for instance the one that wrote an object and the one a later run reads it with.\<close>

locale repo_key =
  fixes enc :: "'k \<Rightarrow> bytes \<Rightarrow> bytes \<Rightarrow> bytes \<Rightarrow> (key_error + bytes) \<times> 'k"
    and dec :: "'k \<Rightarrow> bytes \<Rightarrow> bytes \<Rightarrow> bytes \<Rightarrow> (key_error + bytes) \<times> 'k"
    and idhash :: "'k \<Rightarrow> bytes \<Rightarrow> bytes option"
    and inv :: "'k \<Rightarrow> bool"
    and same :: "'k \<Rightarrow> 'k \<Rightarrow> bool"
  assumes enc_keeps: "inv k \<Longrightarrow> enc k cid d aad = (r, k') \<Longrightarrow> inv k' \<and> same k k'"
    and dec_keeps: "inv k \<Longrightarrow> dec k cid e aad = (r, k') \<Longrightarrow> inv k' \<and> same k k'"
    and same_refl: "same k k"
    and same_trans: "same k k' \<Longrightarrow> same k' k'' \<Longrightarrow> same k k''"
    and same_sym: "same k k' \<Longrightarrow> same k' k"
    and same_idhash: "same k k' \<Longrightarrow> idhash k = idhash k'"
    and dec_enc: "inv k \<Longrightarrow> inv k2 \<Longrightarrow> same k k2 \<Longrightarrow> length d \<le> 2 ^ 30 \<Longrightarrow> length aad \<le> 1000 \<Longrightarrow> length cid = 32 \<Longrightarrow>
      enc k cid d aad = (Inr e, k') \<Longrightarrow> fst (dec k2 cid e aad) = Inr d"
    and enc_length: "inv k \<Longrightarrow> length d \<le> 2 ^ 30 \<Longrightarrow> length aad \<le> 1000 \<Longrightarrow> length cid = 32 \<Longrightarrow>
      enc k cid d aad = (Inr e, k') \<Longrightarrow> length e \<le> length d + 1000"

section \<open>Chunk ids and derived keys\<close>

definition ManifestID :: bytes where "ManifestID = replicate 32 0"

definition AssertID :: "(bytes \<Rightarrow> bytes option) \<Rightarrow> bytes \<Rightarrow> bytes \<Rightarrow> key_error + unit" where
  "AssertID idhash cid data =
     (if cid = [] \<or> cid = ManifestID then Inr ()
      else case idhash data of
        None \<Rightarrow> Inl Blake3KeyPanic
      | Some computed \<Rightarrow> if computed \<noteq> cid then Inl IdMismatch else Inr ())"

definition DeriveKey :: "hashes \<Rightarrow> bytes \<Rightarrow> bytes \<Rightarrow> bytes \<Rightarrow> nat \<Rightarrow> key_error + bytes" where
  "DeriveKey h fromKey salt domain sz =
     (if sz > 32 then Inl DeriveTooLong else Inr (take sz (sha256 h (fromKey @ salt @ domain))))"

text \<open>\<open>crypto.Blake3Keyed\<close> fails unless its key has 32 bytes; the id hashes turn that into a panic.\<close>

definition Blake3Keyed :: "hashes \<Rightarrow> bytes \<Rightarrow> bytes \<Rightarrow> bytes option" where
  "Blake3Keyed h k data = (if length k \<noteq> 32 then None else Some (blake3_keyed h k data))"

section \<open>The keys that tag\<close>

definition TypeSHA256Authenticated :: byte where "TypeSHA256Authenticated = 0x60"
definition TypeBlake3Authenticated :: byte where "TypeBlake3Authenticated = 0x70"
definition TypeSHA256None :: byte where "TypeSHA256None = 0x80"
definition TypeBlake3None :: byte where "TypeBlake3None = 0x90"

record mac_key =
  mk_typeByte :: byte
  mk_name :: string
  mk_tagKey :: bytes
  mk_mac :: "bytes \<Rightarrow> bytes \<Rightarrow> bytes \<Rightarrow> bytes"
  mk_idHash :: "bytes \<Rightarrow> bytes \<Rightarrow> bytes option"
  mk_idKey :: bytes
  mk_unkeyed :: bool

definition macTagSize :: nat where "macTagSize = 32"
definition macHeaderSize :: nat where "macHeaderSize = 2"
definition macPayloadOverhead :: nat where "macPayloadOverhead = macHeaderSize + macTagSize"

definition mac_IDCheckIsAuthentication :: "mac_key \<Rightarrow> bool" where
  "mac_IDCheckIsAuthentication k = mk_unkeyed k"

definition mac_IDHash :: "mac_key \<Rightarrow> bytes \<Rightarrow> bytes option" where
  "mac_IDHash k data = mk_idHash k (mk_idKey k) data"

definition mac_DeriveIDKey :: "hashes \<Rightarrow> mac_key \<Rightarrow> bytes \<Rightarrow> nat \<Rightarrow> key_error + bytes" where
  "mac_DeriveIDKey h k domain sz = DeriveKey h (mk_idKey k) [] domain sz"

definition tagPrefix :: "bytes \<Rightarrow> bytes \<Rightarrow> bytes \<Rightarrow> key_error + bytes" where
  "tagPrefix header aad cid =
     (let aadFull = aad @ cid in
      if length aadFull > 0xFFFF then Inl AadTooLong
      else Inr (header @ [word_of_nat (length aadFull div 256), word_of_nat (length aadFull)] @ aadFull))"

definition mac_Encrypt :: "mac_key \<Rightarrow> bytes \<Rightarrow> bytes \<Rightarrow> bytes \<Rightarrow> key_error + bytes" where
  "mac_Encrypt k cid data aad =
     (let header = [mk_typeByte k, 0] in
      bind_res (tagPrefix header aad cid) (\<lambda>prefix.
        Inr (header @ mk_mac k (mk_tagKey k) prefix data @ data)))"

definition mac_Decrypt :: "mac_key \<Rightarrow> bytes \<Rightarrow> bytes \<Rightarrow> bytes \<Rightarrow> key_error + bytes" where
  "mac_Decrypt k cid envelope aad =
     (if length envelope < macPayloadOverhead then Inl TruncatedEnvelope
      else if envelope ! 0 \<noteq> mk_typeByte k then Inl InvalidEnvelope
      else (let header = take macHeaderSize envelope;
                tag = slice macHeaderSize macTagSize envelope;
                payload = drop macPayloadOverhead envelope in
        bind_res (tagPrefix header aad cid) (\<lambda>prefix.
          if mk_mac k (mk_tagKey k) prefix payload \<noteq> tag then Inl TagMismatch else Inr payload)))"

definition NewNoneSHA256 :: "hashes \<Rightarrow> mac_key" where
  "NewNoneSHA256 h = \<lparr>mk_typeByte = TypeSHA256None, mk_name = ''none-sha256'', mk_tagKey = [],
     mk_mac = (\<lambda>_ prefix payload. sha256 h (prefix @ payload)), mk_idHash = (\<lambda>_ data. Some (sha256 h data)),
     mk_idKey = [], mk_unkeyed = True\<rparr>"

definition NewNoneBlake3 :: "hashes \<Rightarrow> mac_key" where
  "NewNoneBlake3 h = \<lparr>mk_typeByte = TypeBlake3None, mk_name = ''none-blake3'', mk_tagKey = [],
     mk_mac = (\<lambda>_ prefix payload. blake3 h (prefix @ payload)), mk_idHash = (\<lambda>_ data. Some (blake3 h data)),
     mk_idKey = [], mk_unkeyed = True\<rparr>"

definition macKeyDomainHMACSHA256 :: bytes where
  "macKeyDomainHMACSHA256 = map of_char ''borg-repoobj-mac-hmac-sha256''"

definition macKeyDomainBlake3 :: bytes where
  "macKeyDomainBlake3 = map of_char ''borg-repoobj-mac-blake3''"

definition NewAuthenticatedSHA256 :: "hashes \<Rightarrow> bytes \<Rightarrow> bytes \<Rightarrow> key_error + mac_key" where
  "NewAuthenticatedSHA256 h cryptKey idKey =
     bind_res (DeriveKey h cryptKey [] macKeyDomainHMACSHA256 32) (\<lambda>tagKey.
       Inr \<lparr>mk_typeByte = TypeSHA256Authenticated, mk_name = ''authenticated-sha256'', mk_tagKey = tagKey,
         mk_mac = (\<lambda>tk prefix payload. hmac_sha256 h tk (prefix @ payload)), mk_idHash = (\<lambda>ik data. Some (hmac_sha256 h ik data)),
         mk_idKey = idKey, mk_unkeyed = False\<rparr>)"

definition NewAuthenticatedBlake3 :: "hashes \<Rightarrow> bytes \<Rightarrow> bytes \<Rightarrow> key_error + mac_key" where
  "NewAuthenticatedBlake3 h cryptKey idKey =
     bind_res (DeriveKey h cryptKey [] macKeyDomainBlake3 32) (\<lambda>tagKey.
       Inr \<lparr>mk_typeByte = TypeBlake3Authenticated, mk_name = ''authenticated-blake3'', mk_tagKey = tagKey,
         mk_mac = (\<lambda>tk prefix payload. blake3_keyed h tk (prefix @ payload)), mk_idHash = Blake3Keyed h,
         mk_idKey = idKey, mk_unkeyed = False\<rparr>)"

section \<open>The envelope\<close>

definition mac_ok :: "mac_key \<Rightarrow> bool" where
  "mac_ok k \<longleftrightarrow> (\<forall>p d. length (mk_mac k (mk_tagKey k) p d) = macTagSize)"

lemma mac_dec_enc:
  assumes "mac_ok k" "mac_Encrypt k cid d aad = Inr e"
  shows "mac_Decrypt k cid e aad = Inr d" "length e = macPayloadOverhead + length d"
  using assms
  by (auto simp: mac_Encrypt_def mac_Decrypt_def mac_ok_def bind_res_Inr Let_def slice_def
      macPayloadOverhead_def macHeaderSize_def macTagSize_def tagPrefix_def split: if_splits)

text \<open>The keys without a session leave their state alone.\<close>

definition stateless :: "('k \<Rightarrow> 'a \<Rightarrow> 'b \<Rightarrow> 'c \<Rightarrow> 'r) \<Rightarrow> 'k \<Rightarrow> 'a \<Rightarrow> 'b \<Rightarrow> 'c \<Rightarrow> 'r \<times> 'k" where
  "stateless f k a b c = (f k a b c, k)"

interpretation mac: repo_key "stateless mac_Encrypt" "stateless mac_Decrypt" mac_IDHash mac_ok "(=)"
  by unfold_locales (auto simp: stateless_def mac_dec_enc macPayloadOverhead_def macHeaderSize_def macTagSize_def)

text \<open>The prefix of the tag determines the header, the associated data and the chunk id once their
  lengths are fixed, and never runs into the payload: the split is part of the tagged bytes.\<close>

lemma tagPrefix_split:
  assumes "tagPrefix header aad cid = Inr p" "tagPrefix header' aad' cid' = Inr p'" "length header = 2" "length header' = 2"
    "p @ payload = p' @ payload'"
  shows "header = header' \<and> aad @ cid = aad' @ cid' \<and> payload = payload'"
proof -
  define n n' where "n = length (aad @ cid)" and "n' = length (aad' @ cid')"
  have len: "n \<le> 0xFFFF" "n' \<le> 0xFFFF"
    and p: "p = header @ [word_of_nat (n div 256), word_of_nat n] @ aad @ cid"
    and p': "p' = header' @ [word_of_nat (n' div 256), word_of_nat n'] @ aad' @ cid'"
    using assms(1,2) by (auto simp: tagPrefix_def Let_def n_def n'_def split: if_splits)
  have h: "header = header'" using assms(3-5) unfolding p p' by simp
  have "(word_of_nat (n div 256) :: byte) = word_of_nat (n' div 256)" "(word_of_nat n :: byte) = word_of_nat n'"
    and e: "aad @ cid @ payload = aad' @ cid' @ payload'"
    using assms(5) h unfolding p p' by simp_all
  then have "n div 256 mod 256 = n' div 256 mod 256" "n mod 256 = n' mod 256"
    by (simp_all add: word_of_nat_eq_iff take_bit_eq_mod)
  moreover have "n div 256 < 256" "n' div 256 < 256" using len by auto
  ultimately have "n = n'" by (metis div_mult_mod_eq mod_less)
  then have "length (aad @ cid) = length (aad' @ cid')" by (simp add: n_def n'_def)
  with e have "aad @ cid = aad' @ cid'" "payload = payload'" by (metis append.assoc append_eq_append_conv)+
  with h show ?thesis by blast
qed



text \<open>The id hash of the authenticated-blake3 mode is said to be unable to panic because the
  constructors validate the key length; this constructor does not: it accepts an id key of any
  length, and with any length but 32 every id hash panics.\<close>

theorem blake3_id_key_unchecked:
  "\<exists>k. NewAuthenticatedBlake3 h cryptKey idKey = Inr k \<and> (mac_IDHash k data = None) = (length idKey \<noteq> 32)"
  by (simp add: NewAuthenticatedBlake3_def DeriveKey_def mac_IDHash_def Blake3Keyed_def)

end
