(* ===== verification/Ocb.thy ===== *)
theory Ocb
  imports Borge_Prelude
begin

text \<open>
  OCB3 authenticated encryption, \<^verbatim>\<open>src/internal/crypto/ocb/ocb.go\<close>, over an arbitrary block cipher:
  the two directions of the cipher are fields of the record, as \<open>cipher.Block\<close> is in the
  source. A block is a byte list of length 16.
\<close>

definition BlockSize :: nat where "BlockSize = 16"
definition MaxTagSize :: nat where "MaxTagSize = 16"
definition MaxNonceSize :: nat where "MaxNonceSize = 15"
definition lTableSize :: nat where "lTableSize = 64"

datatype ocb_error = WrongBlockSize | WrongNonceSize | WrongTagSize | NonceLength | ErrOpen

record ocb =
  blockEncrypt :: "bytes \<Rightarrow> bytes"
  blockDecrypt :: "bytes \<Rightarrow> bytes"
  tagSize :: nat
  nonceSize :: nat
  lStar :: bytes
  lDollar :: bytes
  lTable :: "bytes list"

section \<open>Blocks\<close>

definition xorBlock :: "bytes \<Rightarrow> bytes \<Rightarrow> bytes" where
  "xorBlock a b = map2 (XOR) a b"

definition double :: "bytes \<Rightarrow> bytes" where
  "double s = (let mask = signed_drop_bit 7 (s ! 0) in
     map (\<lambda>i. push_bit 1 (s ! i) OR drop_bit 7 (s ! Suc i)) [0..<BlockSize - 1]
       @ [push_bit 1 (s ! (BlockSize - 1)) XOR (0x87 AND mask)])"

fun doubles :: "nat \<Rightarrow> bytes \<Rightarrow> bytes list" where
  "doubles 0 s = []"
| "doubles (Suc n) s = s # doubles n (double s)"

text \<open>\<open>bits.TrailingZeros\<close> of a 64-bit word.\<close>

fun trailingZeros :: "nat \<Rightarrow> nat" where
  "trailingZeros n = (if n = 0 then 64 else if odd n then 0 else Suc (trailingZeros (n div 2)))"

declare trailingZeros.simps [simp del]

definition NewWithSizes :: "(bytes \<Rightarrow> bytes) \<Rightarrow> (bytes \<Rightarrow> bytes) \<Rightarrow> nat \<Rightarrow> int \<Rightarrow> int \<Rightarrow> ocb_error + ocb" where
  "NewWithSizes enc dec blockSize nonce_size tag_size =
     (if blockSize \<noteq> BlockSize then Inl WrongBlockSize
      else if nonce_size < 1 \<or> nonce_size > int MaxNonceSize then Inl WrongNonceSize
      else if tag_size < 1 \<or> tag_size > int MaxTagSize then Inl WrongTagSize
      else (let ls = enc (replicate BlockSize 0); ld = double ls in
        Inr \<lparr>blockEncrypt = enc, blockDecrypt = dec, tagSize = nat tag_size, nonceSize = nat nonce_size,
             lStar = ls, lDollar = ld, lTable = doubles lTableSize (double ld)\<rparr>))"

definition New :: "(bytes \<Rightarrow> bytes) \<Rightarrow> (bytes \<Rightarrow> bytes) \<Rightarrow> nat \<Rightarrow> ocb_error + ocb" where
  "New enc dec blockSize = NewWithSizes enc dec blockSize 12 (int MaxTagSize)"

definition getL :: "ocb \<Rightarrow> nat \<Rightarrow> bytes" where
  "getL oc i = lTable oc ! i"

section \<open>The initial offset\<close>

definition nonceBlock :: "ocb \<Rightarrow> bytes \<Rightarrow> bytes" where
  "nonceBlock oc nonce =
     (let n0 = (replicate BlockSize 0)[0 := word_of_nat ((tagSize oc * 8) mod 128 * 2)];
          n1 = n0[BlockSize - 1 - length nonce := n0 ! (BlockSize - 1 - length nonce) OR 1] in
      blit (BlockSize - length nonce) nonce n1)"

definition stretch :: "ocb \<Rightarrow> bytes \<Rightarrow> bytes" where
  "stretch oc n = (let ktop = blockEncrypt oc (n[BlockSize - 1 := n ! (BlockSize - 1) AND NOT 0x3f]) in
     ktop @ map (\<lambda>i. ktop ! i XOR ktop ! Suc i) [0..<8])"

definition initOffset :: "ocb \<Rightarrow> bytes \<Rightarrow> bytes" where
  "initOffset oc nonce =
     (let n = nonceBlock oc nonce;
          bottom = unat (n ! (BlockSize - 1) AND 0x3f);
          s = stretch oc n; byteShift = bottom div 8; bitShift = bottom mod 8 in
      map (\<lambda>i. push_bit bitShift (s ! (byteShift + i)) OR drop_bit (8 - bitShift) (s ! (byteShift + i + 1))) [0..<BlockSize])"

section \<open>Associated data\<close>

definition pad10 :: "bytes \<Rightarrow> bytes" where
  "pad10 p = p @ 0x80 # replicate (BlockSize - 1 - length p) 0"

function hashBlocks :: "ocb \<Rightarrow> bytes \<Rightarrow> nat \<Rightarrow> bytes \<Rightarrow> bytes \<Rightarrow> bytes \<times> bytes \<times> bytes" where
  "hashBlocks oc ad block offset s =
     (if length ad < BlockSize then (ad, offset, s)
      else let offset' = xorBlock offset (getL oc (trailingZeros block)) in
        hashBlocks oc (drop BlockSize ad) (Suc block) offset'
          (xorBlock s (blockEncrypt oc (xorBlock (take BlockSize ad) offset'))))"
  by pat_completeness auto
termination by (relation "measure (\<lambda>(_, ad, _). length ad)") (auto simp: BlockSize_def)

declare hashBlocks.simps [simp del]

definition hashAD :: "ocb \<Rightarrow> bytes \<Rightarrow> bytes" where
  "hashAD oc ad = (case hashBlocks oc ad 1 (replicate BlockSize 0) (replicate BlockSize 0) of
     (ad', offset, s) \<Rightarrow>
       if ad' = [] then s
       else xorBlock s (blockEncrypt oc (xorBlock (pad10 ad') (xorBlock offset (lStar oc)))))"

section \<open>Seal and Open\<close>

text \<open>The loops over the full blocks: the output, the rest of the input, the offset and the checksum.\<close>

function sealBlocks :: "ocb \<Rightarrow> bytes \<Rightarrow> nat \<Rightarrow> bytes \<Rightarrow> bytes \<Rightarrow> bytes \<times> bytes \<times> bytes \<times> bytes" where
  "sealBlocks oc p block offset checksum =
     (if length p < BlockSize then ([], p, offset, checksum)
      else let offset' = xorBlock offset (getL oc (trailingZeros block));
               c = xorBlock (blockEncrypt oc (xorBlock (take BlockSize p) offset')) offset';
               r = sealBlocks oc (drop BlockSize p) (Suc block) offset' (xorBlock checksum (take BlockSize p)) in
        (c @ fst r, snd r))"
  by pat_completeness auto
termination by (relation "measure (\<lambda>(_, p, _). length p)") (auto simp: BlockSize_def)

function openBlocks :: "ocb \<Rightarrow> bytes \<Rightarrow> nat \<Rightarrow> bytes \<Rightarrow> bytes \<Rightarrow> bytes \<times> bytes \<times> bytes \<times> bytes" where
  "openBlocks oc c block offset checksum =
     (if length c < BlockSize then ([], c, offset, checksum)
      else let offset' = xorBlock offset (getL oc (trailingZeros block));
               p = xorBlock (blockDecrypt oc (xorBlock (take BlockSize c) offset')) offset';
               r = openBlocks oc (drop BlockSize c) (Suc block) offset' (xorBlock checksum p) in
        (p @ fst r, snd r))"
  by pat_completeness auto
termination by (relation "measure (\<lambda>(_, p, _). length p)") (auto simp: BlockSize_def)

declare sealBlocks.simps [simp del] openBlocks.simps [simp del]

text \<open>The tag, from the final checksum and offset.\<close>

definition tag_of :: "ocb \<Rightarrow> bytes \<Rightarrow> bytes \<Rightarrow> bytes \<Rightarrow> bytes" where
  "tag_of oc checksum offset ad =
     take (tagSize oc) (xorBlock (blockEncrypt oc (xorBlock (xorBlock checksum offset) (lDollar oc))) (hashAD oc ad))"

definition Seal :: "ocb \<Rightarrow> bytes \<Rightarrow> bytes \<Rightarrow> bytes \<Rightarrow> bytes \<Rightarrow> ocb_error + bytes" where
  "Seal oc dst nonce plaintext ad =
     (if length nonce \<noteq> nonceSize oc then Inl NonceLength
      else case sealBlocks oc plaintext 1 (initOffset oc nonce) (replicate BlockSize 0) of
        (c, p, offset, checksum) \<Rightarrow>
          if p = [] then Inr (dst @ c @ tag_of oc checksum offset ad)
          else let offset' = xorBlock offset (lStar oc); pad = blockEncrypt oc offset' in
            Inr (dst @ c @ map2 (XOR) p pad @ tag_of oc (xorBlock checksum (pad10 p)) offset' ad))"

definition Open :: "ocb \<Rightarrow> bytes \<Rightarrow> bytes \<Rightarrow> bytes \<Rightarrow> bytes \<Rightarrow> ocb_error + bytes" where
  "Open oc dst nonce ciphertext ad =
     (if length nonce \<noteq> nonceSize oc then Inl NonceLength
      else if length ciphertext < tagSize oc then Inl ErrOpen
      else let tag = drop (length ciphertext - tagSize oc) ciphertext;
               body = take (length ciphertext - tagSize oc) ciphertext in
        case openBlocks oc body 1 (initOffset oc nonce) (replicate BlockSize 0) of
          (p, c, offset, checksum) \<Rightarrow>
            if c = [] then (if tag_of oc checksum offset ad = tag then Inr (dst @ p) else Inl ErrOpen)
            else let offset' = xorBlock offset (lStar oc); pad = blockEncrypt oc offset'; q = map2 (XOR) c pad in
              if tag_of oc (xorBlock checksum (pad10 q)) offset' ad = tag then Inr (dst @ p @ q) else Inl ErrOpen)"

section \<open>Lengths\<close>

definition cipher_perm :: "(bytes \<Rightarrow> bytes) \<Rightarrow> (bytes \<Rightarrow> bytes) \<Rightarrow> bool" where
  "cipher_perm enc dec \<longleftrightarrow> (\<forall>b. length b = BlockSize \<longrightarrow>
     length (enc b) = BlockSize \<and> length (dec b) = BlockSize \<and> dec (enc b) = b \<and> enc (dec b) = b)"

definition ocb_ok :: "ocb \<Rightarrow> bool" where
  "ocb_ok oc \<longleftrightarrow> cipher_perm (blockEncrypt oc) (blockDecrypt oc) \<and> 0 < tagSize oc \<and> tagSize oc \<le> BlockSize
     \<and> 0 < nonceSize oc \<and> nonceSize oc < BlockSize
     \<and> length (lStar oc) = BlockSize \<and> length (lDollar oc) = BlockSize
     \<and> length (lTable oc) = lTableSize \<and> (\<forall>x\<in>set (lTable oc). length x = BlockSize)"

lemma length_xorBlock [simp]: "length (xorBlock a b) = min (length a) (length b)"
  by (simp add: xorBlock_def)

lemma length_double [simp]: "length (double s) = BlockSize"
  by (simp add: double_def Let_def BlockSize_def)

lemma length_doubles: "length (doubles n s) = n"
  by (induction n arbitrary: s) simp_all

lemma doubles_blocks: "length s = BlockSize \<Longrightarrow> x \<in> set (doubles n s) \<Longrightarrow> length x = BlockSize"
proof (induction n arbitrary: s)
  case (Suc n)
  then show ?case using Suc.IH [of "double s"] by auto
qed simp

lemma NewWithSizes_ok:
  assumes new: "NewWithSizes enc dec b n t = Inr oc" and perm: "cipher_perm enc dec"
  shows "ocb_ok oc" "nonceSize oc = nat n" "tagSize oc = nat t" "blockEncrypt oc = enc" "blockDecrypt oc = dec"
proof -
  let ?ls = "enc (replicate BlockSize 0)"
  have sizes: "1 \<le> n" "n \<le> 15" "1 \<le> t" "t \<le> 16"
    and oc: "oc = \<lparr>blockEncrypt = enc, blockDecrypt = dec, tagSize = nat t, nonceSize = nat n,
      lStar = ?ls, lDollar = double ?ls, lTable = doubles lTableSize (double (double ?ls))\<rparr>"
    using new by (simp_all add: NewWithSizes_def Let_def MaxNonceSize_def MaxTagSize_def split: if_splits)
  have "length ?ls = BlockSize" using perm by (simp add: cipher_perm_def)
  moreover have "\<forall>x\<in>set (doubles lTableSize (double (double ?ls))). length x = BlockSize"
    by (meson doubles_blocks length_double)
  ultimately show "ocb_ok oc" using perm sizes unfolding oc by (simp add: ocb_ok_def length_doubles BlockSize_def nat_le_iff nat_less_iff)
  show "nonceSize oc = nat n" "tagSize oc = nat t" "blockEncrypt oc = enc" "blockDecrypt oc = dec" by (simp_all add: oc)
qed

lemma trailingZeros_less: "0 < n \<Longrightarrow> n < 2 ^ k \<Longrightarrow> trailingZeros n < k"
proof (induction n arbitrary: k rule: trailingZeros.induct)
  case (1 n)
  show ?case
  proof (cases "odd n")
    case True
    then show ?thesis using 1(2,3) by (cases k) (simp_all add: trailingZeros.simps [of n])
  next
    case False
    then obtain j where "k = Suc j" using 1(2,3) by (cases k) auto
    moreover have "0 < n div 2" "n div 2 < 2 ^ j" using False 1(2,3) \<open>k = Suc j\<close> by auto
    ultimately show ?thesis using False 1 by (simp add: trailingZeros.simps [of n])
  qed
qed

lemma length_getL: "ocb_ok oc \<Longrightarrow> 0 < n \<Longrightarrow> n < 2 ^ 64 \<Longrightarrow> length (getL oc (trailingZeros n)) = BlockSize"
  using trailingZeros_less [of n 64] by (simp add: getL_def ocb_ok_def lTableSize_def)

lemma length_initOffset [simp]: "length (initOffset oc nonce) = BlockSize"
  by (simp add: initOffset_def Let_def)

section \<open>Opening inverts sealing\<close>

lemma xorBlock_xorBlock [simp]: "length a \<le> length b \<Longrightarrow> xorBlock (xorBlock a b) b = a"
  by (intro nth_equalityI) (auto simp: xorBlock_def xor.assoc)



text \<open>One block in each direction.\<close>

lemma block_step:
  assumes "ocb_ok oc" "length b = BlockSize" "length off = BlockSize"
  shows "xorBlock (blockDecrypt oc (xorBlock (xorBlock (blockEncrypt oc (xorBlock b off)) off) off)) off = b"
    "xorBlock (blockEncrypt oc (xorBlock (xorBlock (blockDecrypt oc (xorBlock b off)) off) off)) off = b"
    "length (xorBlock (blockEncrypt oc (xorBlock b off)) off) = BlockSize"
    "length (xorBlock (blockDecrypt oc (xorBlock b off)) off) = BlockSize"
  using assms by (simp_all add: ocb_ok_def cipher_perm_def)

lemma open_seal_blocks:
  assumes "ocb_ok oc" "length offset = BlockSize" "0 < block" "block + length p < 2 ^ 64"
    "sealBlocks oc p block offset cs = (c, r, off, cs')"
  shows "length r < BlockSize \<and> length off = BlockSize \<and> length c \<le> length p \<and> p = take (length c) p @ r
    \<and> (\<forall>t. length t < BlockSize \<longrightarrow> openBlocks oc (c @ t) block offset cs = (take (length c) p, t, off, cs'))"
  using assms
proof (induction oc p block offset cs arbitrary: c rule: sealBlocks.induct)
  case (1 oc p block offset cs)
  show ?case
  proof (cases "length p < BlockSize")
    case True
    then show ?thesis using 1 by (auto simp: sealBlocks.simps [of oc p] openBlocks.simps [of oc t for t])
  next
    case False
    let ?off = "xorBlock offset (getL oc (trailingZeros block))" and ?b = "take BlockSize p"
    let ?e = "xorBlock (blockEncrypt oc (xorBlock ?b ?off)) ?off"
    obtain d where d: "sealBlocks oc (drop BlockSize p) (Suc block) ?off (xorBlock cs ?b) = (d, r, off, cs')" "c = ?e @ d"
      using 1(6) False by (cases "sealBlocks oc (drop BlockSize p) (Suc block) ?off (xorBlock cs ?b)")
        (auto simp: sealBlocks.simps [of oc p] Let_def)
    have len: "length ?b = BlockSize" "length ?off = BlockSize"
      using False 1(2-5) length_getL [of oc block] by simp_all
    note st = block_step [OF 1(2) len]
    have "Suc block + length (drop BlockSize p) < 2 ^ 64" using False 1(5) by (simp add: BlockSize_def)
    from 1(1) [OF False refl refl 1(2) len(2) _ this d(1)] have ih: "length r < BlockSize" "length off = BlockSize"
      "length d \<le> length (drop BlockSize p)" "drop BlockSize p = take (length d) (drop BlockSize p) @ r"
      "\<forall>t. length t < BlockSize \<longrightarrow> openBlocks oc (d @ t) (Suc block) ?off (xorBlock cs ?b) = (take (length d) (drop BlockSize p), t, off, cs')"
      by auto
    have lc: "length c = BlockSize + length d" using d(2) st(3) by simp
    have tk: "take (length c) p = ?b @ take (length d) (drop BlockSize p)" by (simp add: lc take_add)
    have "p = ?b @ drop BlockSize p" by simp
    then have split: "p = take (length c) p @ r" unfolding tk using ih(4) by (metis append.assoc)
    have "openBlocks oc (c @ t) block offset cs = (take (length c) p, t, off, cs')" if "length t < BlockSize" for t
    proof -
      have "take BlockSize (c @ t) = ?e" "drop BlockSize (c @ t) = d @ t" "\<not> length (c @ t) < BlockSize"
        using d(2) st(3) by auto
      then show ?thesis using st(1) ih(5) that tk by (subst openBlocks.simps) (simp add: Let_def)
    qed
    then show ?thesis using ih(1-3) lc split False by auto
  qed
qed

lemma seal_open_blocks:
  assumes "ocb_ok oc" "length offset = BlockSize" "0 < block" "block + length c < 2 ^ 64"
    "openBlocks oc c block offset cs = (p, r, off, cs')"
  shows "length r < BlockSize \<and> length off = BlockSize \<and> length p \<le> length c \<and> c = take (length p) c @ r
    \<and> (\<forall>t. length t < BlockSize \<longrightarrow> sealBlocks oc (p @ t) block offset cs = (take (length p) c, t, off, cs'))"
  using assms
proof (induction oc c block offset cs arbitrary: p rule: openBlocks.induct)
  case (1 oc c block offset cs)
  show ?case
  proof (cases "length c < BlockSize")
    case True
    then show ?thesis using 1 by (auto simp: openBlocks.simps [of oc c] sealBlocks.simps [of oc t for t])
  next
    case False
    let ?off = "xorBlock offset (getL oc (trailingZeros block))" and ?b = "take BlockSize c"
    let ?e = "xorBlock (blockDecrypt oc (xorBlock ?b ?off)) ?off"
    obtain d where d: "openBlocks oc (drop BlockSize c) (Suc block) ?off (xorBlock cs ?e) = (d, r, off, cs')" "p = ?e @ d"
      using 1(6) False by (cases "openBlocks oc (drop BlockSize c) (Suc block) ?off (xorBlock cs ?e)")
        (auto simp: openBlocks.simps [of oc c] Let_def)
    have len: "length ?b = BlockSize" "length ?off = BlockSize"
      using False 1(2-5) length_getL [of oc block] by simp_all
    note st = block_step [OF 1(2) len]
    have "Suc block + length (drop BlockSize c) < 2 ^ 64" using False 1(5) by (simp add: BlockSize_def)
    from 1(1) [OF False refl refl 1(2) len(2) _ this d(1)] have ih: "length r < BlockSize" "length off = BlockSize"
      "length d \<le> length (drop BlockSize c)" "drop BlockSize c = take (length d) (drop BlockSize c) @ r"
      "\<forall>t. length t < BlockSize \<longrightarrow> sealBlocks oc (d @ t) (Suc block) ?off (xorBlock cs ?e) = (take (length d) (drop BlockSize c), t, off, cs')"
      by auto
    have lc: "length p = BlockSize + length d" using d(2) st(4) by simp
    have tk: "take (length p) c = ?b @ take (length d) (drop BlockSize c)" by (simp add: lc take_add)
    have "c = ?b @ drop BlockSize c" by simp
    then have split: "c = take (length p) c @ r" unfolding tk using ih(4) by (metis append.assoc)
    have "sealBlocks oc (p @ t) block offset cs = (take (length p) c, t, off, cs')" if "length t < BlockSize" for t
    proof -
      have "take BlockSize (p @ t) = ?e" "drop BlockSize (p @ t) = d @ t" "\<not> length (p @ t) < BlockSize"
        using d(2) st(4) by auto
      then show ?thesis using st(2) ih(5) that tk by (subst sealBlocks.simps) (simp add: Let_def)
    qed
    then show ?thesis using ih(1-3) lc split False by auto
  qed
qed


lemma length_hashBlocks:
  assumes "ocb_ok oc" "length offset = BlockSize" "length s = BlockSize" "0 < block" "block + length ad < 2 ^ 64"
    "hashBlocks oc ad block offset s = (ad', off, s')"
  shows "length ad' < BlockSize" "length off = BlockSize" "length s' = BlockSize"
proof -
  have "length ad' < BlockSize \<and> length off = BlockSize \<and> length s' = BlockSize"
    using assms
  proof (induction oc ad block offset s rule: hashBlocks.induct)
    case (1 oc ad block offset s)
    show ?case
    proof (cases "length ad < BlockSize")
      case True
      then show ?thesis using 1 by (simp add: hashBlocks.simps [of oc ad])
    next
      case False
      let ?off = "xorBlock offset (getL oc (trailingZeros block))"
      have len: "length ?off = BlockSize" using False 1(2-6) length_getL [of oc block] by simp
      have e: "length (xorBlock s (blockEncrypt oc (xorBlock (take BlockSize ad) ?off))) = BlockSize"
        using False len 1(2,4) by (simp add: ocb_ok_def cipher_perm_def)
      have "Suc block + length (drop BlockSize ad) < 2 ^ 64" using False 1(6) by (simp add: BlockSize_def)
      from 1(1) [OF False refl 1(2) len e _ this] 1(7) False show ?thesis by (simp add: hashBlocks.simps [of oc ad] Let_def)
    qed
  qed
  then show "length ad' < BlockSize" "length off = BlockSize" "length s' = BlockSize" by auto
qed

lemma length_pad10 [simp]: "length p < BlockSize \<Longrightarrow> length (pad10 p) = BlockSize"
  by (simp add: pad10_def)

lemma length_hashAD:
  assumes ok: "ocb_ok oc" and small: "length ad < 2 ^ 63"
  shows "length (hashAD oc ad) = BlockSize"
proof -
  obtain ad' off s where h: "hashBlocks oc ad 1 (replicate BlockSize 0) (replicate BlockSize 0) = (ad', off, s)"
    by (metis surj_pair)
  have "1 + length ad < 2 ^ 64" using small by simp
  note l = length_hashBlocks [OF ok _ _ _ this h]
  then have "length (pad10 ad') = BlockSize" "length off = BlockSize" "length s = BlockSize" by simp_all
  then show ?thesis using ok h by (simp add: hashAD_def ocb_ok_def cipher_perm_def)
qed

lemma length_tag_of:
  assumes "ocb_ok oc" "length ad < 2 ^ 63" "length checksum = BlockSize" "length offset = BlockSize"
  shows "length (tag_of oc checksum offset ad) = tagSize oc"
  using assms length_hashAD [OF assms(1,2)] by (simp add: tag_of_def ocb_ok_def cipher_perm_def)

lemma length_checksum:
  "length cs = BlockSize \<Longrightarrow> sealBlocks oc p block offset cs = (c, r, off, cs') \<Longrightarrow> length cs' = BlockSize"
proof (induction oc p block offset cs arbitrary: c rule: sealBlocks.induct)
  case (1 oc p block offset cs)
  show ?case
  proof (cases "length p < BlockSize")
    case True
    then show ?thesis using 1 by (simp add: sealBlocks.simps [of oc p])
  next
    case False
    with 1(3) obtain d where "sealBlocks oc (drop BlockSize p) (Suc block) (xorBlock offset (getL oc (trailingZeros block)))
        (xorBlock cs (take BlockSize p)) = (d, r, off, cs')"
      by (cases "sealBlocks oc (drop BlockSize p) (Suc block) (xorBlock offset (getL oc (trailingZeros block)))
        (xorBlock cs (take BlockSize p))") (auto simp: sealBlocks.simps [of oc p] Let_def)
    with 1(1) [OF False refl refl] 1(2) False show ?thesis by simp
  qed
qed

text \<open>The pad of the last block is its own inverse.\<close>

lemma map2_xor_inv [simp]: "length p \<le> length pad \<Longrightarrow> map2 (XOR) (map2 (XOR) p pad) pad = (p :: bytes)"
  by (intro nth_equalityI) (auto simp: xor.assoc)

lemma Open_Seal:
  assumes ok: "ocb_ok oc" and small: "length p < 2 ^ 63" "length ad < 2 ^ 63" and s: "Seal oc [] nonce p ad = Inr c"
  shows "Open oc dst nonce c ad = Inr (dst @ p)" "length c = length p + tagSize oc"
proof -
  obtain d r off cs where bl: "sealBlocks oc p 1 (initOffset oc nonce) (replicate BlockSize 0) = (d, r, off, cs)"
    by (metis surj_pair)
  have "1 + length p < 2 ^ 64" using small by simp
  from open_seal_blocks [OF ok _ _ this bl] have b: "length r < BlockSize" "length off = BlockSize" "length d \<le> length p"
    "p = take (length d) p @ r"
    "\<And>t. length t < BlockSize \<Longrightarrow> openBlocks oc (d @ t) 1 (initOffset oc nonce) (replicate BlockSize 0) = (take (length d) p, t, off, cs)"
    by auto
  have cs: "length cs = BlockSize" by (rule length_checksum [OF _ bl]) simp
  have n: "length nonce = nonceSize oc" using s by (simp add: Seal_def split: if_splits)
  have lp: "length p = length d + length r" using arg_cong [OF b(4), of length] b(3) by simp
  have "Open oc dst nonce c ad = Inr (dst @ p) \<and> length c = length p + tagSize oc"
  proof (cases "r = []")
    case True
    let ?t = "tag_of oc cs off ad"
    have "length ?t = tagSize oc" by (rule length_tag_of [OF ok small(2) cs b(2)])
    moreover have "c = d @ ?t" using s bl True n by (simp add: Seal_def)
    moreover have "openBlocks oc d 1 (initOffset oc nonce) (replicate BlockSize 0) = (take (length d) p, [], off, cs)"
      using b(5) [of "[]"] by (simp add: BlockSize_def)
    ultimately show ?thesis using n True b(4) lp by (simp add: Open_def)
  next
    case False
    let ?off = "xorBlock off (lStar oc)" let ?pad = "blockEncrypt oc ?off" let ?t = "tag_of oc (xorBlock cs (pad10 r)) ?off ad"
    let ?x = "map2 (XOR) r ?pad"
    have off: "length ?off = BlockSize" "length ?pad = BlockSize" using ok b(2) by (simp_all add: ocb_ok_def cipher_perm_def)
    have "length ?t = tagSize oc" using length_tag_of [OF ok small(2) _ off(1)] cs b(1) by simp
    moreover have "c = d @ ?x @ ?t" using s bl False n by (simp add: Seal_def Let_def)
    moreover have "length ?x = length r" using b(1) off(2) by simp
    moreover note b(5) [of ?x]
    moreover have "map2 (XOR) ?x ?pad = r" by (rule map2_xor_inv) (use b(1) off(2) in simp)
    moreover have "?x \<noteq> []" using False off(2) by (cases r) (auto simp: BlockSize_def zip_eq_Nil_iff)
    ultimately show ?thesis using n b(1,4) lp by (simp add: Open_def Let_def)
  qed
  then show "Open oc dst nonce c ad = Inr (dst @ p)" "length c = length p + tagSize oc" by auto
qed

lemma Seal_Open:
  assumes ok: "ocb_ok oc" and small: "length c < 2 ^ 63" and s: "Open oc [] nonce c ad = Inr p"
  shows "Seal oc dst nonce p ad = Inr (dst @ c)"
proof -
  let ?tag = "drop (length c - tagSize oc) c" and ?body = "take (length c - tagSize oc) c"
  obtain d r off cs where bl: "openBlocks oc ?body 1 (initOffset oc nonce) (replicate BlockSize 0) = (d, r, off, cs)"
    by (metis surj_pair)
  have "1 + length ?body < 2 ^ 64" using small by simp
  from seal_open_blocks [OF ok _ _ this bl] have b: "length r < BlockSize" "length off = BlockSize"
    "?body = take (length d) ?body @ r"
    "\<And>t. length t < BlockSize \<Longrightarrow> sealBlocks oc (d @ t) 1 (initOffset oc nonce) (replicate BlockSize 0) = (take (length d) ?body, t, off, cs)"
    by auto
  have n: "length nonce = nonceSize oc" "\<not> length c < tagSize oc" using s by (auto simp: Open_def split: if_splits)
  have c: "c = take (length d) ?body @ r @ ?tag" using b(3) by (metis append.assoc append_take_drop_id)
  show ?thesis
  proof (cases "r = []")
    case True
    have "tag_of oc cs off ad = ?tag" "p = d" using s bl True n by (auto simp: Open_def split: if_splits)
    then show ?thesis using n(1) b(4) [of "[]"] c True by (simp add: Seal_def BlockSize_def)
  next
    case False
    let ?off = "xorBlock off (lStar oc)" let ?pad = "blockEncrypt oc ?off" let ?q = "map2 (XOR) r ?pad"
    have off: "length ?off = BlockSize" "length ?pad = BlockSize" using ok b(2) by (simp_all add: ocb_ok_def cipher_perm_def)
    have t: "tag_of oc (xorBlock cs (pad10 ?q)) ?off ad = ?tag" "p = d @ ?q"
      using s bl False n by (auto simp: Open_def Let_def split: if_splits)
    have q: "length ?q = length r" "map2 (XOR) ?q ?pad = r" "?q \<noteq> []"
      using b(1) off(2) False by (simp, intro map2_xor_inv, simp, cases r) (auto simp: BlockSize_def zip_eq_Nil_iff)
    have "sealBlocks oc p 1 (initOffset oc nonce) (replicate BlockSize 0) = (take (length d) ?body, ?q, off, cs)"
      using b(4) [of ?q] q(1) b(1) t(2) by simp
    then have "Seal oc dst nonce p ad = Inr (dst @ take (length d) ?body @ r @ ?tag)"
      using n(1) q t(1) by (simp add: Seal_def Let_def)
    then show ?thesis using c by metis
  qed
qed

lemma Seal_total: "length nonce = nonceSize oc \<Longrightarrow> \<exists>c. Seal oc dst nonce p ad = Inr c"
  by (cases "sealBlocks oc p 1 (initOffset oc nonce) (replicate BlockSize 0)") (auto simp: Seal_def Let_def)

text \<open>C4. OCB over any block cipher permutation: a ciphertext opens to a plaintext exactly when sealing
  that plaintext under the same nonce and associated data gives that ciphertext. So opening inverts
  sealing, every accepted ciphertext is the sealed one bit for bit, and what was sealed under other
  associated data is accepted only if the whole output coincides.\<close>

theorem ocb_open_iff_seal:
  assumes "NewWithSizes enc dec b n t = Inr oc" "cipher_perm enc dec" "length c < 2 ^ 63" "length p < 2 ^ 63" "length ad < 2 ^ 63"
  shows "Open oc [] nonce c ad = Inr p \<longleftrightarrow> Seal oc [] nonce p ad = Inr c"
  using Open_Seal(1) [OF NewWithSizes_ok(1) [OF assms(1,2)] assms(4,5), of nonce c "[]"]
    Seal_Open [OF NewWithSizes_ok(1) [OF assms(1,2)] assms(3), of nonce ad p "[]"] by auto

theorem ocb_open_iff_seal_witness:
  "\<exists>oc c. NewWithSizes rev rev 16 12 16 = Inr oc \<and> Seal oc [] (replicate 12 7) [1, 2, 3] [9] = Inr c
    \<and> Open oc [] (replicate 12 7) c [9] = Inr [1, 2, 3]"
proof -
  have perm: "cipher_perm rev rev" by (simp add: cipher_perm_def)
  obtain oc where oc: "NewWithSizes rev rev 16 12 16 = Inr oc"
    by (simp add: NewWithSizes_def Let_def BlockSize_def MaxNonceSize_def MaxTagSize_def)
  have "nonceSize oc = 12" using NewWithSizes_ok(2) [OF oc perm] by simp
  then obtain c where c: "Seal oc [] (replicate 12 7) [1, 2, 3] [9] = Inr c" using Seal_total [of "replicate 12 7"] by fastforce
  have "length c < 2 ^ 63" using Open_Seal(2) [OF NewWithSizes_ok(1) [OF oc perm] _ _ c] NewWithSizes_ok(3) [OF oc perm] by simp
  with ocb_open_iff_seal [OF oc perm this, of "[1, 2, 3]" "[9]" "replicate 12 7"] oc c show ?thesis by auto
qed

section \<open>The bit-level operations of RFC 7253\<close>

text \<open>Bit \<open>j\<close> of a byte string, most significant first.\<close>

definition bitAt :: "bytes \<Rightarrow> nat \<Rightarrow> bool" where
  "bitAt s j = bit (s ! (j div 8)) (7 - j mod 8)"

lemma byte_window:
  assumes "k < 8" "r < 8"
  shows "bit (push_bit k (a :: byte) OR drop_bit (8 - k) b) (7 - r) = (if r + k < 8 then bit a (7 - (r + k)) else bit b (7 - (r + k - 8)))"
proof (cases "r + k < 8")
  case True
  then have "k \<le> 7 - r" "7 - r - k = 7 - (r + k)" "\<not> bit b (8 - k + (7 - r))"
    using bit_imp_le_length [of b "8 - k + (7 - r)"] by auto
  moreover have "7 - r < 8" by simp
  ultimately show ?thesis using True by (simp add: bit_or_iff bit_push_bit_iff bit_drop_bit_eq)
next
  case False
  then have "\<not> k \<le> 7 - r" "8 - k + (7 - r) = 7 - (r + k - 8)" using assms by auto
  then show ?thesis using False by (simp add: bit_or_iff bit_push_bit_iff bit_drop_bit_eq)
qed

lemma bit_index: "(8 * i + r :: nat) div 8 = i + r div 8" "(8 * i + r) mod 8 = r mod 8"
  by simp_all

lemma shifted_bits:
  assumes k: "k < 8" and j: "j < 8 * n" and x: "\<And>i. i < n \<Longrightarrow> xs ! i = push_bit k (s ! (m + i)) OR drop_bit (8 - k) (s ! Suc (m + i))"
  shows "bitAt xs j = bitAt s (8 * m + k + j)"
proof -
  define i r where "i = j div 8" and "r = j mod 8"
  then have ir: "j = 8 * i + r" "r < 8" "i < n" using j by (simp_all add: less_mult_imp_div_less mult.commute)
  have "bitAt xs j = (if r + k < 8 then bit (s ! (m + i)) (7 - (r + k)) else bit (s ! Suc (m + i)) (7 - (r + k - 8)))"
    using byte_window [OF k ir(2)] x [OF ir(3)] by (simp add: bitAt_def ir(1) bit_index ir(2) del: mult.commute)
  moreover have "(8 * m + k + j) div 8 = (if r + k < 8 then m + i else Suc (m + i))"
    "(8 * m + k + j) mod 8 = (if r + k < 8 then r + k else r + k - 8)"
    using k ir(2) unfolding ir(1) by (auto simp: div_nat_eqI mod_nat_eqI intro!: div_nat_eqI mod_nat_eqI)
  ultimately show ?thesis by (simp add: bitAt_def)
qed


lemma double_nth: "i < 15 \<Longrightarrow> double s ! i = push_bit 1 (s ! i) OR drop_bit 7 (s ! Suc i)"
  "double s ! 15 = push_bit 1 (s ! 15) XOR (0x87 AND signed_drop_bit 7 (s ! 0))"
  by (simp_all add: double_def Let_def nth_append BlockSize_def)

lemma bits_0x87: "bit (0x87 :: byte) n \<longleftrightarrow> n \<in> {0, 1, 2, 7}"
proof -
  have "(0x87 :: byte) = push_bit 7 1 OR (push_bit 2 1 OR (push_bit 1 1 OR 1))" by simp
  then show ?thesis by (simp only: bit_or_iff bit_push_bit_iff) (auto simp: bit_1_iff)
qed

lemma double_last_byte:
  assumes "r < 8"
  shows "bit (double s ! 15) (7 - r) = ((r < 7 \<and> bit (s ! 15) (6 - r)) \<noteq> (bit (s ! 0) 7 \<and> r \<in> {0, 5, 6, 7}))"
proof -
  have "bit (signed_drop_bit 7 (s ! 0) :: byte) n = bit (s ! 0) 7" if "n < 8" for n
    using that by (cases n) (auto simp: bit_signed_drop_bit_iff)
  moreover have "bit (0x87 :: byte) (7 - r) = (r \<in> {0, 5, 6, 7})" unfolding bits_0x87 using assms by auto
  ultimately have m: "bit (0x87 AND signed_drop_bit 7 (s ! 0)) (7 - r) = (bit (s ! 0) 7 \<and> r \<in> {0, 5, 6, 7})"
    by (simp only: bit_and_iff) (use assms in auto)
  have "bit (push_bit 1 (s ! 15)) (7 - r) = (r < 7 \<and> bit (s ! 15) (6 - r))"
    unfolding bit_push_bit_iff using assms by auto
  with m show ?thesis by (simp add: double_nth bit_xor_iff)
qed

text \<open>The two bit-level operations are those of RFC 7253. \<open>double\<close> is multiplication by \<open>x\<close> in
  \<open>GF(2^128)\<close>: a left shift by one bit, with the polynomial \<open>x^128 + x^7 + x^2 + x + 1\<close> reduced when the
  top bit falls out. The initial offset is the 128-bit window of \<open>Stretch\<close> that starts at the low
  six bits of the nonce block, for all 64 alignments.\<close>

theorem ocb_bit_operations:
  "(\<forall>j<128. bitAt (double s) j = ((j < 127 \<and> bitAt s (Suc j)) \<noteq> (bitAt s 0 \<and> j \<in> {120, 125, 126, 127})))
   \<and> (\<forall>j<128. bitAt (initOffset oc nonce) j
        = bitAt (stretch oc (nonceBlock oc nonce)) (unat (nonceBlock oc nonce ! 15 AND 0x3f) + j))"
proof (intro conjI allI impI)
  fix j :: nat
  assume j: "j < 128"
  show "bitAt (double s) j = ((j < 127 \<and> bitAt s (Suc j)) \<noteq> (bitAt s 0 \<and> j \<in> {120, 125, 126, 127}))"
  proof (cases "j < 8 * 15")
    case True
    with shifted_bits [of 1 j 15 "double s" s 0] double_nth(1) [of _ s] show ?thesis by auto
  next
    case False
    define r where "r = j - 120"
    then have r: "r < 8" "j = 120 + r" using j False by auto
    have "j div 8 = 15" "j mod 8 = r" using r by presburger+
    then have "bitAt (double s) j = bit (double s ! 15) (7 - r)" by (simp add: bitAt_def)
    moreover have "bitAt s (Suc j) = bit (s ! 15) (6 - r)" if "r < 7"
    proof -
      have "Suc j div 8 = 15" "Suc j mod 8 = Suc r" using r that by presburger+
      then show ?thesis by (simp add: bitAt_def)
    qed
    moreover have "bitAt s 0 = bit (s ! 0) 7" by (simp add: bitAt_def)
    moreover have "(j < 127) = (r < 7)" "(j \<in> {120, 125, 126, 127}) = (r \<in> {0, 5, 6, 7})" using r by auto
    ultimately show ?thesis using double_last_byte [OF r(1), of s] by (cases "r < 7") (simp_all only: simp_thms)
  qed
next
  fix j :: nat
  assume "j < 128"
  then have j: "j < 8 * 16" by simp
  let ?n = "nonceBlock oc nonce" let ?s = "stretch oc ?n" let ?b = "unat (?n ! 15 AND 0x3f)"
  have "initOffset oc nonce ! i = push_bit (?b mod 8) (?s ! (?b div 8 + i)) OR drop_bit (8 - ?b mod 8) (?s ! Suc (?b div 8 + i))"
    if "i < 16" for i using that by (simp add: initOffset_def Let_def BlockSize_def)
  from shifted_bits [OF _ j, of "?b mod 8" "initOffset oc nonce" ?s "?b div 8", OF _ this]
  show "bitAt (initOffset oc nonce) j = bitAt ?s (?b + j)" by simp
qed

theorem ocb_bit_operations_witness:
  "bitAt (double (0x80 # replicate 15 0)) 120 \<and> \<not> bitAt (double (0x80 # replicate 15 0)) 121"
proof -
  let ?s = "0x80 # replicate 15 0 :: bytes"
  let ?oc = "\<lparr>blockEncrypt = id, blockDecrypt = id, tagSize = 16, nonceSize = 12, lStar = ?s, lDollar = ?s, lTable = [?s]\<rparr>"
  note * = conjunct1 [OF ocb_bit_operations [of ?s ?oc "[]"], rule_format]
  have "bitAt ?s 0" "\<not> bitAt ?s 121" "\<not> bitAt ?s 122" by (simp_all add: bitAt_def)
  then show ?thesis using * [of 120] * [of 121] by simp
qed

end
