(* ===== verification/Aead_Key.thy ===== *)
theory Aead_Key
  imports Mac_Key Ocb
begin

text \<open>
  The encrypting keys: the envelope of \<^verbatim>\<open>src/internal/crypto/aead.go\<close> and the session keys of
  \<^verbatim>\<open>src/internal/crypto/key/aead.go\<close>. AES and ChaCha20-Poly1305 are parameters (\<open>ciphers\<close>), and
  so is the randomness: \<open>rnd n\<close> is what the \<open>n\<close>-th call of \<open>rand.Read\<close> returns, \<open>None\<close> if it fails.
\<close>

section \<open>The ciphers\<close>

text \<open>Go's \<open>cipher.AEAD\<close>: sealing returns \<open>None\<close> where it panics, opening where it fails.\<close>

record aead_prim =
  primSeal :: "bytes \<Rightarrow> bytes \<Rightarrow> bytes \<Rightarrow> bytes option"
  primOpen :: "bytes \<Rightarrow> bytes \<Rightarrow> bytes \<Rightarrow> bytes option"
  NonceSize :: nat
  Overhead :: nat

definition ocb_prim :: "ocb \<Rightarrow> aead_prim" where
  "ocb_prim oc = \<lparr>primSeal = (\<lambda>n p a. case Seal oc [] n p a of Inl _ \<Rightarrow> None | Inr c \<Rightarrow> Some c),
     primOpen = (\<lambda>n c a. case Open oc [] n c a of Inl _ \<Rightarrow> None | Inr p \<Rightarrow> Some p),
     NonceSize = nonceSize oc, Overhead = tagSize oc\<rparr>"

datatype suite = SuiteAESOCB | SuiteChaCha20Poly1305

record ciphers =
  aesEncrypt :: "bytes \<Rightarrow> bytes \<Rightarrow> bytes"
  aesDecrypt :: "bytes \<Rightarrow> bytes \<Rightarrow> bytes"
  chacha20poly1305 :: "bytes \<Rightarrow> aead_prim"

definition KeySize :: nat where "KeySize = 32"
definition IVSize :: nat where "IVSize = 12"
definition MACSize :: nat where "MACSize = 16"

fun cipherBlockSize :: "suite \<Rightarrow> nat" where
  "cipherBlockSize SuiteChaCha20Poly1305 = 64"
| "cipherBlockSize SuiteAESOCB = 16"

definition maxCipherBlocks :: nat where "maxCipherBlocks = 2 ^ 32"

section \<open>The envelope\<close>

record aead =
  ae_suite :: suite
  ae_prim :: aead_prim
  headerLen :: nat
  aadOffset :: nat

definition NewAEAD :: "ciphers \<Rightarrow> suite \<Rightarrow> bytes \<Rightarrow> nat \<Rightarrow> nat \<Rightarrow> key_error + aead" where
  "NewAEAD cs su k hlen aoff =
     (if length k \<noteq> KeySize then Inl CipherSetup
      else if aoff > hlen then Inl CipherSetup
      else bind_res
        (case su of
           SuiteAESOCB \<Rightarrow> (case New (aesEncrypt cs k) (aesDecrypt cs k) 16 of Inl _ \<Rightarrow> Inl CipherSetup | Inr oc \<Rightarrow> Inr (ocb_prim oc))
         | SuiteChaCha20Poly1305 \<Rightarrow> Inr (chacha20poly1305 cs k))
        (\<lambda>inner.
          if NonceSize inner \<noteq> IVSize then Inl CipherSetup
          else if Overhead inner \<noteq> MACSize then Inl CipherSetup
          else Inr \<lparr>ae_suite = su, ae_prim = inner, headerLen = hlen, aadOffset = aoff\<rparr>))"

definition blockCount :: "nat \<Rightarrow> nat \<Rightarrow> nat" where
  "blockCount len blockSize = (if len = 0 then 0 else (len + blockSize - 1) div blockSize)"

definition authenticatedData :: "aead \<Rightarrow> bytes \<Rightarrow> bytes \<Rightarrow> bytes" where
  "authenticatedData a header aad = aad @ drop (aadOffset a) header"

definition aead_Encrypt :: "aead \<Rightarrow> bytes \<Rightarrow> bytes \<Rightarrow> bytes \<Rightarrow> bytes \<Rightarrow> key_error + bytes" where
  "aead_Encrypt a iv plaintext header aad =
     (if length iv \<noteq> IVSize then Inl CipherSetup
      else if length header \<noteq> headerLen a then Inl CipherSetup
      else if blockCount (length plaintext) (cipherBlockSize (ae_suite a)) > maxCipherBlocks then Inl MessageTooLarge
      else case primSeal (ae_prim a) iv plaintext (authenticatedData a header aad) of
        None \<Rightarrow> Inl CipherSetup
      | Some sealed \<Rightarrow> (let ct = take (length plaintext) sealed; tag = drop (length plaintext) sealed in
          Inr (header @ tag @ ct)))"

definition aead_Decrypt :: "aead \<Rightarrow> bytes \<Rightarrow> bytes \<Rightarrow> bytes \<Rightarrow> key_error + bytes" where
  "aead_Decrypt a iv envelope aad =
     (if length iv \<noteq> IVSize then Inl CipherSetup
      else if length envelope < headerLen a + MACSize then Inl CouldNotDecrypt
      else if blockCount (length envelope) (cipherBlockSize (ae_suite a)) > maxCipherBlocks then Inl MessageTooLarge
      else (let header = take (headerLen a) envelope;
                tag = slice (headerLen a) MACSize envelope;
                ct = drop (headerLen a + MACSize) envelope in
        case primOpen (ae_prim a) iv (ct @ tag) (authenticatedData a header aad) of
          None \<Rightarrow> Inl CouldNotDecrypt
        | Some plaintext \<Rightarrow> Inr plaintext))"

section \<open>Session keys\<close>

definition aeadHeaderSize :: nat where "aeadHeaderSize = 32"
definition aeadPayloadOverhead :: nat where "aeadPayloadOverhead = aeadHeaderSize + MACSize"
definition aeadSessionIDSize :: nat where "aeadSessionIDSize = 24"
definition maxAEADIV :: nat where "maxAEADIV = 2 ^ 48 - 1"
definition aesOCBMaxSessionBlocks :: int where "aesOCBMaxSessionBlocks = 2 ^ 37"
definition sessionCacheMax :: nat where "sessionCacheMax = 64"

definition sessionDomainAESOCB :: bytes where "sessionDomainAESOCB = map of_char ''borg-session-key-AES256_OCB''"
definition sessionDomainCHPO :: bytes where "sessionDomainCHPO = map of_char ''borg-session-key-CHACHA20_POLY1305''"

text \<open>What the key layer is built on.\<close>

record crypto_env =
  env_hashes :: hashes
  env_ciphers :: ciphers
  env_rnd :: "nat \<Rightarrow> bytes option"

text \<open>\<open>draws\<close> counts the calls of \<open>rand.Read\<close>.\<close>

record aead_key =
  ak_typeByte :: byte
  ak_suite :: suite
  sessionDomain :: bytes
  maxSessionBlocks :: int
  cryptKey :: bytes
  ak_idKey :: bytes
  ak_idHash :: "bytes \<Rightarrow> bytes \<Rightarrow> bytes option"
  sessionID :: bytes
  ak_cipher :: "aead option"
  nextIV :: nat
  sessionBlocks :: int
  sessions :: "(bytes \<times> aead) list"
  draws :: nat

definition ak_IDHash :: "aead_key \<Rightarrow> bytes \<Rightarrow> bytes option" where
  "ak_IDHash k data = ak_idHash k (ak_idKey k) data"

definition ak_DeriveIDKey :: "hashes \<Rightarrow> aead_key \<Rightarrow> bytes \<Rightarrow> nat \<Rightarrow> key_error + bytes" where
  "ak_DeriveIDKey h k domain sz = DeriveKey h (ak_idKey k) [] domain sz"

definition cipherFor :: "crypto_env \<Rightarrow> aead_key \<Rightarrow> bytes \<Rightarrow> key_error + aead" where
  "cipherFor env k sid =
     (if length sid \<noteq> aeadSessionIDSize then Inl SessionIdSize
      else bind_res (DeriveKey (env_hashes env) (cryptKey k) sid (sessionDomain k) KeySize) (\<lambda>sessionKey.
        NewAEAD (env_ciphers env) (ak_suite k) sessionKey aeadHeaderSize 0))"

definition newSession :: "crypto_env \<Rightarrow> aead_key \<Rightarrow> (key_error + unit) \<times> aead_key" where
  "newSession env k =
     (let k1 = k\<lparr>draws := Suc (draws k)\<rparr> in
      case env_rnd env (draws k) of
        None \<Rightarrow> (Inl NoRandomness, k1)
      | Some sid \<Rightarrow> (case cipherFor env k1 sid of
          Inl e \<Rightarrow> (Inl e, k1)
        | Inr c \<Rightarrow> (Inr (), k1\<lparr>sessionID := sid, ak_cipher := Some c, nextIV := 1, sessionBlocks := 0\<rparr>)))"

definition cachedCipherFor :: "crypto_env \<Rightarrow> aead_key \<Rightarrow> bytes \<Rightarrow> (key_error + aead) \<times> aead_key" where
  "cachedCipherFor env k sid =
     (case map_of (sessions k) sid of
        Some c \<Rightarrow> (Inr c, k)
      | None \<Rightarrow> (case cipherFor env k sid of
          Inl e \<Rightarrow> (Inl e, k)
        | Inr c \<Rightarrow> (Inr c, k\<lparr>sessions := (sid, c) # (if length (sessions k) \<ge> sessionCacheMax then [] else sessions k)\<rparr>)))"

definition messageBlocks :: "nat \<Rightarrow> nat \<Rightarrow> int" where
  "messageBlocks dataLen aadLen = int ((dataLen + 15) div 16) + int ((aeadHeaderSize + aadLen + 15) div 16) + 2"

definition reserve :: "crypto_env \<Rightarrow> aead_key \<Rightarrow> nat \<Rightarrow> nat \<Rightarrow> (key_error + nat \<times> bytes \<times> aead) \<times> aead_key" where
  "reserve env k dataLen aadLen =
     (case (if ak_cipher k = None then newSession env k else (Inr (), k)) of
        (Inl e, k1) \<Rightarrow> (Inl e, k1)
      | (Inr _, k1) \<Rightarrow>
          (case (if maxSessionBlocks k1 > 0 then
                   (let blocks = messageBlocks dataLen aadLen in
                    case (if sessionBlocks k1 + blocks > maxSessionBlocks k1 then newSession env k1 else (Inr (), k1)) of
                      (Inl e, k2) \<Rightarrow> (Inl e, k2)
                    | (Inr _, k2) \<Rightarrow> (Inr (), k2\<lparr>sessionBlocks := sessionBlocks k2 + blocks\<rparr>))
                 else (Inr (), k1)) of
             (Inl e, k3) \<Rightarrow> (Inl e, k3)
           | (Inr _, k3) \<Rightarrow>
               if nextIV k3 > maxAEADIV then (Inl CounterOverflow, k3)
               else (case ak_cipher k3 of
                 None \<Rightarrow> (Inl CipherSetup, k3)
               | Some c \<Rightarrow> (Inr (nextIV k3, sessionID k3, c), k3\<lparr>nextIV := Suc (nextIV k3)\<rparr>))))"

definition nonceFor :: "nat \<Rightarrow> bytes" where
  "nonceFor iv = replicate (IVSize - 8) 0 @ be_enc 8 iv"

definition putUint48 :: "nat \<Rightarrow> bytes" where
  "putUint48 v = drop 2 (be_enc 8 v)"

definition uint48 :: "bytes \<Rightarrow> nat" where
  "uint48 src = be_dec ([0, 0] @ src)"

definition ak_Encrypt :: "crypto_env \<Rightarrow> aead_key \<Rightarrow> bytes \<Rightarrow> bytes \<Rightarrow> bytes \<Rightarrow> (key_error + bytes) \<times> aead_key" where
  "ak_Encrypt env k cid data aad =
     (case reserve env k (length data) (length aad + length cid) of
        (Inl e, k') \<Rightarrow> (Inl e, k')
      | (Inr (iv, sid, cipher), k') \<Rightarrow>
          (let header = [ak_typeByte k, 0] @ putUint48 iv @ sid in
           (aead_Encrypt cipher (nonceFor iv) data header (aad @ cid), k')))"

definition ak_Decrypt :: "crypto_env \<Rightarrow> aead_key \<Rightarrow> bytes \<Rightarrow> bytes \<Rightarrow> bytes \<Rightarrow> (key_error + bytes) \<times> aead_key" where
  "ak_Decrypt env k cid envelope aad =
     (if length envelope < aeadPayloadOverhead then (Inl TruncatedEnvelope, k)
      else if envelope ! 0 \<noteq> ak_typeByte k then (Inl InvalidEnvelope, k)
      else (let iv = uint48 (slice 2 6 envelope); sid = slice 8 aeadSessionIDSize envelope in
        case cachedCipherFor env k sid of
          (Inl e, k') \<Rightarrow> (Inl e, k')
        | (Inr cipher, k') \<Rightarrow>
            (case aead_Decrypt cipher (nonceFor iv) envelope (aad @ cid) of
               Inl _ \<Rightarrow> (Inl CouldNotDecrypt, k')
             | Inr plaintext \<Rightarrow> (Inr plaintext, k'))))"

definition newAEADKey :: "byte \<Rightarrow> suite \<Rightarrow> bytes \<Rightarrow> int \<Rightarrow> bytes \<Rightarrow> bytes \<Rightarrow> (bytes \<Rightarrow> bytes \<Rightarrow> bytes option) \<Rightarrow> key_error + aead_key" where
  "newAEADKey typeByte su domain maxBlocks ckey ikey ihash =
     (if length ckey \<noteq> 64 then Inl CryptKeySize
      else if length ikey \<noteq> 32 then Inl IdKeySize
      else Inr \<lparr>ak_typeByte = typeByte, ak_suite = su, sessionDomain = domain, maxSessionBlocks = maxBlocks, cryptKey = ckey,
        ak_idKey = ikey, ak_idHash = ihash, sessionID = [], ak_cipher = None, nextIV = 0, sessionBlocks = 0, sessions = [], draws = 0\<rparr>)"

definition TypeAESOCB :: byte where "TypeAESOCB = 0x10"
definition TypeCHPO :: byte where "TypeCHPO = 0x20"
definition TypeBlake3AESOCB :: byte where "TypeBlake3AESOCB = 0x30"
definition TypeBlake3CHPO :: byte where "TypeBlake3CHPO = 0x40"

definition NewAESOCB :: "hashes \<Rightarrow> bytes \<Rightarrow> bytes \<Rightarrow> key_error + aead_key" where
  "NewAESOCB h ckey ikey = newAEADKey TypeAESOCB SuiteAESOCB sessionDomainAESOCB aesOCBMaxSessionBlocks ckey ikey (\<lambda>ik d. Some (hmac_sha256 h ik d))"

definition NewCHPO :: "hashes \<Rightarrow> bytes \<Rightarrow> bytes \<Rightarrow> key_error + aead_key" where
  "NewCHPO h ckey ikey = newAEADKey TypeCHPO SuiteChaCha20Poly1305 sessionDomainCHPO 0 ckey ikey (\<lambda>ik d. Some (hmac_sha256 h ik d))"

definition NewBlake3AESOCB :: "hashes \<Rightarrow> bytes \<Rightarrow> bytes \<Rightarrow> key_error + aead_key" where
  "NewBlake3AESOCB h ckey ikey = newAEADKey TypeBlake3AESOCB SuiteAESOCB sessionDomainAESOCB aesOCBMaxSessionBlocks ckey ikey (Blake3Keyed h)"

definition NewBlake3CHPO :: "hashes \<Rightarrow> bytes \<Rightarrow> bytes \<Rightarrow> key_error + aead_key" where
  "NewBlake3CHPO h ckey ikey = newAEADKey TypeBlake3CHPO SuiteChaCha20Poly1305 sessionDomainCHPO 0 ckey ikey (Blake3Keyed h)"


section \<open>What the ciphers promise\<close>

definition prim_ok :: "aead_prim \<Rightarrow> bool" where
  "prim_ok pr \<longleftrightarrow> NonceSize pr = IVSize \<and> Overhead pr = MACSize \<and>
     (\<forall>n p a. length n = IVSize \<and> length p < 2 ^ 40 \<and> length a < 2 ^ 40 \<longrightarrow>
       (\<exists>c. primSeal pr n p a = Some c \<and> length c = length p + MACSize \<and> primOpen pr n c a = Some p))"

definition env_ok :: "crypto_env \<Rightarrow> bool" where
  "env_ok env \<longleftrightarrow> (\<forall>b. length (sha256 (env_hashes env) b) = 32)
     \<and> (\<forall>k. cipher_perm (aesEncrypt (env_ciphers env) k) (aesDecrypt (env_ciphers env) k))
     \<and> (\<forall>k. prim_ok (chacha20poly1305 (env_ciphers env) k))"

lemma prim_seals: "prim_ok pr \<Longrightarrow> length n = IVSize \<Longrightarrow> length p < 2 ^ 40 \<Longrightarrow> length a < 2 ^ 40 \<Longrightarrow> \<exists>c. primSeal pr n p a = Some c"
  unfolding prim_ok_def by blast

lemma ocb_prim_ok:
  assumes "ocb_ok oc" "nonceSize oc = IVSize" "tagSize oc = MACSize"
  shows "prim_ok (ocb_prim oc)"
proof -
  have "\<exists>c. primSeal (ocb_prim oc) n p a = Some c \<and> length c = length p + MACSize \<and> primOpen (ocb_prim oc) n c a = Some p"
    if n: "length n = IVSize" "length p < 2 ^ 40" "length a < 2 ^ 40" for n p a
  proof -
    obtain c where c: "Seal oc [] n p a = Inr c" using Seal_total [of n oc "[]" p a] n(1) assms(2) by auto
    have "length p < 2 ^ 63" "length a < 2 ^ 63" using n by simp_all
    from Open_Seal(1) [OF assms(1) this c, of "[]"] Open_Seal(2) [OF assms(1) this c] show ?thesis using c assms(3) by (simp add: ocb_prim_def)
  qed
  then show ?thesis using assms by (auto simp: prim_ok_def ocb_prim_def)
qed

text \<open>Envelopes built for the session keys.\<close>

definition aead_ok :: "aead \<Rightarrow> bool" where
  "aead_ok a \<longleftrightarrow> prim_ok (ae_prim a) \<and> headerLen a = aeadHeaderSize \<and> aadOffset a = 0"

lemma cipherFor_ok: "env_ok env \<Longrightarrow> cipherFor env k sid = Inr c \<Longrightarrow> aead_ok c"
proof -
  assume env: "env_ok env" and c: "cipherFor env k sid = Inr c"
  obtain sk where a: "NewAEAD (env_ciphers env) (ak_suite k) sk aeadHeaderSize 0 = Inr c"
    using c by (auto simp: cipherFor_def bind_res_Inr split: if_splits)
  have "prim_ok (ocb_prim oc)" if "New (aesEncrypt (env_ciphers env) sk) (aesDecrypt (env_ciphers env) sk) 16 = Inr oc" for oc
  proof -
    have perm: "cipher_perm (aesEncrypt (env_ciphers env) sk) (aesDecrypt (env_ciphers env) sk)" using env by (simp add: env_ok_def)
    note n = NewWithSizes_ok [OF that [unfolded New_def] perm]
    show ?thesis by (rule ocb_prim_ok) (use n in \<open>simp_all add: IVSize_def MACSize_def MaxTagSize_def\<close>)
  qed
  then show ?thesis using a env
    by (auto simp: NewAEAD_def bind_res_Inr aead_ok_def env_ok_def split: if_splits suite.splits sum.splits)
qed

lemma cipherFor_total:
  assumes env: "env_ok env" and sid: "length sid = 24"
  shows "\<exists>c. cipherFor env k sid = Inr c"
proof -
  let ?sk = "take KeySize (sha256 (env_hashes env) (cryptKey k @ sid @ sessionDomain k))"
  have sk: "length ?sk = KeySize" using env by (simp add: env_ok_def KeySize_def)
  obtain oc where oc: "New (aesEncrypt (env_ciphers env) ?sk) (aesDecrypt (env_ciphers env) ?sk) 16 = Inr oc"
    by (simp add: New_def NewWithSizes_def Let_def BlockSize_def MaxNonceSize_def MaxTagSize_def)
  have "prim_ok (chacha20poly1305 (env_ciphers env) ?sk)" using env by (simp add: env_ok_def)
  moreover have "nonceSize oc = 12" "tagSize oc = 16"
    using NewWithSizes_ok(2,3) [OF oc [unfolded New_def]] env by (simp_all add: env_ok_def MaxTagSize_def)
  ultimately have "\<exists>c. NewAEAD (env_ciphers env) (ak_suite k) ?sk aeadHeaderSize 0 = Inr c"
    using sk oc by (cases "ak_suite k") (simp_all add: NewAEAD_def ocb_prim_def IVSize_def MACSize_def prim_ok_def)
  then show ?thesis using sid by (simp add: cipherFor_def aeadSessionIDSize_def DeriveKey_def KeySize_def)
qed

lemma blockCount_small: "0 < b \<Longrightarrow> n \<le> 2 ^ 36 \<Longrightarrow> 16 \<le> b \<Longrightarrow> blockCount n b \<le> maxCipherBlocks"
proof -
  assume b: "0 < b" "16 \<le> b" and n: "n \<le> 2 ^ 36"
  have "n \<le> maxCipherBlocks * b" using n mult_le_mono2 [OF b(2), of "2 ^ 32"] by (simp add: maxCipherBlocks_def)
  then have "n + b - 1 < (maxCipherBlocks + 1) * b" using b by (simp add: algebra_simps)
  then have "(n + b - 1) div b < maxCipherBlocks + 1" using b(1) by (simp add: div_less_iff_less_mult)
  then show ?thesis by (simp add: blockCount_def)
qed

lemma aead_dec_enc:
  assumes ok: "aead_ok a" and d: "length d \<le> 2 ^ 35" and ad: "length aad < 2 ^ 39" and e: "aead_Encrypt a iv d header aad = Inr e"
  shows "aead_Decrypt a iv e aad = Inr d" "take aeadHeaderSize e = header" "length e = aeadPayloadOverhead + length d"
proof -
  have iv: "length iv = IVSize" and h: "length header = aeadHeaderSize" using e ok by (auto simp: aead_Encrypt_def aead_ok_def split: if_splits)
  have "length d < 2 ^ 40" using d by simp
  moreover have "length (aad @ header) < 2 ^ 40" using ad h by (simp add: aeadHeaderSize_def)
  ultimately obtain c where c: "primSeal (ae_prim a) iv d (aad @ header) = Some c" "length c = length d + MACSize"
    "primOpen (ae_prim a) iv c (aad @ header) = Some d"
    using ok iv \<open>length d < 2 ^ 40\<close> unfolding aead_ok_def prim_ok_def by blast
  have ee: "e = header @ drop (length d) c @ take (length d) c"
    using e c(1) ok by (auto simp: aead_Encrypt_def aead_ok_def authenticatedData_def Let_def split: if_splits)
  show "take aeadHeaderSize e = header" using h ee by simp
  show len: "length e = aeadPayloadOverhead + length d" using h c(2) ee by (simp add: aeadPayloadOverhead_def)
  have "length e \<le> 2 ^ 36" using len d by (simp add: aeadPayloadOverhead_def aeadHeaderSize_def MACSize_def)
  then have "blockCount (length e) (cipherBlockSize (ae_suite a)) \<le> maxCipherBlocks"
    by (cases "ae_suite a") (auto intro!: blockCount_small)
  moreover have "drop (aeadHeaderSize + MACSize) e @ slice aeadHeaderSize MACSize e = c"
    using h c(2) by (simp add: ee slice_def)
  ultimately show "aead_Decrypt a iv e aad = Inr d"
    using iv len c(3) ok \<open>take aeadHeaderSize e = header\<close>
    by (simp add: aead_Decrypt_def aead_ok_def Let_def authenticatedData_def aeadPayloadOverhead_def)
qed


section \<open>Encrypting and decrypting\<close>

definition same_aead_key :: "aead_key \<Rightarrow> aead_key \<Rightarrow> bool" where
  "same_aead_key k k' \<longleftrightarrow> ak_typeByte k = ak_typeByte k' \<and> ak_suite k = ak_suite k' \<and> sessionDomain k = sessionDomain k'
     \<and> maxSessionBlocks k = maxSessionBlocks k' \<and> cryptKey k = cryptKey k' \<and> ak_idKey k = ak_idKey k' \<and> ak_idHash k = ak_idHash k'"

lemma same_aead_key_refl [simp]: "same_aead_key k k"
  by (simp add: same_aead_key_def)

lemma same_aead_key_trans: "same_aead_key k k' \<Longrightarrow> same_aead_key k' k'' \<Longrightarrow> same_aead_key k k''"
  by (simp add: same_aead_key_def)

lemma cipherFor_same: "same_aead_key k k' \<Longrightarrow> cipherFor env k = cipherFor env k'"
  by (simp add: fun_eq_iff cipherFor_def same_aead_key_def)

text \<open>The current cipher and the cached ones belong to their session ids.\<close>

definition aead_key_inv :: "crypto_env \<Rightarrow> aead_key \<Rightarrow> bool" where
  "aead_key_inv env k \<longleftrightarrow> env_ok env \<and> (\<forall>c. ak_cipher k = Some c \<longrightarrow> cipherFor env k (sessionID k) = Inr c)
     \<and> (\<forall>sid c. (sid, c) \<in> set (sessions k) \<longrightarrow> cipherFor env k sid = Inr c)"

lemma newSession_keeps:
  assumes "aead_key_inv env k" "newSession env k = (r, k')"
  shows "aead_key_inv env k' \<and> same_aead_key k k'"
proof -
  have s: "same_aead_key k k'" using assms(2)
    by (auto simp: newSession_def same_aead_key_def Let_def split: option.splits sum.splits)
  then have c: "cipherFor env k' = cipherFor env k" using cipherFor_same by metis
  have "same_aead_key (k\<lparr>draws := n\<rparr>) k" for n by (simp add: same_aead_key_def)
  then have d: "cipherFor env (k\<lparr>draws := n\<rparr>) = cipherFor env k" for n using cipherFor_same by metis
  have "aead_key_inv env k'" using assms unfolding aead_key_inv_def c
    by (auto simp: newSession_def Let_def d split: option.splits sum.splits)
  with s show ?thesis by blast
qed

lemma reserve_keeps:
  assumes "aead_key_inv env k" "reserve env k n m = (r, k')"
  shows "aead_key_inv env k' \<and> same_aead_key k k'"
proof -
  have upd: "aead_key_inv env (j\<lparr>sessionBlocks := b\<rparr>) = aead_key_inv env j" "aead_key_inv env (j\<lparr>nextIV := i\<rparr>) = aead_key_inv env j"
    "same_aead_key k (j\<lparr>sessionBlocks := b\<rparr>) = same_aead_key k j" "same_aead_key k (j\<lparr>nextIV := i\<rparr>) = same_aead_key k j" for j b i
    by (simp_all add: aead_key_inv_def cipherFor_def same_aead_key_def)
  define s1 where "s1 = (if ak_cipher k = None then newSession env k else (Inr (), k))"
  obtain r1 k1 where k1: "s1 = (r1, k1)" by fastforce
  have i1: "aead_key_inv env k1" "same_aead_key k k1"
    using assms(1) newSession_keeps [OF assms(1)] k1 by (auto simp: s1_def split: if_splits)
  define s2 where "s2 = (if sessionBlocks k1 + messageBlocks n m > maxSessionBlocks k1 then newSession env k1 else (Inr (), k1))"
  obtain r2 k2 where k2: "s2 = (r2, k2)" by fastforce
  have i2: "aead_key_inv env k2" "same_aead_key k k2"
    using i1 newSession_keeps [OF i1(1)] k2 same_aead_key_trans [OF i1(2)] by (auto simp: s2_def split: if_splits)
  show ?thesis using assms(2) i1 i2 unfolding reserve_def s1_def [symmetric] k1 prod.case Let_def s2_def [symmetric] k2
    by (auto simp: upd split: sum.splits if_splits option.splits)
qed

lemma reserve_result:
  assumes "aead_key_inv env k" "reserve env k n m = (Inr (iv, sid, c), k')"
  shows "cipherFor env k sid = Inr c \<and> iv \<le> maxAEADIV"
proof -
  note k = reserve_keeps [OF assms]
  have "ak_cipher k' = Some c \<and> sessionID k' = sid \<and> iv \<le> maxAEADIV" using assms(2)
    by (auto simp: reserve_def Let_def split: prod.splits sum.splits if_splits option.splits)
  then show ?thesis using k cipherFor_same [of k k' env] by (simp add: aead_key_inv_def)
qed

lemma cachedCipherFor_ok:
  assumes "aead_key_inv env k" "cachedCipherFor env k sid = (r, k')"
  shows "aead_key_inv env k' \<and> same_aead_key k k' \<and> r = cipherFor env k sid"
proof -
  have upd: "cipherFor env (k\<lparr>sessions := x\<rparr>) = cipherFor env k" for x by (simp add: cipherFor_def fun_eq_iff)
  show ?thesis using assms
    by (auto simp: cachedCipherFor_def aead_key_inv_def upd same_aead_key_def split: option.splits sum.splits if_splits dest!: map_of_SomeD)
qed

lemma uint48_put: "iv \<le> maxAEADIV \<Longrightarrow> uint48 (putUint48 iv) = iv"
proof -
  assume "iv \<le> maxAEADIV"
  then have iv: "iv < 256 ^ 6" by (simp add: maxAEADIV_def)
  have split: "le_enc (n + m) v = le_enc n v @ le_enc m (v div 256 ^ n)" for n m v
    by (induction n arbitrary: v) (simp_all add: div_mult2_eq mult.commute)
  have "be_enc 8 iv = be_enc 2 (iv div 256 ^ 6) @ be_enc 6 iv" using split [of 6 2 iv] by (simp add: be_enc_def)
  moreover have "be_enc 2 (iv div 256 ^ 6) = [0, 0]" using iv by (simp add: be_enc_def numeral_2_eq_2)
  ultimately have "[0, 0] @ putUint48 iv = be_enc 8 iv" by (simp add: putUint48_def)
  then show ?thesis unfolding uint48_def using iv by (simp only: be_dec_enc) (simp add: mod_less)
qed

lemma ak_dec_enc:
  assumes inv: "aead_key_inv env k" "aead_key_inv env k2" and same: "same_aead_key k k2"
    and len: "length d \<le> 2 ^ 35" "length aad \<le> 1000" "length cid = 32"
    and e: "ak_Encrypt env k cid d aad = (Inr e, k')"
  shows "fst (ak_Decrypt env k2 cid e aad) = Inr d"
proof -
  obtain iv sid c where r: "reserve env k (length d) (length aad + length cid) = (Inr (iv, sid, c), k')"
    and ae: "aead_Encrypt c (nonceFor iv) d ([ak_typeByte k, 0] @ putUint48 iv @ sid) (aad @ cid) = Inr e"
    using e by (auto simp: ak_Encrypt_def Let_def split: prod.splits sum.splits)
  note rr = reserve_result [OF inv(1) r]
  have ok: "aead_ok c" using rr inv(1) cipherFor_ok by (auto simp: aead_key_inv_def)
  note ed = aead_dec_enc [OF ok len(1) _ ae]
  have sid: "length sid = 24" using rr by (auto simp: cipherFor_def aeadSessionIDSize_def split: if_splits)
  have e': "take 32 e = [ak_typeByte k, 0] @ putUint48 iv @ sid" "aead_Decrypt c (nonceFor iv) e (aad @ cid) = Inr d"
      "\<not> length e < aeadPayloadOverhead"
    using ed len by (simp_all add: aeadHeaderSize_def)
  have p6: "length (putUint48 iv) = 6" by (simp add: putUint48_def)
  have "e ! 0 = take 32 e ! 0" "slice 2 6 e = slice 2 6 (take 32 e)" "slice 8 24 e = slice 8 24 (take 32 e)"
    by (simp_all add: slice_def drop_take)
  then have "e ! 0 = ak_typeByte k" "slice 2 6 e = putUint48 iv" "slice 8 24 e = sid"
    unfolding e'(1) using p6 sid by (simp_all add: slice_def)
  moreover have "cipherFor env k2 sid = Inr c" using rr cipherFor_same [OF same] by simp
  moreover obtain r k3 where k3: "cachedCipherFor env k2 sid = (r, k3)" by fastforce
  moreover note cachedCipherFor_ok [OF inv(2) k3]
  ultimately show ?thesis using e' same rr
    by (simp add: ak_Decrypt_def aeadSessionIDSize_def uint48_put same_aead_key_def)
qed

lemma ak_length:
  assumes "aead_key_inv env k" "length d \<le> 2 ^ 35" "length aad \<le> 1000" "length cid = 32" "ak_Encrypt env k cid d aad = (Inr e, k')"
  shows "length e = 48 + length d"
proof -
  obtain iv sid c where r: "reserve env k (length d) (length aad + length cid) = (Inr (iv, sid, c), k')"
    and ae: "aead_Encrypt c (nonceFor iv) d ([ak_typeByte k, 0] @ putUint48 iv @ sid) (aad @ cid) = Inr e"
    using assms(5) by (auto simp: ak_Encrypt_def Let_def split: prod.splits sum.splits)
  have ok: "aead_ok c" using reserve_result [OF assms(1) r] assms(1) cipherFor_ok by (auto simp: aead_key_inv_def)
  show ?thesis using aead_dec_enc(3) [OF ok assms(2) _ ae] assms by (simp add: aeadPayloadOverhead_def aeadHeaderSize_def MACSize_def)
qed

lemma ak_keeps:
  assumes "aead_key_inv env k"
  shows "ak_Encrypt env k cid d aad = (r, k') \<Longrightarrow> aead_key_inv env k' \<and> same_aead_key k k'"
    and "ak_Decrypt env k cid e aad = (r', k'') \<Longrightarrow> aead_key_inv env k'' \<and> same_aead_key k k''"
  using reserve_keeps [OF assms] cachedCipherFor_ok [OF assms] assms
  by (auto simp: ak_Encrypt_def ak_Decrypt_def Let_def split: prod.splits sum.splits if_splits)

interpretation aead: repo_key "ak_Encrypt env" "ak_Decrypt env" ak_IDHash "aead_key_inv env" same_aead_key for env
proof unfold_locales
  show "same_aead_key k k' \<Longrightarrow> ak_IDHash k = ak_IDHash k'" for k k'
    by (simp add: same_aead_key_def ak_IDHash_def fun_eq_iff)
  show "same_aead_key k k' \<Longrightarrow> same_aead_key k' k" for k k' by (simp add: same_aead_key_def)
  show "length e \<le> length d + 1000" if "aead_key_inv env k" "length d \<le> 2 ^ 30" "length aad \<le> 1000" "length cid = 32"
    "ak_Encrypt env k cid d aad = (Inr e, k')" for k cid d aad e k'
    using ak_length [OF that(1) _ _ _ that(5)] that by simp
qed (auto simp: ak_dec_enc dest: ak_keeps same_aead_key_trans)

lemma newAEADKey_inv: "newAEADKey t su sd mb ck ik ih = Inr k \<Longrightarrow> env_ok env \<Longrightarrow> aead_key_inv env k"
  by (auto simp: newAEADKey_def aead_key_inv_def split: if_splits)


section \<open>Nonces\<close>

text \<open>The session id and message counter of every successful \<open>reserve\<close>, for any sequence of messages
  (given by the lengths of payload and associated data). \<open>reserve\<close> runs under the mutex, so every
  interleaving of concurrent writers is such a sequence.\<close>

fun used_nonces :: "crypto_env \<Rightarrow> aead_key \<Rightarrow> (nat \<times> nat) list \<Rightarrow> (bytes \<times> nat) list" where
  "used_nonces env k [] = []"
| "used_nonces env k ((n, m) # ms) =
     (case reserve env k n m of
        (Inl _, k') \<Rightarrow> used_nonces env k' ms
      | (Inr (iv, sid, _), k') \<Rightarrow> (sid, iv) # used_nonces env k' ms)"

definition rnd_distinct :: "crypto_env \<Rightarrow> bool" where
  "rnd_distinct env \<longleftrightarrow> (\<forall>i j s. env_rnd env i = Some s \<longrightarrow> env_rnd env j = Some s \<longrightarrow> i = j)"

definition nonce_inv :: "crypto_env \<Rightarrow> (bytes \<times> nat) set \<Rightarrow> aead_key \<Rightarrow> bool" where
  "nonce_inv env used k \<longleftrightarrow> (\<forall>sid iv. (sid, iv) \<in> used \<longrightarrow> (\<exists>i<draws k. env_rnd env i = Some sid)
     \<and> ak_cipher k \<noteq> None \<and> (sid = sessionID k \<longrightarrow> iv < nextIV k))
     \<and> (ak_cipher k \<noteq> None \<longrightarrow> (\<exists>i<draws k. env_rnd env i = Some (sessionID k)))"

lemma newSession_nonces:
  assumes "rnd_distinct env" "nonce_inv env used k" "newSession env k = (r, k')"
  shows "nonce_inv env used k'" "r = Inr () \<longrightarrow> ak_cipher k' \<noteq> None"
proof -
  have fresh: "sid \<noteq> s" if s: "env_rnd env (draws k) = Some s" and u: "(sid, iv) \<in> used" for sid iv s
  proof -
    have "\<exists>i<draws k. env_rnd env i = Some sid" using assms(2) u by (auto simp: nonce_inv_def)
    then show ?thesis using assms(1) s by (auto simp: rnd_distinct_def)
  qed
  have old: "\<exists>i<Suc (draws k). env_rnd env i = Some sid" if "(sid, iv) \<in> used" for sid iv
  proof -
    have "\<exists>i<draws k. env_rnd env i = Some sid" using assms(2) that by (auto simp: nonce_inv_def)
    then show ?thesis using less_SucI by blast
  qed
  show "nonce_inv env used k'"
  proof (cases "\<exists>c s. env_rnd env (draws k) = Some s \<and> cipherFor env (k\<lparr>draws := Suc (draws k)\<rparr>) s = Inr c")
    case True
    then obtain c s where "env_rnd env (draws k) = Some s"
      "k' = k\<lparr>draws := Suc (draws k), sessionID := s, ak_cipher := Some c, nextIV := 1, sessionBlocks := 0\<rparr>"
      using assms(3) by (auto simp: newSession_def Let_def)
    then show ?thesis using fresh old by (fastforce simp: nonce_inv_def)
  next
    case False
    then have "k' = k\<lparr>draws := Suc (draws k)\<rparr>" using assms(3) by (auto simp: newSession_def Let_def split: option.splits sum.splits)
    then show ?thesis using assms(2) old by (auto simp: nonce_inv_def intro: less_SucI)
  qed
  show "r = Inr () \<longrightarrow> ak_cipher k' \<noteq> None"
    using assms(3) by (auto simp: newSession_def Let_def split: option.splits sum.splits)
qed

lemma reserve_nonces:
  assumes rnd: "rnd_distinct env" and inv: "nonce_inv env used k" and r: "reserve env k n m = (res, k')"
  shows "case res of Inl _ \<Rightarrow> nonce_inv env used k' | Inr (iv, sid, _) \<Rightarrow> (sid, iv) \<notin> used \<and> nonce_inv env (insert (sid, iv) used) k' \<and> iv \<le> maxAEADIV"
proof -
  have upd: "nonce_inv env used (j\<lparr>sessionBlocks := b\<rparr>) = nonce_inv env used j"
    "nonce_inv env u (j\<lparr>sessionBlocks := b, nextIV := i\<rparr>) = nonce_inv env u (j\<lparr>nextIV := i\<rparr>)" for j b i u
    by (simp_all add: nonce_inv_def)
  have fin: "(sessionID j, nextIV j) \<notin> used \<and> nonce_inv env (insert (sessionID j, nextIV j) used) (j\<lparr>nextIV := Suc (nextIV j)\<rparr>)"
    if "nonce_inv env used j" "ak_cipher j = Some c" for j c
    using that by (fastforce simp: nonce_inv_def less_Suc_eq)
  define s1 where "s1 = (if ak_cipher k = None then newSession env k else (Inr (), k))"
  obtain r1 k1 where k1: "s1 = (r1, k1)" by fastforce
  have i1: "nonce_inv env used k1" using inv newSession_nonces(1) [OF rnd inv] k1 by (auto simp: s1_def split: if_splits)
  define s2 where "s2 = (if sessionBlocks k1 + messageBlocks n m > maxSessionBlocks k1 then newSession env k1 else (Inr (), k1))"
  obtain r2 k2 where k2: "s2 = (r2, k2)" by fastforce
  have i2: "nonce_inv env used k2" using i1 newSession_nonces(1) [OF rnd i1] k2 by (auto simp: s2_def split: if_splits)
  show ?thesis using r i1 i2 unfolding reserve_def s1_def [symmetric] k1 prod.case Let_def s2_def [symmetric] k2
    by (auto simp: upd fin not_less split: sum.splits if_splits option.splits)
qed

lemma used_nonces_fresh:
  assumes "rnd_distinct env" "nonce_inv env used k"
  shows "distinct (used_nonces env k ms) \<and> set (used_nonces env k ms) \<inter> used = {} \<and> (\<forall>sid iv. (sid, iv) \<in> set (used_nonces env k ms) \<longrightarrow> iv \<le> maxAEADIV)"
  using assms(2)
proof (induction ms arbitrary: k used)
  case (Cons p ms)
  obtain n m where p: "p = (n, m)" by fastforce
  obtain res k' where r: "reserve env k n m = (res, k')" by fastforce
  show ?case
  proof (cases res)
    case (Inl e)
    then show ?thesis using reserve_nonces [OF assms(1) Cons.prems r] Cons.IH [of used k'] r p by simp
  next
    case (Inr x)
    obtain iv sid c where "x = (iv, sid, c)" by (cases x)
    then show ?thesis using reserve_nonces [OF assms(1) Cons.prems r] Cons.IH [of "insert (sid, iv) used" k'] r p Inr by auto
  qed
qed simp

lemma nonceFor_inj: "iv \<le> maxAEADIV \<Longrightarrow> iv' \<le> maxAEADIV \<Longrightarrow> nonceFor iv = nonceFor iv' \<Longrightarrow> iv = iv'"
proof -
  assume iv: "iv \<le> maxAEADIV" "iv' \<le> maxAEADIV" and "nonceFor iv = nonceFor iv'"
  then have "be_dec (be_enc 8 iv) = be_dec (be_enc 8 iv')" by (simp add: nonceFor_def)
  moreover have "iv < 256 ^ 8" "iv' < 256 ^ 8" using iv by (simp_all add: maxAEADIV_def)
  ultimately show ?thesis by (simp add: be_dec_enc mod_less)
qed

text \<open>C3. No nonce is used twice under one session key: however many messages a key encrypts, and however
  its session rotates, the pairs of session id and cipher nonce it hands out are all different, as
  long as the random source does not repeat a session id.\<close>

theorem nonces_never_repeat:
  assumes "newAEADKey t su sd mb ck ik ih = Inr k" "rnd_distinct env"
  shows "distinct (map (\<lambda>(sid, iv). (sid, nonceFor iv)) (used_nonces env k ms))"
proof -
  have "nonce_inv env {} k" using assms(1) by (auto simp: newAEADKey_def nonce_inv_def split: if_splits)
  note u = used_nonces_fresh [OF assms(2) this, of ms]
  then have "inj_on (\<lambda>(sid, iv). (sid, nonceFor iv)) (set (used_nonces env k ms))"
    by (intro inj_onI) (auto intro!: nonceFor_inj)
  with u show ?thesis by (simp add: distinct_map)
qed


text \<open>A random source and ciphers to instantiate the statements with: the identity as the block
  cipher, an appended constant tag, and the counter itself as the session id.\<close>

definition toy_env :: crypto_env where
  "toy_env = \<lparr>env_hashes = \<lparr>sha256 = (\<lambda>b. take 32 (b @ replicate 32 0)), hmac_sha256 = (\<lambda>_ b. b), blake3 = (\<lambda>b. b), blake3_keyed = (\<lambda>_ b. b)\<rparr>,
     env_ciphers = \<lparr>aesEncrypt = (\<lambda>_ b. b), aesDecrypt = (\<lambda>_ b. b),
       chacha20poly1305 = (\<lambda>_. \<lparr>primSeal = (\<lambda>_ p _. Some (p @ replicate 16 0)), primOpen = (\<lambda>_ c _. Some (take (length c - 16) c)),
         NonceSize = 12, Overhead = 16\<rparr>)\<rparr>,
     env_rnd = (\<lambda>i. if i < 256 then Some (replicate 24 (word_of_nat i)) else None)\<rparr>"

lemma toy_env_ok: "env_ok toy_env" "rnd_distinct toy_env"
proof -
  show "env_ok toy_env" by (auto simp: env_ok_def toy_env_def cipher_perm_def prim_ok_def IVSize_def MACSize_def)
  have "(word_of_nat i :: byte) = word_of_nat j \<longleftrightarrow> i = j" if "i < 256" "j < 256" for i j
    using that by (simp add: word_of_nat_eq_iff take_bit_eq_mod)
  then show "rnd_distinct toy_env" by (auto simp: rnd_distinct_def toy_env_def)
qed


theorem nonces_never_repeat_witness:
  "\<exists>k. NewCHPO (env_hashes toy_env) (replicate 64 1) (replicate 32 2) = Inr k
    \<and> distinct (map (\<lambda>(sid, iv). (sid, nonceFor iv)) (used_nonces toy_env k [(10, 3), (0, 0), (7, 7)]))"
proof -
  obtain k where k: "NewCHPO (env_hashes toy_env) (replicate 64 1) (replicate 32 2) = Inr k"
    by (simp add: NewCHPO_def newAEADKey_def)
  from nonces_never_repeat [OF k [unfolded NewCHPO_def] toy_env_ok(2)] k show ?thesis by blast
qed

section \<open>The data budget of a session\<close>

definition budget_inv :: "aead_key \<Rightarrow> bool" where
  "budget_inv k \<longleftrightarrow> 4 * (int (nextIV k) - 1) \<le> sessionBlocks k \<and> sessionBlocks k \<le> maxSessionBlocks k"

lemma messageBlocks_ge: "4 \<le> messageBlocks n m"
  by (simp add: messageBlocks_def aeadHeaderSize_def)

lemma newSession_budget:
  assumes "budget_inv k" "0 \<le> maxSessionBlocks k" "newSession env k = (r, k')"
  shows "budget_inv k' \<and> maxSessionBlocks k' = maxSessionBlocks k \<and> (r = Inr () \<longrightarrow> sessionBlocks k' = 0 \<and> nextIV k' = 1 \<and> ak_cipher k' \<noteq> None)"
  using assms by (auto simp: newSession_def budget_inv_def Let_def split: option.splits sum.splits)

lemma reserve_budget:
  assumes inv: "budget_inv k" and mb: "0 < maxSessionBlocks k" "maxSessionBlocks k \<le> 2 ^ 37" and msg: "messageBlocks n m \<le> maxSessionBlocks k"
    and r: "reserve env k n m = (res, k')"
  shows "budget_inv k' \<and> maxSessionBlocks k' = maxSessionBlocks k \<and> res \<noteq> Inl CounterOverflow"
proof -
  define s1 where "s1 = (if ak_cipher k = None then newSession env k else (Inr (), k))"
  obtain r1 k1 where k1: "s1 = (r1, k1)" by fastforce
  have i1: "budget_inv k1" "maxSessionBlocks k1 = maxSessionBlocks k" "r1 = Inr () \<longrightarrow> ak_cipher k1 \<noteq> None"
    using inv mb newSession_budget [OF inv, of env] k1 by (auto simp: s1_def split: if_splits)
  define b where "b = messageBlocks n m"
  define s2 where "s2 = (if sessionBlocks k1 + b > maxSessionBlocks k1 then newSession env k1 else (Inr (), k1))"
  obtain r2 k2 where k2: "s2 = (r2, k2)" by fastforce
  have i2: "budget_inv k2" "maxSessionBlocks k2 = maxSessionBlocks k"
    "r1 = Inr () \<and> r2 = Inr () \<longrightarrow> ak_cipher k2 \<noteq> None \<and> sessionBlocks k2 + b \<le> maxSessionBlocks k"
    using i1 mb msg newSession_budget [OF i1(1), of env] k2 by (auto simp: s2_def b_def split: if_splits)
  have b4: "4 \<le> b" using messageBlocks_ge by (simp add: b_def)
  have fin: "nextIV k2 \<le> maxAEADIV" "budget_inv (k2\<lparr>sessionBlocks := sessionBlocks k2 + b, nextIV := Suc (nextIV k2)\<rparr>)"
    if "r1 = Inr ()" "r2 = Inr ()"
    using that i2 b4 mb(2) by (auto simp: budget_inv_def maxAEADIV_def)
  have e: "newSession env j \<noteq> (Inl CounterOverflow, j')" for j j'
    by (auto simp: newSession_def cipherFor_def NewAEAD_def DeriveKey_def bind_res_def Let_def split: option.splits sum.splits if_splits suite.splits)
  then have "r1 \<noteq> Inl CounterOverflow" "r2 \<noteq> Inl CounterOverflow" using k1 k2 by (auto simp: s1_def s2_def split: if_splits)
  then show ?thesis using r i1 i2 mb fin unfolding reserve_def s1_def [symmetric] k1 prod.case Let_def b_def [symmetric] s2_def [symmetric] k2
    by (auto split: sum.splits if_splits option.splits)
qed


fun reserve_run :: "crypto_env \<Rightarrow> aead_key \<Rightarrow> (nat \<times> nat) list \<Rightarrow> (key_error + nat \<times> bytes \<times> aead) list \<times> aead_key" where
  "reserve_run env k [] = ([], k)"
| "reserve_run env k ((n, m) # ms) = (case reserve env k n m of (r, k') \<Rightarrow> map_prod ((#) r) id (reserve_run env k' ms))"

lemma reserve_run_budget:
  assumes "budget_inv k" "0 < maxSessionBlocks k" "maxSessionBlocks k \<le> 2 ^ 37" "\<forall>(n, m)\<in>set ms. messageBlocks n m \<le> maxSessionBlocks k"
    "reserve_run env k ms = (rs, k')"
  shows "budget_inv k' \<and> maxSessionBlocks k' = maxSessionBlocks k \<and> Inl CounterOverflow \<notin> set rs"
  using assms
proof (induction ms arbitrary: k rs)
  case (Cons p ms)
  obtain n m where p: "p = (n, m)" by fastforce
  obtain r k1 where r: "reserve env k n m = (r, k1)" by fastforce
  obtain qs where qs: "reserve_run env k1 ms = (qs, k')" "rs = r # qs"
    using Cons.prems(5) r p by (cases "reserve_run env k1 ms") auto
  have "messageBlocks n m \<le> maxSessionBlocks k" using Cons.prems(4) p by simp
  from reserve_budget [OF Cons.prems(1-3) this r] Cons.IH [of k1 qs] Cons.prems qs show ?case by auto
qed simp

text \<open>While the random source works, a message that fits in the budget is always encrypted.\<close>

definition rnd_ready :: "crypto_env \<Rightarrow> nat \<Rightarrow> bool" where
  "rnd_ready env i \<longleftrightarrow> (\<exists>s. env_rnd env i = Some s \<and> length s = aeadSessionIDSize)"

lemma newSession_total:
  assumes "env_ok env" "rnd_ready env (draws k)"
  shows "\<exists>c k'. newSession env k = (Inr (), k') \<and> ak_cipher k' = Some c \<and> draws k' = Suc (draws k)"
proof -
  obtain s where s: "env_rnd env (draws k) = Some s" "length s = 24" using assms(2) by (auto simp: rnd_ready_def aeadSessionIDSize_def)
  obtain c where "cipherFor env (k\<lparr>draws := Suc (draws k)\<rparr>) s = Inr c" using cipherFor_total [OF assms(1) s(2)] by blast
  with s(1) show ?thesis by (simp add: newSession_def)
qed

lemma reserve_total:
  assumes inv: "aead_key_inv env k" "budget_inv k" and mb: "0 < maxSessionBlocks k" "maxSessionBlocks k \<le> 2 ^ 37" "messageBlocks n m \<le> maxSessionBlocks k"
    and rnd: "rnd_ready env (draws k)" "rnd_ready env (Suc (draws k))"
  shows "\<exists>iv sid c k'. reserve env k n m = (Inr (iv, sid, c), k') \<and> draws k' \<in> {draws k..draws k + 2}"
proof -
  obtain res k' where r: "reserve env k n m = (res, k')" by fastforce
  have env: "env_ok env" using inv(1) by (simp add: aead_key_inv_def)
  note no = reserve_budget [OF inv(2) mb r]
  define s1 where "s1 = (if ak_cipher k = None then newSession env k else (Inr (), k))"
  obtain c1 k1 where k1: "s1 = (Inr (), k1)" "ak_cipher k1 = Some c1" "draws k1 = draws k \<or> draws k1 = Suc (draws k)"
    using newSession_total [OF env rnd(1)] by (cases "ak_cipher k") (auto simp: s1_def)
  define b where "b = messageBlocks n m"
  define s2 where "s2 = (if sessionBlocks k1 + b > maxSessionBlocks k1 then newSession env k1 else (Inr (), k1))"
  have "rnd_ready env (draws k1)" using k1(3) rnd by auto
  from newSession_total [OF env this] obtain c2 k2 where k2: "s2 = (Inr (), k2)" "ak_cipher k2 = Some c2" "draws k2 \<in> {draws k..draws k + 2}"
    using k1 by (cases "sessionBlocks k1 + b > maxSessionBlocks k1") (auto simp: s2_def)
  show ?thesis using no r k1(2) k2 unfolding r reserve_def s1_def [symmetric] k1(1) prod.case sum.case Let_def b_def [symmetric] s2_def [symmetric] k2(1)
    by (auto simp: k1(3) split: if_splits) (use k1(3) in linarith)+
qed



lemma aead_Encrypt_total:
  assumes ok: "aead_ok c" and len: "length iv = IVSize" "length d \<le> 2 ^ 35" "length header = aeadHeaderSize" "length aad \<le> 2 ^ 35"
  shows "\<exists>e. aead_Encrypt c iv d header aad = Inr e"
proof -
  have "length d \<le> 2 ^ 36" using len(2) by simp
  then have "blockCount (length d) (cipherBlockSize (ae_suite c)) \<le> maxCipherBlocks"
    by (cases "ae_suite c") (auto intro!: blockCount_small)
  moreover obtain s where "primSeal (ae_prim c) iv d (aad @ header) = Some s"
    using prim_seals [of "ae_prim c" iv d "aad @ header"] ok len by (auto simp: aead_ok_def aeadHeaderSize_def)
  ultimately show ?thesis using ok len by (simp add: aead_Encrypt_def aead_ok_def authenticatedData_def)
qed

definition sound_key :: "crypto_env \<Rightarrow> aead_key \<Rightarrow> bool" where
  "sound_key env k \<longleftrightarrow> aead_key_inv env k \<and> budget_inv k \<and> maxSessionBlocks k = aesOCBMaxSessionBlocks"

lemma messageBlocks_small: "n \<le> 2 ^ 30 \<Longrightarrow> m \<le> 2000 \<Longrightarrow> messageBlocks n m \<le> aesOCBMaxSessionBlocks"
  by (simp add: messageBlocks_def aeadHeaderSize_def aesOCBMaxSessionBlocks_def)

lemma ak_Encrypt_total:
  assumes k: "sound_key env k" and rnd: "rnd_ready env (draws k)" "rnd_ready env (Suc (draws k))"
    and len: "length d \<le> 2 ^ 30" "length aad \<le> 1000" "length cid = 32"
  shows "\<exists>e k'. ak_Encrypt env k cid d aad = (Inr e, k') \<and> sound_key env k' \<and> same_aead_key k k' \<and> draws k' \<in> {draws k..draws k + 2}"
proof -
  have inv: "aead_key_inv env k" "budget_inv k" "0 < maxSessionBlocks k" "maxSessionBlocks k \<le> 2 ^ 37"
    using k by (simp_all add: sound_key_def aesOCBMaxSessionBlocks_def)
  have mb: "messageBlocks (length d) (length aad + length cid) \<le> maxSessionBlocks k"
    using messageBlocks_small len k by (simp add: sound_key_def)
  from reserve_total [OF inv mb rnd] obtain iv sid c k'
    where r: "reserve env k (length d) (length aad + length cid) = (Inr (iv, sid, c), k')" and dr: "draws k' \<in> {draws k..draws k + 2}" by blast
  note rr = reserve_result [OF inv(1) r]
  have ok: "aead_ok c" using rr inv(1) cipherFor_ok by (auto simp: aead_key_inv_def)
  have "length sid = 24" using rr by (auto simp: cipherFor_def aeadSessionIDSize_def split: if_splits)
  then have "length ([ak_typeByte k, 0] @ putUint48 iv @ sid) = aeadHeaderSize" by (simp add: putUint48_def aeadHeaderSize_def)
  moreover have "length (nonceFor iv) = IVSize" by (simp add: nonceFor_def IVSize_def)
  ultimately obtain e where "aead_Encrypt c (nonceFor iv) d ([ak_typeByte k, 0] @ putUint48 iv @ sid) (aad @ cid) = Inr e"
    using aead_Encrypt_total [OF ok, of "nonceFor iv" d "[ak_typeByte k, 0] @ putUint48 iv @ sid" "aad @ cid"] len by fastforce
  then have "ak_Encrypt env k cid d aad = (Inr e, k')" using r by (simp add: ak_Encrypt_def)
  moreover have "sound_key env k'" "same_aead_key k k'"
    using reserve_keeps [OF inv(1) r] reserve_budget [OF inv(2-4) mb r] k by (auto simp: sound_key_def)
  ultimately show ?thesis using dr by blast
qed

lemma NewAESOCB_sound: "env_ok env \<Longrightarrow> NewAESOCB h ck ik = Inr k \<Longrightarrow> sound_key env k \<and> draws k = 0"
  using newAEADKey_inv [of TypeAESOCB SuiteAESOCB sessionDomainAESOCB aesOCBMaxSessionBlocks ck ik _ k env]
  by (auto simp: NewAESOCB_def newAEADKey_def sound_key_def budget_inv_def aesOCBMaxSessionBlocks_def split: if_splits)

lemma reserve_run_sound:
  "sound_key env k \<Longrightarrow> \<forall>(n, m)\<in>set ms. messageBlocks n m \<le> aesOCBMaxSessionBlocks \<Longrightarrow> reserve_run env k ms = (rs, k') \<Longrightarrow> sound_key env k' \<and> same_aead_key k k'"
proof (induction ms arbitrary: k rs)
  case (Cons p ms)
  obtain n m where p: "p = (n, m)" by fastforce
  obtain r k1 where r: "reserve env k n m = (r, k1)" by fastforce
  obtain qs where "reserve_run env k1 ms = (qs, k')" using Cons.prems(3) r p by (cases "reserve_run env k1 ms") auto
  moreover have "messageBlocks n m \<le> maxSessionBlocks k" "0 < maxSessionBlocks k" "maxSessionBlocks k \<le> 2 ^ 37"
    using Cons.prems(1,2) p by (simp_all add: sound_key_def aesOCBMaxSessionBlocks_def)
  then have "sound_key env k1" "same_aead_key k k1"
    using Cons.prems(1) reserve_keeps [OF _ r] reserve_budget [OF _ _ _ _ r] by (simp_all add: sound_key_def)
  moreover have "\<forall>(n, m)\<in>set ms. messageBlocks n m \<le> aesOCBMaxSessionBlocks" using Cons.prems(2) by simp
  ultimately have "sound_key env k'" "same_aead_key k1 k'" using Cons.IH by blast+
  with \<open>same_aead_key k k1\<close> show ?case using same_aead_key_trans by blast
qed simp



end
