(* ===== verification/Repo_Object.thy ===== *)
theory Repo_Object
  imports Msgpack Compress Aead_Key
begin

text \<open>
  Repository objects, \<^verbatim>\<open>src/internal/repoobj/repoobj.go\<close>: the \<^verbatim>\<open>BORG_OBJ\<close> envelope with its metadata
  and data slots, for any key. The key is given by its operations (\<open>key_ops\<close>); what is proved uses
  only the laws of the locale \<open>repo_key\<close>, which the keys of \<open>Mac_Key\<close> and \<open>Aead_Key\<close> satisfy.
  \<open>Decompress\<close> may try ever larger buffers, so parsing returns an option.
\<close>

section \<open>Constants and types\<close>

text \<open>The bytes of an ASCII literal.\<close>

definition str :: "string \<Rightarrow> bytes" where "str s = map of_char s"
definition of_str :: "bytes \<Rightarrow> string" where "of_str b = map (\<lambda>x. char_of (unat x)) b"

definition Magic :: bytes where "Magic = str ''BORG_OBJ''"
definition VersionNoHeaderAAD :: byte where "VersionNoHeaderAAD = 0x01"
definition VersionHeaderAAD :: byte where "VersionHeaderAAD = 0x02"
definition Version :: byte where "Version = VersionHeaderAAD"
definition HeaderSize :: nat where "HeaderSize = 8 + 1 + 32 + 4 + 4"
definition HeaderAADSize :: nat where "HeaderAADSize = 8 + 1 + 32"
definition metaAADTag :: bytes where "metaAADTag = str ''M''"
definition dataAADTag :: bytes where "dataAADTag = str ''D''"

definition TypeManifest :: string where "TypeManifest = ''M''"
definition TypeArchiveMeta :: string where "TypeArchiveMeta = ''A''"
definition TypeArchiveChunkIDs :: string where "TypeArchiveChunkIDs = ''C''"
definition TypeArchiveStream :: string where "TypeArchiveStream = ''S''"
definition TypeFileStream :: string where "TypeFileStream = ''F''"
definition TypeDontCare :: string where "TypeDontCare = ''*''"

definition PlaceRead :: string where "PlaceRead = ''read''"
definition PlaceRepair :: string where "PlaceRepair = ''repair''"
definition PlaceTransfer :: string where "PlaceTransfer = ''transfer''"
definition PlaceRechunk :: string where "PlaceRechunk = ''rechunk''"
definition PlaceVerifyData :: string where "PlaceVerifyData = ''verify_data''"

definition defaultAssertIDPlaces :: "string list" where
  "defaultAssertIDPlaces = [PlaceRepair, PlaceTransfer, PlaceRechunk]"

datatype ro_error =
    BadIdSize | NoMeta | NoConcreteType | DataTooLarge | NeedsPlaintextSize | NothingToReturn
  | ObjectTooSmall | BadMagic | BadVersion | SizeInconsistent | WrongType | MetaNotMsgpack | MetaNotMap | MetaHasNoType
  | NoKey | KeyFailed key_error | CompressionFailed comp_error | PackFailed mp_error | UnknownPlace string | VerifyDataNotConfigurable

text \<open>\<open>Meta\<close> embeds the metadata of the compression layer, which has a \<open>Type\<close> of its own.\<close>

record rmeta =
  rm_comp :: cmeta
  rm_Type :: string

record 'k key_ops =
  key_Encrypt :: "'k \<Rightarrow> bytes \<Rightarrow> bytes \<Rightarrow> bytes \<Rightarrow> (key_error + bytes) \<times> 'k"
  key_Decrypt :: "'k \<Rightarrow> bytes \<Rightarrow> bytes \<Rightarrow> bytes \<Rightarrow> (key_error + bytes) \<times> 'k"
  key_IDHash :: "'k \<Rightarrow> bytes \<Rightarrow> bytes option"
  key_IDCheckIsAuthentication :: "'k \<Rightarrow> bool"

record 'k repo_obj =
  ro_key :: 'k
  ro_compressor :: compressor
  assertIDPlaces :: "string list"
  assertIDPlace :: string

section \<open>The policy for checking ids\<close>

fun readPlaces :: "string list \<Rightarrow> ro_error + string list" where
  "readPlaces [] = Inr []"
| "readPlaces (f # fs) =
     (let p = TrimSpace f in
      if p = [] then readPlaces fs
      else if p \<in> {PlaceRead, PlaceRepair, PlaceTransfer, PlaceRechunk} then bind_res (readPlaces fs) (\<lambda>ps. Inr (p # ps))
      else if p = PlaceVerifyData then Inl VerifyDataNotConfigurable
      else Inl (UnknownPlace p))"

text \<open>The two environment variables, \<open>None\<close> when unset.\<close>

definition assertIDPlacesFromEnv :: "string option \<Rightarrow> string option \<Rightarrow> ro_error + string list" where
  "assertIDPlacesFromEnv borge borg =
     (case (if borge \<noteq> None then borge else borg) of
        None \<Rightarrow> Inr defaultAssertIDPlaces
      | Some v \<Rightarrow> readPlaces (Split CHR '','' v))"

definition New_RepoObj :: "string option \<Rightarrow> string option \<Rightarrow> 'k option \<Rightarrow> ro_error + 'k repo_obj" where
  "New_RepoObj borge borg key =
     (case key of
        None \<Rightarrow> Inl NoKey
      | Some k \<Rightarrow> bind_res (assertIDPlacesFromEnv borge borg) (\<lambda>places.
          Inr \<lparr>ro_key = k, ro_compressor = CLZ4, assertIDPlaces = places, assertIDPlace = PlaceRead\<rparr>))"

definition SetCompressor :: "'k repo_obj \<Rightarrow> compressor \<Rightarrow> 'k repo_obj" where
  "SetCompressor r c = r\<lparr>ro_compressor := c\<rparr>"

definition SetAssertIDPlace :: "'k repo_obj \<Rightarrow> string \<Rightarrow> ro_error + 'k repo_obj" where
  "SetAssertIDPlace r place =
     (if place \<in> {PlaceRead, PlaceRepair, PlaceTransfer, PlaceRechunk, PlaceVerifyData}
      then Inr (r\<lparr>assertIDPlace := place\<rparr>) else Inl (UnknownPlace place))"

definition shouldAssertID :: "'k key_ops \<Rightarrow> 'k repo_obj \<Rightarrow> string \<Rightarrow> bool" where
  "shouldAssertID ops r place =
     (let place' = (if place = [] then assertIDPlace r else place) in
      if key_IDCheckIsAuthentication ops (ro_key r) then True
      else if place' = PlaceVerifyData then True
      else place' \<in> set (assertIDPlaces r))"

section \<open>Metadata\<close>

text \<open>Every \<open>Set\<close> is on a key that is not there yet and appends.\<close>

definition int_entry :: "string \<Rightarrow> int \<Rightarrow> mp_value \<times> mp_value" where
  "int_entry k n = (VStr (str k), VInt (word_of_int n))"

definition opt_entry :: "string \<Rightarrow> int option \<Rightarrow> mp_entries" where
  "opt_entry k n = (case n of None \<Rightarrow> [] | Some v \<Rightarrow> [int_entry k v])"

definition metaToMap :: "rmeta \<Rightarrow> mp_value" where
  "metaToMap meta = VMap False
     ([(VStr (str ''type''), VStr (str (rm_Type meta)))]
      @ opt_entry ''size'' (cm_Size (rm_comp meta))
      @ [int_entry ''ctype'' (uint (CType (rm_comp meta))), int_entry ''clevel'' (uint (CLevel (rm_comp meta))),
         int_entry ''csize'' (CSize (rm_comp meta))]
      @ opt_entry ''psize'' (PSize (rm_comp meta))
      @ opt_entry ''olevel'' (OLevel (rm_comp meta)))"

definition metaFromBytes :: "bytes \<Rightarrow> ro_error + rmeta" where
  "metaFromBytes packed =
     (case Unmarshal packed of
        Inl _ \<Rightarrow> Inl MetaNotMsgpack
      | Inr (VMap _ m) \<Rightarrow>
          (case GetString m (str ''type'') of
             None \<Rightarrow> Inl MetaHasNoType
           | Some t \<Rightarrow> Inr \<lparr>rm_comp = \<lparr>cm_Type = [], cm_Size = map_option sint (GetInt m (str ''size'')),
                 CType = (case GetInt m (str ''ctype'') of None \<Rightarrow> 0 | Some n \<Rightarrow> ucast n),
                 CLevel = (case GetInt m (str ''clevel'') of None \<Rightarrow> 0 | Some n \<Rightarrow> ucast n),
                 CSize = (case GetInt m (str ''csize'') of None \<Rightarrow> 0 | Some n \<Rightarrow> sint n),
                 PSize = map_option sint (GetInt m (str ''psize'')),
                 OLevel = map_option sint (GetInt m (str ''olevel''))\<rparr>, rm_Type = of_str t\<rparr>)
      | Inr _ \<Rightarrow> Inl MetaNotMap)"

section \<open>Writing objects\<close>

definition headerAAD :: "bytes \<Rightarrow> bytes" where
  "headerAAD cid = Magic @ [Version] @ cid"

definition assemble :: "'k key_ops \<Rightarrow> 'k repo_obj \<Rightarrow> bytes \<Rightarrow> rmeta \<Rightarrow> bytes \<Rightarrow> (ro_error + bytes) \<times> 'k repo_obj" where
  "assemble ops r cid meta compressed =
     (let aad = headerAAD cid in
      case key_Encrypt ops (ro_key r) cid compressed (aad @ dataAADTag) of
        (Inl e, k1) \<Rightarrow> (Inl (KeyFailed e), r\<lparr>ro_key := k1\<rparr>)
      | (Inr dataEncrypted, k1) \<Rightarrow>
          (case Marshal (metaToMap meta) of
             Inl e \<Rightarrow> (Inl (PackFailed e), r\<lparr>ro_key := k1\<rparr>)
           | Inr metaPacked \<Rightarrow>
               (case key_Encrypt ops k1 cid metaPacked (aad @ metaAADTag) of
                  (Inl e, k2) \<Rightarrow> (Inl (KeyFailed e), r\<lparr>ro_key := k2\<rparr>)
                | (Inr metaEncrypted, k2) \<Rightarrow>
                    (Inr (Magic @ [Version] @ cid @ put_u32_le (word_of_nat (length metaEncrypted))
                      @ put_u32_le (word_of_nat (length dataEncrypted)) @ metaEncrypted @ dataEncrypted), r\<lparr>ro_key := k2\<rparr>))))"

text \<open>The metadata the caller passes is filled in by the compressor.\<close>

definition Format :: "'k key_ops \<Rightarrow> codecs \<Rightarrow> (int \<Rightarrow> nat \<Rightarrow> int) \<Rightarrow> 'k repo_obj \<Rightarrow> bytes \<Rightarrow> rmeta option \<Rightarrow> bytes
    \<Rightarrow> (ro_error + bytes \<times> rmeta) \<times> 'k repo_obj" where
  "Format ops cd rnd r cid meta data =
     (if length cid \<noteq> 32 then (Inl BadIdSize, r)
      else case meta of
        None \<Rightarrow> (Inl NoMeta, r)
      | Some mt \<Rightarrow>
          if rm_Type mt = [] \<or> rm_Type mt = TypeDontCare then (Inl NoConcreteType, r)
          else if length data > MaxDataSize then (Inl DataTooLarge, r)
          else case comp_Compress cd rnd (ro_compressor r) (rm_comp mt) data of
            Inl e \<Rightarrow> (Inl (CompressionFailed e), r)
          | Inr (compressed, cm) \<Rightarrow> (let mt' = mt\<lparr>rm_comp := cm\<rparr> in
              map_prod (map_sum id (\<lambda>obj. (obj, mt'))) id (assemble ops r cid mt' compressed)))"

definition FormatCompressed :: "'k key_ops \<Rightarrow> 'k repo_obj \<Rightarrow> bytes \<Rightarrow> rmeta option \<Rightarrow> bytes \<Rightarrow> (ro_error + bytes) \<times> 'k repo_obj" where
  "FormatCompressed ops r cid meta compressed =
     (if length cid \<noteq> 32 then (Inl BadIdSize, r)
      else case meta of
        None \<Rightarrow> (Inl NoMeta, r)
      | Some mt \<Rightarrow>
          if rm_Type mt = [] \<or> rm_Type mt = TypeDontCare then (Inl NoConcreteType, r)
          else if cm_Size (rm_comp mt) = None then (Inl NeedsPlaintextSize, r)
          else if length compressed > MaxDataSize then (Inl DataTooLarge, r)
          else assemble ops r cid mt compressed)"

section \<open>Reading objects\<close>

record header =
  h_version :: byte
  h_chunkID :: bytes
  metaSize :: uint32
  dataSize :: uint32

definition parseHeader :: "bytes \<Rightarrow> ro_error + header" where
  "parseHeader obj =
     (if length obj < HeaderSize then Inl ObjectTooSmall
      else if take 8 obj \<noteq> Magic then Inl BadMagic
      else if obj ! 8 \<noteq> VersionNoHeaderAAD \<and> obj ! 8 \<noteq> VersionHeaderAAD then Inl BadVersion
      else Inr \<lparr>h_version = obj ! 8, h_chunkID = slice 9 32 obj, metaSize = get_u32_le (slice 41 4 obj), dataSize = get_u32_le (slice 45 4 obj)\<rparr>)"

definition ParseHeader :: "bytes \<Rightarrow> ro_error + bytes \<times> nat" where
  "ParseHeader obj = bind_res (parseHeader obj) (\<lambda>h. Inr (h_chunkID h, HeaderSize + unat (metaSize h) + unat (dataSize h)))"

definition aadFor :: "byte \<Rightarrow> bytes \<Rightarrow> bytes \<Rightarrow> bytes" where
  "aadFor version obj tag = (if version \<noteq> VersionHeaderAAD then [] else take HeaderAADSize obj @ tag)"

definition openMeta :: "'k key_ops \<Rightarrow> 'k repo_obj \<Rightarrow> bytes \<Rightarrow> bytes \<Rightarrow> header \<Rightarrow> string \<Rightarrow> (ro_error + rmeta) \<times> 'k repo_obj" where
  "openMeta ops r cid obj h wantType =
     (case key_Decrypt ops (ro_key r) cid (slice HeaderSize (unat (metaSize h)) obj) (aadFor (h_version h) obj metaAADTag) of
        (Inl e, k) \<Rightarrow> (Inl (KeyFailed e), r\<lparr>ro_key := k\<rparr>)
      | (Inr metaPacked, k) \<Rightarrow>
          (bind_res (metaFromBytes metaPacked) (\<lambda>meta.
             if wantType \<noteq> TypeDontCare \<and> rm_Type meta \<noteq> wantType then Inl WrongType else Inr meta), r\<lparr>ro_key := k\<rparr>))"

definition ParseMeta :: "'k key_ops \<Rightarrow> 'k repo_obj \<Rightarrow> bytes \<Rightarrow> bytes \<Rightarrow> string \<Rightarrow> (ro_error + rmeta) \<times> 'k repo_obj" where
  "ParseMeta ops r cid obj wantType =
     (case parseHeader obj of
        Inl e \<Rightarrow> (Inl e, r)
      | Inr h \<Rightarrow>
          if unat (metaSize h) > length obj - HeaderSize then (Inl ObjectTooSmall, r)
          else openMeta ops r cid obj h wantType)"

record parse_options =
  WantCompressed :: bool
  SkipDecompress :: bool
  po_AssertIDPlace :: string

definition Parse :: "'k key_ops \<Rightarrow> codecs \<Rightarrow> 'k repo_obj \<Rightarrow> bytes \<Rightarrow> bytes \<Rightarrow> string \<Rightarrow> parse_options
    \<Rightarrow> ((ro_error + rmeta \<times> bytes) \<times> 'k repo_obj) option" where
  "Parse ops cd r cid obj wantType opts =
     (if SkipDecompress opts \<and> \<not> WantCompressed opts then Some (Inl NothingToReturn, r)
      else case parseHeader obj of
        Inl e \<Rightarrow> Some (Inl e, r)
      | Inr h \<Rightarrow>
          if HeaderSize + unat (metaSize h) + unat (dataSize h) \<noteq> length obj then Some (Inl SizeInconsistent, r)
          else case openMeta ops r cid obj h wantType of
            (Inl e, r1) \<Rightarrow> Some (Inl e, r1)
          | (Inr meta, r1) \<Rightarrow>
              (case key_Decrypt ops (ro_key r1) cid (drop (HeaderSize + unat (metaSize h)) obj) (aadFor (h_version h) obj dataAADTag) of
                 (Inl e, k) \<Rightarrow> Some (Inl (KeyFailed e), r1\<lparr>ro_key := k\<rparr>)
               | (Inr compressed, k) \<Rightarrow> (let r2 = r1\<lparr>ro_key := k\<rparr> in
                   if SkipDecompress opts then Some (Inr (meta, compressed), r2)
                   else Option.bind (Decompress cd (rm_comp meta) compressed) (\<lambda>res. Some
                     (case res of
                        Inl e \<Rightarrow> (Inl (CompressionFailed e), r2)
                      | Inr plain \<Rightarrow>
                          (case (if shouldAssertID ops r2 (po_AssertIDPlace opts) then AssertID (key_IDHash ops k) cid plain else Inr ()) of
                             Inl e \<Rightarrow> (Inl (KeyFailed e), r2)
                           | Inr _ \<Rightarrow> (Inr (meta, if WantCompressed opts then compressed else plain), r2)))))))"

definition ExtractCryptedData :: "bytes \<Rightarrow> ro_error + bytes" where
  "ExtractCryptedData obj = bind_res (parseHeader obj) (\<lambda>h.
     if HeaderSize + unat (metaSize h) + unat (dataSize h) \<noteq> length obj then Inl SizeInconsistent
     else Inr (drop (HeaderSize + unat (metaSize h)) obj))"


section \<open>Metadata survives\<close>

lemma of_str_str [simp]: "of_str (str s) = s"
proof -
  have "unat (of_char c :: byte) = of_char c" for c
  proof -
    have "(of_char c :: byte) = word_of_nat (of_char c)" by (simp only: of_nat_of_char)
    moreover have "(of_char c :: nat) < 256" by simp
    ultimately show ?thesis by (simp only: unat_of_nat) simp
  qed
  then have "char_of (unat (of_char c :: byte)) = c" for c by (metis char_of_char)
  then show ?thesis by (simp add: str_def of_str_def comp_def)
qed

lemma str_inj [simp]: "str a = str b \<longleftrightarrow> a = b"
  by (metis of_str_str)

lemma length_str [simp]: "length (str s) = length s"
  by (simp add: str_def)

text \<open>Values that fit in Go's \<open>int\<close>.\<close>

definition go_int :: "int \<Rightarrow> bool" where
  "go_int n \<longleftrightarrow> - (2 ^ 63) \<le> n \<and> n < 2 ^ 63"

definition meta_fits :: "rmeta \<Rightarrow> bool" where
  "meta_fits mt \<longleftrightarrow> length (rm_Type mt) < 32 \<and> pred_option go_int (cm_Size (rm_comp mt)) \<and> go_int (CSize (rm_comp mt))
     \<and> pred_option go_int (PSize (rm_comp mt)) \<and> pred_option go_int (OLevel (rm_comp mt))"

lemma sint_of_go_int: "go_int n \<Longrightarrow> sint (word_of_int n :: int64) = n"
  by (simp add: go_int_def sint_sbintrunc' signed_take_bit_int_eq_self)

lemma ucast_ucast_int64: "ucast (ucast b :: int64) = (b :: byte)"
  by (rule bit_word_eqI) (auto simp: bit_simps)

lemma canon_int: "canon (VInt n) = VInt n" and canon_str: "canon (VStr s) = VStr s"
  by (simp_all add: canon.simps)

definition meta_read :: "rmeta \<Rightarrow> rmeta" where
  "meta_read mt = mt\<lparr>rm_comp := (rm_comp mt)\<lparr>cm_Type := []\<rparr>\<rparr>"

lemma metaFromBytes_Marshal:
  assumes fits: "meta_fits mt" and m: "Marshal (metaToMap mt) = Inr b"
  shows "metaFromBytes b = Inr (meta_read mt)"
proof -
  have "plain_ext (metaToMap mt)" by (simp add: metaToMap_def opt_entry_def int_entry_def split: option.split)
  from Unmarshal_Marshal [OF m this] have u: "Unmarshal b = Inr (canon (metaToMap mt))" .
  define es where "es = (case metaToMap mt of VMap _ es \<Rightarrow> es)"
  have es: "metaToMap mt = VMap False es" "\<forall>e\<in>set es. canon (fst e) = fst e \<and> canon (snd e) = snd e"
    by (auto simp: es_def metaToMap_def opt_entry_def int_entry_def canon_int canon_str split: option.splits)
  have "canon (VMap False es) = VMap False es" using es(2) by (subst canon.simps) (auto intro!: map_idI)
  then have "Unmarshal b = Inr (metaToMap mt)" using u unfolding es(1) by (simp only:)
  moreover obtain t sz ct cl cs ps ol ty where mt: "mt = \<lparr>rm_comp = \<lparr>cm_Type = t, cm_Size = sz, CType = ct, CLevel = cl, CSize = cs,
      PSize = ps, OLevel = ol\<rparr>, rm_Type = ty\<rparr>"
    by (metis cmeta.cases rmeta.cases)
  ultimately show ?thesis using fits
    by (cases sz; cases ps; cases ol)
      (simp_all add: metaFromBytes_def metaToMap_def opt_entry_def int_entry_def GetString_def GetInt_def meta_fits_def meta_read_def
        sint_of_go_int ucast_ucast_int64)
qed


lemma encode_small:
  "encode D d (VInt n) = Inr b \<Longrightarrow> length b \<le> 9"
  "length s < 32 \<Longrightarrow> encode D d (VStr s) = Inr b \<Longrightarrow> length b \<le> 32"
  by (auto simp: encode.simps encodeInt_def encodeUint_def encodeStr_def Let_def split: if_splits)

lemma encodeEntries_small:
  assumes "\<forall>e\<in>set es. (\<exists>s. fst e = VStr s \<and> length s < 32) \<and> ((\<exists>s. snd e = VStr s \<and> length s < 32) \<or> (\<exists>n. snd e = VInt n))"
    "encodeEntries D d es = Inr b"
  shows "length b \<le> 64 * length es"
  using assms
proof (induction es arbitrary: b)
  case (Cons e es)
  obtain s v where e: "e = (VStr s, v)" "length s < 32" using Cons.prems(1) by (cases e) auto
  obtain b1 b2 b3 where b: "encode D d (VStr s) = Inr b1" "encode D d v = Inr b2" "encodeEntries D d es = Inr b3" "b = b1 @ b2 @ b3"
    using Cons.prems(2) e by (auto simp: bind_res_Inr)
  have "length b1 \<le> 32" using encode_small(2) [OF e(2) b(1)] .
  moreover have "length b2 \<le> 32" using Cons.prems(1) e b(2) encode_small(1) [of D d _ b2] encode_small(2) [of _ D d b2] by fastforce
  moreover have "length b3 \<le> 64 * length es" using Cons b(3) by auto
  ultimately show ?case using b(4) by simp
qed simp

lemma Marshal_meta_small: "meta_fits mt \<Longrightarrow> Marshal (metaToMap mt) = Inr b \<Longrightarrow> length b \<le> 1000"
proof -
  assume fits: "meta_fits mt" and m: "Marshal (metaToMap mt) = Inr b"
  define es where "es = (case metaToMap mt of VMap _ es \<Rightarrow> es)"
  have es: "metaToMap mt = VMap False es" "length es \<le> 7"
    "\<forall>e\<in>set es. (\<exists>s. fst e = VStr s \<and> length s < 32) \<and> ((\<exists>s. snd e = VStr s \<and> length s < 32) \<or> (\<exists>n. snd e = VInt n))"
    using fits by (auto simp: es_def metaToMap_def opt_entry_def int_entry_def meta_fits_def split: option.splits)
  obtain h b2 where "writeMapHeader (length es) = Inr h" "encodeEntries DefaultMaxDepth 1 es = Inr b2" "b = h @ b2"
    using m unfolding es(1) Marshal_def by (subst (asm) encode.simps) (auto simp: bind_res_Inr split: if_splits)
  moreover from this have "length h = 1" using es(2) by (auto simp: writeMapHeader_def)
  ultimately show "length b \<le> 1000" using encodeEntries_small [OF es(3), of DefaultMaxDepth 1 b2] es(2) by simp
qed

lemma Marshal_meta_total: "meta_fits mt \<Longrightarrow> \<exists>b. Marshal (metaToMap mt) = Inr b"
  by (cases "cm_Size (rm_comp mt)"; cases "PSize (rm_comp mt)"; cases "OLevel (rm_comp mt)")
    (simp_all add: Marshal_def metaToMap_def opt_entry_def int_entry_def meta_fits_def encode.simps DefaultMaxDepth_def
      writeMapHeader_def encodeStr_def Let_def)

section \<open>Objects are read back\<close>

lemma header_of_object:
  assumes "length cid = 32" "length me < 2 ^ 32" "length de < 2 ^ 32"
    and obj: "obj = Magic @ [Version] @ cid @ put_u32_le (word_of_nat (length me)) @ put_u32_le (word_of_nat (length de)) @ me @ de"
  shows "\<exists>h. parseHeader obj = Inr h \<and> h_version h = VersionHeaderAAD \<and> h_chunkID h = cid \<and> unat (metaSize h) = length me
    \<and> unat (dataSize h) = length de \<and> slice HeaderSize (length me) obj = me \<and> drop (HeaderSize + length me) obj = de
    \<and> length obj = HeaderSize + length me + length de \<and> take HeaderAADSize obj = headerAAD cid"
proof -
  have m: "length Magic = 8" by (simp add: Magic_def)
  define p where "p = Magic @ [Version] @ cid"
  have p: "length p = 41" "obj = p @ put_u32_le (word_of_nat (length me)) @ put_u32_le (word_of_nat (length de)) @ me @ de"
    using m assms(1) obj by (simp_all add: p_def)
  have "take 8 obj = Magic" "obj ! 8 = Version" "slice 9 32 obj = cid" "take 41 obj = p"
    using m assms(1) by (simp_all add: obj nth_append slice_def p_def)
  moreover have "slice 41 4 obj = put_u32_le (word_of_nat (length me))" "slice 45 4 obj = put_u32_le (word_of_nat (length de))"
    "slice 49 (length me) obj = me" "drop (49 + length me) obj = de" "length obj = 49 + length me + length de"
    using p by (simp_all add: slice_def)
  moreover have "get_u32_le (put_u32_le w) = w" for w using get_put_u32_le [of w "[]"] by simp
  moreover have "unat (word_of_nat (length me) :: uint32) = length me" "unat (word_of_nat (length de) :: uint32) = length de"
    using assms(2,3) by (simp_all add: unat_of_nat)
  ultimately show ?thesis
    by (simp add: parseHeader_def HeaderSize_def HeaderAADSize_def VersionHeaderAAD_def Version_def VersionNoHeaderAAD_def headerAAD_def p_def)
qed

lemma Decompress_ignores_type: "Decompress cd (m\<lparr>cm_Type := t\<rparr>) d = Decompress cd m d"
proof (cases "Detect cd (CType m)")
  case (Some f)
  then have "f (m\<lparr>cm_Type := t\<rparr>) = f m" by (auto simp: Detect_def lz4_Decompress_def split: if_splits)
  with Some show ?thesis by (simp add: Decompress_def)
qed (simp add: Decompress_def)

definition ops_of :: "('k \<Rightarrow> bytes \<Rightarrow> bytes \<Rightarrow> bytes \<Rightarrow> (key_error + bytes) \<times> 'k) \<Rightarrow> ('k \<Rightarrow> bytes \<Rightarrow> bytes \<Rightarrow> bytes \<Rightarrow> (key_error + bytes) \<times> 'k)
    \<Rightarrow> ('k \<Rightarrow> bytes \<Rightarrow> bytes option) \<Rightarrow> ('k \<Rightarrow> bool) \<Rightarrow> 'k key_ops" where
  "ops_of enc dec idhash auth = \<lparr>key_Encrypt = enc, key_Decrypt = dec, key_IDHash = idhash, key_IDCheckIsAuthentication = auth\<rparr>"

context repo_key
begin

lemma open_slots:
  assumes k: "inv (ro_key r)" "inv (ro_key r2)" "same (ro_key r) (ro_key r2)"
    and sz: "length cid = 32" "meta_fits mt" "length compressed \<le> MaxDataSize"
    and a: "assemble (ops_of enc dec idhash auth) r cid mt compressed = (Inr obj, r')"
    and t: "want = TypeDontCare \<or> want = rm_Type mt"
  shows "\<exists>h r3 k4. parseHeader obj = Inr h \<and> HeaderSize + unat (metaSize h) + unat (dataSize h) = length obj
    \<and> openMeta (ops_of enc dec idhash auth) r2 cid obj h want = (Inr (meta_read mt), r3)
    \<and> dec (ro_key r3) cid (drop (HeaderSize + unat (metaSize h)) obj) (aadFor (h_version h) obj dataAADTag) = (Inr compressed, k4)
    \<and> h_chunkID h = cid \<and> idhash k4 = idhash (ro_key r2) \<and> r3 = r2\<lparr>ro_key := ro_key r3\<rparr> \<and> same (ro_key r2) k4 \<and> inv k4"
proof -
  define aad where "aad = headerAAD cid"
  have aad: "length aad = 41" "length (aad @ t) \<le> 1000" if "length t = 1" for t
    using sz(1) that by (simp_all add: aad_def headerAAD_def Magic_def)
  have tags: "length dataAADTag = 1" "length metaAADTag = 1" by (simp_all add: dataAADTag_def metaAADTag_def)
  obtain de k1 mp me k2 where e: "enc (ro_key r) cid compressed (aad @ dataAADTag) = (Inr de, k1)" "Marshal (metaToMap mt) = Inr mp"
      "enc k1 cid mp (aad @ metaAADTag) = (Inr me, k2)"
      "obj = Magic @ [Version] @ cid @ put_u32_le (word_of_nat (length me)) @ put_u32_le (word_of_nat (length de)) @ me @ de"
    using a by (auto simp: assemble_def ops_of_def aad_def Let_def split: prod.splits sum.splits)
  have i1: "inv k1" "same (ro_key r) k1" using enc_keeps [OF k(1) e(1)] by auto
  have mp: "length mp \<le> 1000" using Marshal_meta_small [OF sz(2) e(2)] .
  have "length de \<le> length compressed + 1000" using enc_length [OF k(1) _ aad(2) sz(1) e(1)] sz(3) tags by (simp add: MaxDataSize_def)
  moreover have "length me \<le> length mp + 1000" using enc_length [OF i1(1) _ aad(2) sz(1) e(3)] mp tags by simp
  ultimately have "length me < 2 ^ 32" "length de < 2 ^ 32" using mp sz(3) by (simp_all add: MaxDataSize_def)
  from header_of_object [OF sz(1) this e(4)] obtain h where h: "parseHeader obj = Inr h" "h_version h = VersionHeaderAAD" "h_chunkID h = cid"
      "unat (metaSize h) = length me" "unat (dataSize h) = length de" "slice HeaderSize (length me) obj = me"
      "drop (HeaderSize + length me) obj = de" "length obj = HeaderSize + length me + length de" "take HeaderAADSize obj = aad"
    by (auto simp: aad_def)
  have "same k1 (ro_key r2)" using i1(2) k(3) same_sym same_trans by blast
  then have "fst (dec (ro_key r2) cid me (aad @ metaAADTag)) = Inr mp" using dec_enc [OF i1(1) k(2) _ _ aad(2) sz(1) e(3)] mp tags by simp
  then obtain k3 where d1: "dec (ro_key r2) cid me (aad @ metaAADTag) = (Inr mp, k3)" by (metis eq_fst_iff)
  then have i3: "inv k3" "same (ro_key r2) k3" using dec_keeps [OF k(2)] by auto
  then have "same (ro_key r) k3" using k(3) same_trans by blast
  then have "fst (dec k3 cid de (aad @ dataAADTag)) = Inr compressed"
    using dec_enc [OF k(1) i3(1) _ _ aad(2) sz(1) e(1)] sz(3) tags by (simp add: MaxDataSize_def)
  then obtain k4 where d2: "dec k3 cid de (aad @ dataAADTag) = (Inr compressed, k4)" by (metis eq_fst_iff)
  have i4: "inv k4" "same (ro_key r2) k4" using dec_keeps [OF i3(1) d2] i3(2) same_trans by blast+
  have "openMeta (ops_of enc dec idhash auth) r2 cid obj h want = (Inr (meta_read mt), r2\<lparr>ro_key := k3\<rparr>)"
    using d1 h t metaFromBytes_Marshal [OF sz(2) e(2)] by (auto simp: openMeta_def ops_of_def aadFor_def meta_read_def)
  then show ?thesis using h d2 i4 same_idhash [OF i4(2)]
    by (intro exI [of _ h] exI [of _ "r2\<lparr>ro_key := k3\<rparr>"] exI [of _ k4]) (simp add: aadFor_def)
qed

lemma Parse_assemble:
  assumes "inv (ro_key r)" "inv (ro_key r2)" "same (ro_key r) (ro_key r2)"
    "length cid = 32" "meta_fits mt" "length compressed \<le> MaxDataSize"
    "assemble (ops_of enc dec idhash auth) r cid mt compressed = (Inr obj, r')"
    "want = TypeDontCare \<or> want = rm_Type mt"
    and plain: "Decompress cd (rm_comp mt) compressed = Some (Inr plain)"
    and cid: "cid = ManifestID \<or> idhash (ro_key r2) plain = Some cid"
    and opts: "SkipDecompress opts \<longrightarrow> WantCompressed opts"
  shows "\<exists>r3. Parse (ops_of enc dec idhash auth) cd r2 cid obj want opts = Some (Inr (meta_read mt, if WantCompressed opts then compressed else plain), r3)
    \<and> inv (ro_key r3) \<and> same (ro_key r2) (ro_key r3)"
proof -
  from open_slots [OF assms(1-8)] obtain h r3 k4 where o: "parseHeader obj = Inr h" "HeaderSize + unat (metaSize h) + unat (dataSize h) = length obj"
    "openMeta (ops_of enc dec idhash auth) r2 cid obj h want = (Inr (meta_read mt), r3)"
    "dec (ro_key r3) cid (drop (HeaderSize + unat (metaSize h)) obj) (aadFor (h_version h) obj dataAADTag) = (Inr compressed, k4)"
    "idhash k4 = idhash (ro_key r2)" "same (ro_key r2) k4" "inv k4" by blast
  have "Decompress cd (rm_comp (meta_read mt)) compressed = Some (Inr plain)" using plain by (simp add: meta_read_def Decompress_ignores_type)
  moreover have "AssertID (idhash k4) cid plain = Inr ()" using cid o(5) by (auto simp: AssertID_def)
  moreover have "key_Decrypt (ops_of enc dec idhash auth) = dec" "key_IDHash (ops_of enc dec idhash auth) = idhash" by (simp_all add: ops_of_def)
  ultimately show ?thesis using o opts
    by (intro exI [of _ "r3\<lparr>ro_key := k4\<rparr>"]) (auto simp: Parse_def Let_def)
qed

end

section \<open>The two kinds of key\<close>

definition aead_ops :: "crypto_env \<Rightarrow> aead_key key_ops" where
  "aead_ops env = ops_of (ak_Encrypt env) (ak_Decrypt env) ak_IDHash (\<lambda>_. False)"

definition mac_ops :: "mac_key key_ops" where
  "mac_ops = ops_of (stateless mac_Encrypt) (stateless mac_Decrypt) mac_IDHash mac_IDCheckIsAuthentication"

lemma in_bounds_fits: "meta_in_bounds data out m \<Longrightarrow> length data \<le> MaxDataSize \<Longrightarrow> length (rm_Type mt) < 32 \<Longrightarrow> meta_fits (mt\<lparr>rm_comp := m\<rparr>)"
  by (auto simp: meta_in_bounds_def meta_fits_def go_int_def MaxDataSize_def obf_level_ok_def pred_option_def)

lemma aead_assemble_total:
  assumes k: "sound_key env (ro_key r)" and rnd: "\<forall>i<4. rnd_ready env (draws (ro_key r) + i)"
    and sz: "length cid = 32" "meta_fits mt" "length compressed \<le> MaxDataSize"
  shows "\<exists>obj r'. assemble (aead_ops env) r cid mt compressed = (Inr obj, r')"
proof -
  define aad where "aad = headerAAD cid"
  have aad: "length (aad @ dataAADTag) \<le> 1000" "length (aad @ metaAADTag) \<le> 1000"
    using sz(1) by (simp_all add: aad_def headerAAD_def Magic_def dataAADTag_def metaAADTag_def)
  have r: "rnd_ready env (draws (ro_key r))" "rnd_ready env (Suc (draws (ro_key r)))"
    using rnd [rule_format, of 0] rnd [rule_format, of 1] by simp_all
  have "length compressed \<le> 2 ^ 30" using sz(3) by (simp add: MaxDataSize_def)
  from ak_Encrypt_total [OF k r this aad(1) sz(1)] obtain de k1
    where e: "ak_Encrypt env (ro_key r) cid compressed (aad @ dataAADTag) = (Inr de, k1)" "sound_key env k1" "draws k1 \<in> {draws (ro_key r)..draws (ro_key r) + 2}" by blast
  obtain mp where mp: "Marshal (metaToMap mt) = Inr mp" using Marshal_meta_total [OF sz(2)] by blast
  then have "length mp \<le> 2 ^ 30" using Marshal_meta_small [OF sz(2) mp] by simp
  moreover obtain i where "draws k1 = draws (ro_key r) + i" "i \<le> 2" using e(3) by (intro that [of "draws k1 - draws (ro_key r)"]) auto
  then have "rnd_ready env (draws k1)" "rnd_ready env (Suc (draws k1))"
    using rnd [rule_format, of i] rnd [rule_format, of "Suc i"] by simp_all
  ultimately obtain me k2 where "ak_Encrypt env k1 cid mp (aad @ metaAADTag) = (Inr me, k2)"
    using ak_Encrypt_total [OF e(2) _ _ _ aad(2) sz(1)] by blast
  then show ?thesis using e(1) mp by (simp add: assemble_def aead_ops_def ops_of_def aad_def)
qed

text \<open>C2. What an encrypted repository writes it reads back: formatting a chunk either fails in the
  compressor or yields an object whose header gives the chunk id and the exact size, and parsing it
  with any key object of the same key material, under any id-checking policy, returns the data and
  the metadata. The whole path is included: compression with \<open>auto\<close> and obfuscation, the metadata
  in MessagePack, both AEAD envelopes, sessions and the OCB mode.\<close>

theorem object_roundtrip:
  assumes "codecs_ok cd" "wf_comp (ro_compressor r)" "sound_key env (ro_key r)" "\<forall>i<4. rnd_ready env (draws (ro_key r) + i)"
    "aead_key_inv env (ro_key r2)" "same_aead_key (ro_key r) (ro_key r2)"
    "length cid = 32" "cid = ManifestID \<or> ak_IDHash (ro_key r2) data = Some cid" "length data \<le> MaxDataSize"
    "rm_Type mt \<noteq> []" "rm_Type mt \<noteq> TypeDontCare" "length (rm_Type mt) < 32" "PSize (rm_comp mt) = None" "OLevel (rm_comp mt) = None"
    "want = TypeDontCare \<or> want = rm_Type mt" "\<not> WantCompressed opts" "\<not> SkipDecompress opts"
  shows "case fst (Format (aead_ops env) cd rnd r cid (Some mt) data) of
      Inl e \<Rightarrow> \<exists>ce. e = CompressionFailed ce \<and> comp_Compress cd rnd (ro_compressor r) (rm_comp mt) data = Inl ce
    | Inr (obj, mt') \<Rightarrow> ParseHeader obj = Inr (cid, length obj)
        \<and> (\<exists>r3. Parse (aead_ops env) cd r2 cid obj want opts = Some (Inr (meta_read mt', data), r3))"
proof (cases "comp_Compress cd rnd (ro_compressor r) (rm_comp mt) data")
  case (Inl ce)
  then show ?thesis using assms(7,9-11) by (simp add: Format_def)
next
  case (Inr x)
  obtain c m where x: "x = (c, m)" by fastforce
  note comp = Inr [unfolded x]
  define mt' where "mt' = mt\<lparr>rm_comp := m\<rparr>"
  have b: "meta_in_bounds data c m" using compress_bounds [OF assms(1,13,14,9,2) comp] .
  have fits: "meta_fits mt'" using in_bounds_fits [OF b assms(9,12)] by (simp add: mt'_def)
  have c: "length c \<le> MaxDataSize" using b by (simp add: meta_in_bounds_def)
  have plain: "Decompress cd (rm_comp mt') c = Some (Inr data)" using compress_Decompress [OF assms(1,13,2) comp] by (simp add: mt'_def)
  obtain obj r' where a: "assemble (aead_ops env) r cid mt' c = (Inr obj, r')" using aead_assemble_total [OF assms(3,4,7) fits c] by blast
  then have f: "Format (aead_ops env) cd rnd r cid (Some mt) data = (Inr (obj, mt'), r')"
    using assms(7,9-11) comp by (simp add: Format_def mt'_def)
  have k: "aead_key_inv env (ro_key r)" using assms(3) by (simp add: sound_key_def)
  have w: "want = TypeDontCare \<or> want = rm_Type mt'" using assms(15) by (simp add: mt'_def)
  have sk: "SkipDecompress opts \<longrightarrow> WantCompressed opts" using assms(17) by simp
  from aead.Parse_assemble [OF k assms(5,6,7) fits c a [unfolded aead_ops_def] w plain assms(8) sk]
  have "\<exists>r3. Parse (aead_ops env) cd r2 cid obj want opts = Some (Inr (meta_read mt', data), r3)"
    using assms(16) by (auto simp: aead_ops_def)
  moreover have "ParseHeader obj = Inr (cid, length obj)"
    using aead.open_slots [OF k assms(5,6,7) fits c a [unfolded aead_ops_def] w] by (auto simp: ParseHeader_def)
  ultimately show ?thesis using f by simp
qed

theorem object_roundtrip_witness:
  "\<exists>k obj mt' r3. NewAESOCB (env_hashes toy_env) (replicate 64 1) (replicate 32 2) = Inr k
    \<and> fst (Format (aead_ops toy_env) toy_codecs (\<lambda>_ _. 0) \<lparr>ro_key = k, ro_compressor = CNone, assertIDPlaces = [PlaceRead], assertIDPlace = PlaceRead\<rparr>
        (replicate 32 5) (Some \<lparr>rm_comp = new_meta [], rm_Type = TypeFileStream\<rparr>) (replicate 32 5)) = Inr (obj, mt')
    \<and> Parse (aead_ops toy_env) toy_codecs \<lparr>ro_key = k, ro_compressor = CLZ4, assertIDPlaces = [PlaceRead], assertIDPlace = PlaceRead\<rparr> (replicate 32 5) obj
        TypeFileStream \<lparr>WantCompressed = False, SkipDecompress = False, po_AssertIDPlace = []\<rparr> = Some (Inr (meta_read mt', replicate 32 5), r3)"
proof -
  obtain k where k: "NewAESOCB (env_hashes toy_env) (replicate 64 1) (replicate 32 2) = Inr k" "ak_IDHash k (replicate 32 5) = Some (replicate 32 5)"
    by (simp add: NewAESOCB_def newAEADKey_def ak_IDHash_def toy_env_def)
  have s: "sound_key toy_env k" "draws k = 0" using NewAESOCB_sound [OF toy_env_ok(1) k(1)] by auto
  then have i: "aead_key_inv toy_env k" by (simp add: sound_key_def)
  have rnd: "\<forall>i<4. rnd_ready toy_env (draws k + i)" using s(2) by (simp add: rnd_ready_def toy_env_def aeadSessionIDSize_def)
  define w where "w = \<lparr>ro_key = k, ro_compressor = CNone, assertIDPlaces = [PlaceRead], assertIDPlace = PlaceRead\<rparr>"
  define rd where "rd = \<lparr>ro_key = k, ro_compressor = CLZ4, assertIDPlaces = [PlaceRead], assertIDPlace = PlaceRead\<rparr>"
  define mt where "mt = \<lparr>rm_comp = new_meta [], rm_Type = TypeFileStream\<rparr>"
  define opts where "opts = \<lparr>WantCompressed = False, SkipDecompress = False, po_AssertIDPlace = []\<rparr>"
  have "case fst (Format (aead_ops toy_env) toy_codecs (\<lambda>_ _. 0) w (replicate 32 5) (Some mt) (replicate 32 5)) of
      Inl e \<Rightarrow> \<exists>ce. e = CompressionFailed ce \<and> comp_Compress toy_codecs (\<lambda>_ _. 0) (ro_compressor w) (rm_comp mt) (replicate 32 5) = Inl ce
    | Inr (obj, mt') \<Rightarrow> ParseHeader obj = Inr (replicate 32 5, length obj)
        \<and> (\<exists>r3. Parse (aead_ops toy_env) toy_codecs rd (replicate 32 5) obj TypeFileStream opts = Some (Inr (meta_read mt', replicate 32 5), r3))"
    by (rule object_roundtrip) (use i s rnd k toy_codecs_ok in \<open>simp_all add: w_def rd_def mt_def opts_def new_meta_def TypeFileStream_def TypeDontCare_def MaxDataSize_def\<close>)
  moreover have "\<nexists>ce. comp_Compress toy_codecs (\<lambda>_ _. 0) (ro_compressor w) (rm_comp mt) (replicate 32 5) = Inl ce"
    by (simp add: w_def none_Compress_def finish_def encodeLevel_def UnknownLevel_def)
  ultimately obtain obj mt' r3 where
      "fst (Format (aead_ops toy_env) toy_codecs (\<lambda>_ _. 0) w (replicate 32 5) (Some mt) (replicate 32 5)) = Inr (obj, mt')"
      "Parse (aead_ops toy_env) toy_codecs rd (replicate 32 5) obj TypeFileStream opts = Some (Inr (meta_read mt', replicate 32 5), r3)"
    by (auto split: sum.splits)
  then show ?thesis using k(1) unfolding w_def rd_def mt_def opts_def by blast
qed

section \<open>Objects that are accepted\<close>

text \<open>Everything a successful read has checked.\<close>

lemma Parse_accepts:
  assumes "Parse ops cd r cid obj want opts = Some (Inr (meta, out), r')"
  shows "\<exists>h metaPacked compressed r1. parseHeader obj = Inr h \<and> length obj = HeaderSize + unat (metaSize h) + unat (dataSize h)
    \<and> fst (key_Decrypt ops (ro_key r) cid (slice HeaderSize (unat (metaSize h)) obj) (aadFor (h_version h) obj metaAADTag)) = Inr metaPacked
    \<and> openMeta ops r cid obj h want = (Inr meta, r1) \<and> metaFromBytes metaPacked = Inr meta \<and> (want = TypeDontCare \<or> rm_Type meta = want)
    \<and> key_Decrypt ops (ro_key r1) cid (drop (HeaderSize + unat (metaSize h)) obj) (aadFor (h_version h) obj dataAADTag) = (Inr compressed, ro_key r')
    \<and> r' = r\<lparr>ro_key := ro_key r'\<rparr>
    \<and> (if SkipDecompress opts then out = compressed
       else (\<exists>plain. Decompress cd (rm_comp meta) compressed = Some (Inr plain) \<and> out = (if WantCompressed opts then compressed else plain)
         \<and> (shouldAssertID ops r' (po_AssertIDPlace opts) \<longrightarrow> AssertID (key_IDHash ops (ro_key r')) cid plain = Inr ())))"
proof -
  obtain h where h: "parseHeader obj = Inr h" "length obj = HeaderSize + unat (metaSize h) + unat (dataSize h)"
    using assms by (auto simp: Parse_def split: if_splits sum.splits)
  obtain res r1 where m0: "openMeta ops r cid obj h want = (res, r1)" by fastforce
  obtain meta1 where m1: "res = Inr meta1" using assms h m0 by (cases res) (auto simp: Parse_def split: if_splits)
  obtain dres k where d0: "key_Decrypt ops (ro_key r1) cid (drop (HeaderSize + unat (metaSize h)) obj) (aadFor (h_version h) obj dataAADTag) = (dres, k)" by fastforce
  obtain compressed where d1: "dres = Inr compressed" using assms h m0 m1 d0 by (cases dres) (auto simp: Parse_def split: if_splits)
  let ?r2 = "r1\<lparr>ro_key := k\<rparr>"
  define chk where "chk plain = (if shouldAssertID ops ?r2 (po_AssertIDPlace opts) then AssertID (key_IDHash ops k) cid plain else Inr ())" for plain
  have p: "(if SkipDecompress opts then Some (Inr (meta1, compressed), ?r2)
      else Option.bind (Decompress cd (rm_comp meta1) compressed) (\<lambda>res. Some (case res of Inl e \<Rightarrow> (Inl (CompressionFailed e), ?r2)
        | Inr plain \<Rightarrow> (case chk plain of Inl e \<Rightarrow> (Inl (KeyFailed e), ?r2) | Inr _ \<Rightarrow> (Inr (meta1, if WantCompressed opts then compressed else plain), ?r2)))))
      = Some (Inr (meta, out), r')"
    using assms h m0 m1 d0 d1 unfolding chk_def by (simp add: Parse_def Let_def split: if_splits)
  have e: "meta1 = meta \<and> r' = ?r2 \<and> (if SkipDecompress opts then out = compressed
       else (\<exists>plain. Decompress cd (rm_comp meta) compressed = Some (Inr plain) \<and> out = (if WantCompressed opts then compressed else plain) \<and> (\<exists>u. chk plain = Inr u)))"
  proof (cases "SkipDecompress opts")
    case False
    then obtain dec where dec: "Decompress cd (rm_comp meta1) compressed = Some dec" using p by (auto simp: bind_eq_Some_conv)
    then obtain plain where dp: "dec = Inr plain" using p False by (cases dec) auto
    then obtain u where "chk plain = Inr u" using p False dec by (cases "chk plain") auto
    then show ?thesis using p False dec dp by auto
  qed (use p in auto)
  then have fin: "if SkipDecompress opts then out = compressed
       else (\<exists>plain. Decompress cd (rm_comp meta) compressed = Some (Inr plain) \<and> out = (if WantCompressed opts then compressed else plain)
         \<and> (shouldAssertID ops r' (po_AssertIDPlace opts) \<longrightarrow> AssertID (key_IDHash ops (ro_key r')) cid plain = Inr ()))"
    by (auto simp: chk_def split: if_splits)
  have m: "openMeta ops r cid obj h want = (Inr meta, r1)" and r': "r' = r1\<lparr>ro_key := k\<rparr>" using e m0 m1 by simp_all
  note d = d0 [unfolded d1]
  obtain metaPacked k1 where mp: "fst (key_Decrypt ops (ro_key r) cid (slice HeaderSize (unat (metaSize h)) obj) (aadFor (h_version h) obj metaAADTag)) = Inr metaPacked"
    "metaFromBytes metaPacked = Inr meta" "want = TypeDontCare \<or> rm_Type meta = want" "r1 = r\<lparr>ro_key := k1\<rparr>"
    using m by (auto simp: openMeta_def bind_res_Inr split: prod.splits sum.splits if_splits)
  moreover have "r' = r\<lparr>ro_key := ro_key r'\<rparr>" "ro_key r' = k" using r' mp(4) by simp_all
  ultimately show ?thesis using h m d fin by blast
qed


lemma mac_assemble_total:
  assumes "mac_ok (ro_key r)" "length cid = 32" "meta_fits mt"
  shows "\<exists>obj. assemble mac_ops r cid mt compressed = (Inr obj, r)"
proof -
  obtain mp where mp: "Marshal (metaToMap mt) = Inr mp" using Marshal_meta_total [OF assms(3)] by blast
  have "\<exists>e. mac_Encrypt (ro_key r) cid d (headerAAD cid @ t) = Inr e" if "length t = 1" for d t
    using assms(2) that by (simp add: mac_Encrypt_def tagPrefix_def headerAAD_def Magic_def)
  moreover have "length dataAADTag = 1" "length metaAADTag = 1" by (simp_all add: dataAADTag_def metaAADTag_def)
  ultimately obtain de me where "mac_Encrypt (ro_key r) cid compressed (headerAAD cid @ dataAADTag) = Inr de"
    "mac_Encrypt (ro_key r) cid mp (headerAAD cid @ metaAADTag) = Inr me" by metis
  then show ?thesis using mp by (simp add: assemble_def mac_ops_def ops_of_def stateless_def)
qed

lemma mac_Parse_assemble:
  assumes "mac_ok (ro_key r)" "length cid = 32" "meta_fits mt" "length compressed \<le> MaxDataSize" "want = TypeDontCare \<or> want = rm_Type mt"
    "Decompress cd (rm_comp mt) compressed = Some (Inr plain)" "cid = ManifestID \<or> mac_IDHash (ro_key r) plain = Some cid"
    "\<not> WantCompressed opts" "\<not> SkipDecompress opts"
  shows "\<exists>obj r'. assemble mac_ops r cid mt compressed = (Inr obj, r) \<and> Parse mac_ops cd r cid obj want opts = Some (Inr (meta_read mt, plain), r')"
proof -
  obtain obj where o: "assemble mac_ops r cid mt compressed = (Inr obj, r)" using mac_assemble_total [OF assms(1-3)] by blast
  from mac.Parse_assemble [OF assms(1,1) refl assms(2-4) o [unfolded mac_ops_def] assms(5-7), of opts] assms(8,9) o show ?thesis
    by (auto simp: mac_ops_def)
qed


section \<open>Transfer without recompression\<close>

lemma metaFromBytes_fits: "metaFromBytes b = Inr m \<Longrightarrow> length (rm_Type m) < 32 \<Longrightarrow> meta_fits m \<and> meta_read m = m"
proof -
  have i: "go_int (sint (n :: int64))" for n using sint_greater_eq [of n] sint_less [of n] by (simp add: go_int_def)
  have z: "go_int 0" by (simp add: go_int_def)
  assume "metaFromBytes b = Inr m" "length (rm_Type m) < 32"
  then show ?thesis
    by (auto simp: metaFromBytes_def meta_fits_def meta_read_def i z pred_option_def split: sum.splits mp_value.splits option.splits)
qed


section \<open>Obfuscation\<close>

text \<open>C28. Size obfuscation never pads an object formatted with the metadata the archive writer passes: the
  obfuscator looks at the type inside the compression metadata, \<open>Format\<close> receives the type of a
  file chunk in the metadata around it, so that with \<open>obfuscate\<close> exactly the bytes of the inner
  compressor are stored.\<close>

theorem obfuscation_never_pads:
  assumes "codecs_ok cd" "obf_free c" "comp_Compress cd rnd c (new_meta []) data = Inr (inner, m1)"
    "length cid = 32" "length data \<le> MaxDataSize"
  shows "\<exists>m'. Format ops cd rnd (SetCompressor r (CObfuscate l c)) cid (Some \<lparr>rm_comp = new_meta [], rm_Type = TypeFileStream\<rparr>) data
    = map_prod (map_sum id (\<lambda>obj. (obj, m'))) id (assemble ops (SetCompressor r (CObfuscate l c)) cid m' inner)"
proof -
  obtain out m where o: "comp_Compress cd rnd (CObfuscate l c) (new_meta []) data = Inr (out, m)" using assms(3) by (simp add: Let_def)
  from obfuscate_form [OF assms(1,2) o] assms(3) have "out = inner" by (auto simp: new_meta_def ROBJFileStream_def)
  then show ?thesis using o assms(4,5) by (auto simp: Format_def SetCompressor_def TypeFileStream_def TypeDontCare_def Let_def)
qed

theorem obfuscation_never_pads_witness:
  "\<exists>m'. Format mac_ops toy_codecs (\<lambda>_ _. 5) (SetCompressor \<lparr>ro_key = NewNoneSHA256 (env_hashes toy_env), ro_compressor = CLZ4, assertIDPlaces = [], assertIDPlace = PlaceRead\<rparr>
        (CObfuscate 110 CNone)) (replicate 32 5) (Some \<lparr>rm_comp = new_meta [], rm_Type = TypeFileStream\<rparr>) [1, 2, 3]
    = map_prod (map_sum id (\<lambda>obj. (obj, m'))) id (assemble mac_ops (SetCompressor \<lparr>ro_key = NewNoneSHA256 (env_hashes toy_env), ro_compressor = CLZ4,
        assertIDPlaces = [], assertIDPlace = PlaceRead\<rparr> (CObfuscate 110 CNone)) (replicate 32 5) m' [1, 2, 3])"
proof -
  obtain m1 where "comp_Compress toy_codecs (\<lambda>_ _. 5) CNone (new_meta []) [1, 2, 3] = Inr ([1, 2, 3], m1)"
    by (simp add: none_Compress_def finish_def encodeLevel_def UnknownLevel_def)
  from obfuscation_never_pads [OF toy_codecs_ok _ this, of "replicate 32 5"] show ?thesis by (simp add: MaxDataSize_def)
qed


end
