(* ===== verification/Pack.thy ===== *)
theory Pack
  imports Chunk_Index Repo_Object
begin

text \<open>
  Pack files, \<^verbatim>\<open>src/internal/repository/pack.go\<close>: the writer that buffers objects into packs and
  records where they went in the chunk index, the reader that walks the object headers of a pack,
  and the check of indexed ranges.

  The store is the log of its successful \<open>Store\<close> calls, newest first, and a function that says
  which call fails. The background goroutine of the writer touches only the store, and nothing in
  the writer reads the store before it is joined, so the model runs it when it is handed the pack;
  its outcome is applied to the index, as in the code, by the call that joins it.
\<close>

section \<open>The writer\<close>

datatype pack_error = BadChunkID | IndexFailed index_error | StoreFailed | NoLimit

record piece =
  pc_chunkID :: bytes
  pc_data :: bytes

record inflightPack =
  pendingIDs :: "bytes list"
  in_outcome :: "pack_error + pack_result list"

record pack_writer =
  pw_index :: chunk_index
  pw_log :: "(bytes \<times> bytes) list"
  pw_calls :: nat
  maxCount :: int
  maxSize :: int
  pw_pieces :: "piece list"
  pw_size :: nat
  pw_inflight :: "inflightPack option"
  pw_async :: bool

definition DefaultPackMaxSize :: int where "DefaultPackMaxSize = 50 * 1000 * 1000"

definition NewPackWriter :: "chunk_index \<Rightarrow> int \<Rightarrow> int \<Rightarrow> bool \<Rightarrow> pack_error + pack_writer" where
  "NewPackWriter idx mc ms async =
     (if mc \<le> 0 \<and> ms \<le> 0 then Inl NoLimit
      else Inr \<lparr>pw_index = idx, pw_log = [], pw_calls = 0, maxCount = mc, maxSize = ms, pw_pieces = [], pw_size = 0, pw_inflight = None, pw_async = async\<rparr>)"

definition pw_MaxSize :: "pack_writer \<Rightarrow> int" where
  "pw_MaxSize w = (if maxSize w > 0 then maxSize w else DefaultPackMaxSize)"

definition takePieces :: "pack_writer \<Rightarrow> piece list \<times> pack_writer" where
  "takePieces w = (pw_pieces w, w\<lparr>pw_pieces := [], pw_size := 0\<rparr>)"

fun packResults :: "bytes \<Rightarrow> nat \<Rightarrow> piece list \<Rightarrow> pack_result list" where
  "packResults pid off [] = []"
| "packResults pid off (p # ps) =
     \<lparr>prChunkID = pc_chunkID p, prPackID = pid, prOffset = word_of_nat off, prSize = word_of_nat (length (pc_data p))\<rparr>
       # packResults pid (off + length (pc_data p)) ps"

definition storePack :: "(bytes \<Rightarrow> bytes) \<Rightarrow> (nat \<Rightarrow> bool) \<Rightarrow> pack_writer \<Rightarrow> piece list \<Rightarrow> (pack_error + pack_result list) \<times> pack_writer" where
  "storePack sha fails w pieces =
     (let packData = concat (map pc_data pieces); pid = sha packData; w' = w\<lparr>pw_calls := Suc (pw_calls w)\<rparr> in
      if fails (pw_calls w) then (Inl StoreFailed, w')
      else (Inr (packResults pid 0 pieces), w'\<lparr>pw_log := (pid, packData) # pw_log w\<rparr>))"

definition handoff :: "(bytes \<Rightarrow> bytes) \<Rightarrow> (nat \<Rightarrow> bool) \<Rightarrow> pack_writer \<Rightarrow> pack_writer" where
  "handoff sha fails w =
     (case takePieces w of (pieces, w1) \<Rightarrow>
      if pieces = [] then w1
      else case storePack sha fails w1 pieces of (outcome, w2) \<Rightarrow>
        w2\<lparr>pw_inflight := Some \<lparr>pendingIDs = map pc_chunkID pieces, in_outcome = outcome\<rparr>\<rparr>)"

fun deleteAll :: "chunk_index \<Rightarrow> bytes list \<Rightarrow> chunk_index option" where
  "deleteAll c [] = Some c"
| "deleteAll c (i # ids) = Option.bind (index_Delete c i) (\<lambda>(c', _). deleteAll c' ids)"

definition applyOutcome :: "pack_writer \<Rightarrow> inflightPack \<Rightarrow> ((pack_error + pack_result list) \<times> pack_writer) option" where
  "applyOutcome w pk =
     (case in_outcome pk of
        Inl e \<Rightarrow> Option.bind (deleteAll (pw_index w) (pendingIDs pk)) (\<lambda>c. Some (Inl StoreFailed, w\<lparr>pw_index := c\<rparr>))
      | Inr results \<Rightarrow> Option.bind (UpdatePackInfo (pw_index w) results) (\<lambda>(c, r). Some
          (case r of Inl e \<Rightarrow> Inl (IndexFailed e) | Inr _ \<Rightarrow> Inr results, w\<lparr>pw_index := c\<rparr>)))"

definition dropBuffered :: "pack_writer \<Rightarrow> pack_writer option" where
  "dropBuffered w = (case takePieces w of (pieces, w1) \<Rightarrow>
     Option.bind (deleteAll (pw_index w1) (map pc_chunkID pieces)) (\<lambda>c. Some (w1\<lparr>pw_index := c\<rparr>)))"

definition JoinInflight :: "pack_writer \<Rightarrow> ((pack_error + pack_result list) \<times> pack_writer) option" where
  "JoinInflight w =
     (case pw_inflight w of
        None \<Rightarrow> Some (Inr [], w)
      | Some pk \<Rightarrow> Option.bind (applyOutcome (w\<lparr>pw_inflight := None\<rparr>) pk) (\<lambda>(r, w1).
          case r of
            Inl e \<Rightarrow> Option.bind (dropBuffered w1) (\<lambda>w2. Some (Inl e, w2))
          | Inr results \<Rightarrow> Some (Inr results, w1)))"

definition Flush :: "(bytes \<Rightarrow> bytes) \<Rightarrow> (nat \<Rightarrow> bool) \<Rightarrow> pack_writer \<Rightarrow> ((pack_error + pack_result list) \<times> pack_writer) option" where
  "Flush sha fails w = Option.bind (JoinInflight w) (\<lambda>(r, w1).
     case r of
       Inl e \<Rightarrow> Some (Inl e, w1)
     | Inr results \<Rightarrow>
         if pw_pieces w1 = [] then Some (Inr results, w1)
         else (case takePieces w1 of (pieces, w2) \<Rightarrow>
           case storePack sha fails w2 pieces of (outcome, w3) \<Rightarrow>
           Option.bind (applyOutcome w3 \<lparr>pendingIDs = map pc_chunkID pieces, in_outcome = outcome\<rparr>) (\<lambda>(r2, w4).
             case r2 of
               Inl e \<Rightarrow> Option.bind (dropBuffered w4) (\<lambda>w5. Some (Inl e, w5))
             | Inr results2 \<Rightarrow> Some (Inr (results @ results2), w4))))"

definition pack_full :: "pack_writer \<Rightarrow> bool" where
  "pack_full w \<longleftrightarrow> (maxCount w > 0 \<and> int (length (pw_pieces w)) \<ge> maxCount w) \<or> (maxSize w > 0 \<and> int (pw_size w) \<ge> maxSize w)"

definition pack_Add :: "(bytes \<Rightarrow> bytes) \<Rightarrow> (nat \<Rightarrow> bool) \<Rightarrow> pack_writer \<Rightarrow> bytes \<Rightarrow> bytes \<Rightarrow> ((pack_error + pack_result list) \<times> pack_writer) option" where
  "pack_Add sha fails w chunkID data =
     (if length chunkID \<noteq> 32 then Some (Inl BadChunkID, w)
      else Option.bind (index_Add (pw_index w) chunkID 0) (\<lambda>(c, r).
        let w1 = w\<lparr>pw_index := c\<rparr> in
        case r of
          Inl e \<Rightarrow> Some (Inl (IndexFailed e), w1)
        | Inr _ \<Rightarrow>
            (let w2 = w1\<lparr>pw_pieces := pw_pieces w @ [\<lparr>pc_chunkID = chunkID, pc_data = data\<rparr>], pw_size := pw_size w + length data\<rparr> in
             if \<not> pack_full w2 then Some (Inr [], w2)
             else if \<not> pw_async w2 then Flush sha fails w2
             else Option.bind (JoinInflight w2) (\<lambda>(r2, w3).
               case r2 of
                 Inl e \<Rightarrow> Some (Inl e, w3)
               | Inr results \<Rightarrow> Some (Inr results, handoff sha fails w3)))))"

section \<open>The reader\<close>

datatype pack_read_error = NoObjectHeader nat | PastEnd nat | Overlapping nat | PastPack nat

record PackEntry =
  pe_ChunkID :: bytes
  pe_Offset :: nat
  pe_Size :: nat

text \<open>A pack held in memory; a pack in the store gives the same bytes for the same range.\<close>

definition pack_Read :: "bytes \<Rightarrow> nat \<Rightarrow> nat \<Rightarrow> bytes" where
  "pack_Read contents offset sz = (if offset \<ge> length contents then [] else slice offset (min (offset + sz) (length contents) - offset) contents)"

lemma length_pack_Read: "length (pack_Read contents offset sz) = min sz (length contents - offset)"
  by (auto simp: pack_Read_def slice_def min_def)

lemma ParseHeader_size: "ParseHeader hdr = Inr (cid, sz) \<Longrightarrow> 49 \<le> sz"
  by (auto simp: ParseHeader_def bind_res_Inr HeaderSize_def)

text \<open>The callback of \<open>IterHeaders\<close> collects the entries; it never stops the walk.\<close>

function iterFrom :: "bytes \<Rightarrow> nat \<Rightarrow> PackEntry list \<times> pack_read_error option" where
  "iterFrom contents offset =
     (let hdr = pack_Read contents offset HeaderSize in
      if length hdr < HeaderSize then ([], None)
      else case ParseHeader hdr of
        Inl _ \<Rightarrow> ([], Some (NoObjectHeader offset))
      | Inr (chunkID, objsz) \<Rightarrow>
          if offset + objsz > length contents then ([], Some (PastEnd offset))
          else map_prod ((#) \<lparr>pe_ChunkID = chunkID, pe_Offset = offset, pe_Size = objsz\<rparr>) id (iterFrom contents (offset + objsz)))"
  by pat_completeness auto

termination
proof (relation "measure (\<lambda>(contents, offset). length contents - offset)")
  fix contents offset hdr x chunkID objsz
  assume a: "hdr = pack_Read contents offset HeaderSize" "\<not> length hdr < HeaderSize" "ParseHeader hdr = Inr x" "(chunkID, objsz) = x"
  then have "49 \<le> objsz" using ParseHeader_size [of hdr chunkID objsz] by simp
  moreover have "offset < length contents" using a(1,2) by (auto simp: length_pack_Read HeaderSize_def)
  ultimately show "((contents, offset + objsz), (contents, offset)) \<in> measure (\<lambda>(contents, offset). length contents - offset)" by simp
qed simp

definition IterHeaders :: "bytes \<Rightarrow> PackEntry list \<times> pack_read_error option" where
  "IterHeaders contents = iterFrom contents 0"

fun checkRanges :: "nat \<Rightarrow> PackEntry list \<Rightarrow> pack_read_error + nat" where
  "checkRanges covered [] = Inr covered"
| "checkRanges covered (e # es) =
     (if pe_Offset e < covered then Inl (Overlapping (pe_Offset e)) else checkRanges (pe_Offset e + pe_Size e) es)"

definition CheckPackObjects :: "PackEntry list \<Rightarrow> nat \<Rightarrow> pack_read_error + unit" where
  "CheckPackObjects ranges packSize = bind_res (checkRanges 0 ranges) (\<lambda>covered.
     if covered > packSize then Inl (PastPack covered) else Inr ())"

section \<open>The pack cache\<close>

record pack_cache =
  pca_capacity :: nat
  pca_order :: "bytes list"
  pca_entries :: "bytes \<rightharpoonup> bytes"

definition newPackCache :: "nat \<Rightarrow> pack_cache" where
  "newPackCache n = \<lparr>pca_capacity = n, pca_order = [], pca_entries = Map.empty\<rparr>"

definition cache_get :: "pack_cache \<Rightarrow> bytes \<Rightarrow> bytes option" where
  "cache_get c k = pca_entries c k"

function evict :: "pack_cache \<Rightarrow> pack_cache" where
  "evict c = (if length (pca_order c) > pca_capacity c
     then evict (c\<lparr>pca_entries := (pca_entries c)(hd (pca_order c) := None), pca_order := tl (pca_order c)\<rparr>) else c)"
  by pat_completeness auto

termination
  by (relation "measure (\<lambda>c. length (pca_order c))") auto

definition cache_put :: "pack_cache \<Rightarrow> bytes \<Rightarrow> bytes \<Rightarrow> pack_cache" where
  "cache_put c k r =
     (let c1 = (if pca_entries c k = None then evict (c\<lparr>pca_order := pca_order c @ [k]\<rparr>) else c) in
      c1\<lparr>pca_entries := (pca_entries c1)(k \<mapsto> r)\<rparr>)"

definition cache_clear :: "pack_cache \<Rightarrow> pack_cache" where
  "cache_clear c = c\<lparr>pca_entries := Map.empty, pca_order := []\<rparr>"

section \<open>Walking a pack\<close>

declare iterFrom.simps [simp del]

lemma ParseHeader_take: "49 \<le> length obj \<Longrightarrow> ParseHeader (take 49 obj) = ParseHeader obj"
proof -
  assume l: "49 \<le> length obj"
  have "slice 9 32 (take 49 obj) = slice 9 32 obj" "slice 41 4 (take 49 obj) = slice 41 4 obj" "slice 45 4 (take 49 obj) = slice 45 4 obj"
    by (simp_all add: slice_def drop_take min_def)
  then show ?thesis using l by (simp add: ParseHeader_def parseHeader_def HeaderSize_def)
qed

fun entriesOf :: "nat \<Rightarrow> piece list \<Rightarrow> PackEntry list" where
  "entriesOf off [] = []"
| "entriesOf off (p # ps) = \<lparr>pe_ChunkID = pc_chunkID p, pe_Offset = off, pe_Size = length (pc_data p)\<rparr> # entriesOf (off + length (pc_data p)) ps"

definition object_piece :: "piece \<Rightarrow> bool" where
  "object_piece p \<longleftrightarrow> ParseHeader (pc_data p) = Inr (pc_chunkID p, length (pc_data p))"

lemma object_piece_size: "object_piece p \<Longrightarrow> 49 \<le> length (pc_data p)"
  by (auto simp: object_piece_def dest: ParseHeader_size)

lemma pack_Read_at: "n \<le> length b \<Longrightarrow> 0 < n \<Longrightarrow> pack_Read (a @ b @ c) (length a) n = take n b"
  by (simp add: pack_Read_def slice_def)

lemma iterFrom_pieces:
  assumes "\<forall>p\<in>set ps. object_piece p" "length tail < 49"
  shows "iterFrom (pre @ concat (map pc_data ps) @ tail) (length pre) = (entriesOf (length pre) ps, None)"
  using assms(1)
proof (induction ps arbitrary: pre)
  case Nil
  then show ?case using assms(2) by (subst iterFrom.simps) (simp add: length_pack_Read HeaderSize_def)
next
  case (Cons p ps)
  let ?d = "pc_data p"
  have p: "49 \<le> length ?d" "ParseHeader ?d = Inr (pc_chunkID p, length ?d)" using Cons.prems by (auto simp: object_piece_size object_piece_def)
  have "pack_Read (pre @ concat (map pc_data (p # ps)) @ tail) (length pre) HeaderSize = take 49 ?d"
    using pack_Read_at [OF p(1), of pre "concat (map pc_data ps) @ tail"] by (simp add: HeaderSize_def)
  then have "iterFrom (pre @ concat (map pc_data (p # ps)) @ tail) (length pre)
      = map_prod ((#) \<lparr>pe_ChunkID = pc_chunkID p, pe_Offset = length pre, pe_Size = length ?d\<rparr>) id
          (iterFrom (pre @ concat (map pc_data (p # ps)) @ tail) (length pre + length ?d))"
    using p ParseHeader_take [OF p(1)] by (subst iterFrom.simps) (simp add: HeaderSize_def)
  moreover have "iterFrom (pre @ concat (map pc_data (p # ps)) @ tail) (length pre + length ?d) = (entriesOf (length pre + length ?d) ps, None)"
    using Cons.IH [of "pre @ ?d"] Cons.prems by simp
  ultimately show ?case by simp
qed

text \<open>C29. Walking the headers of a pack finds every object that was put into it, with its id, its offset
  and its size, and nothing else; bytes of an incomplete header at the end are ignored. The
  locations are the ones the writer reports for the index.\<close>

theorem pack_walk:
  assumes "\<forall>p\<in>set ps. object_piece p" "length tail < 49" "length (concat (map pc_data ps)) < 2 ^ 32"
  shows "IterHeaders (concat (map pc_data ps) @ tail) = (map (\<lambda>r. \<lparr>pe_ChunkID = prChunkID r, pe_Offset = unat (prOffset r), pe_Size = unat (prSize r)\<rparr>) (packResults pid 0 ps), None)"
proof -
  have "map (\<lambda>r. \<lparr>pe_ChunkID = prChunkID r, pe_Offset = unat (prOffset r), pe_Size = unat (prSize r)\<rparr>) (packResults pid off ps) = entriesOf off ps"
    if "off + length (concat (map pc_data ps)) < 2 ^ 32" for off
    using that by (induction ps arbitrary: off) (auto simp: unat_of_nat)
  then show ?thesis using iterFrom_pieces [OF assms(1,2), of "[]"] assms(3) by (simp add: IterHeaders_def)
qed

text \<open>The shortest object of the format: a header that announces no metadata and no data.\<close>

definition bare_object :: bytes where
  "bare_object = Magic @ [VersionHeaderAAD] @ replicate 32 7 @ replicate 8 0"

lemma bare_object_parses: "ParseHeader bare_object = Inr (replicate 32 7, 49)"
  by (simp add: bare_object_def) code_simp

theorem pack_walk_witness:
  "IterHeaders (bare_object @ bare_object @ [1, 2, 3])
    = ([\<lparr>pe_ChunkID = replicate 32 7, pe_Offset = 0, pe_Size = 49\<rparr>, \<lparr>pe_ChunkID = replicate 32 7, pe_Offset = 49, pe_Size = 49\<rparr>], None)"
proof -
  have l: "length bare_object = 49" by code_simp
  let ?p = "\<lparr>pc_chunkID = replicate 32 7, pc_data = bare_object\<rparr>"
  have "object_piece ?p" unfolding object_piece_def using bare_object_parses l by simp
  then show ?thesis using pack_walk [of "[?p, ?p]" "[1, 2, 3]" "[]"] by (simp add: l unat_of_nat)
qed

lemma iterFrom_tiles:
  "iterFrom contents off = (es, None) \<Longrightarrow> off \<le> length contents \<Longrightarrow>
    \<exists>e. off \<le> e \<and> e \<le> length contents \<and> length contents < e + 49 \<and> checkRanges off es = Inr e
      \<and> map pe_Offset es @ [e] = off # map (\<lambda>x. pe_Offset x + pe_Size x) es
      \<and> (\<forall>x\<in>set es. ParseHeader (slice (pe_Offset x) (pe_Size x) contents) = Inr (pe_ChunkID x, pe_Size x))"
proof (induction contents off arbitrary: es rule: iterFrom.induct)
  case (1 contents off)
  let ?h = "pack_Read contents off HeaderSize"
  show ?case
  proof (cases "length ?h < HeaderSize")
    case True
    then have "es = []" using 1(2) by (subst (asm) iterFrom.simps) simp
    then show ?thesis using 1(3) True by (auto simp: length_pack_Read HeaderSize_def min_def split: if_splits)
  next
    case False
    then obtain cid sz es' where h: "ParseHeader ?h = Inr (cid, sz)" "off + sz \<le> length contents" "iterFrom contents (off + sz) = (es', None)"
        "es = \<lparr>pe_ChunkID = cid, pe_Offset = off, pe_Size = sz\<rparr> # es'"
      using 1(2) by (subst (asm) iterFrom.simps) (auto split: sum.splits if_splits simp: Let_def map_prod_def case_prod_beta prod_eq_iff)
    from 1(1) [OF refl False h(1) refl _ h(3,2)] h(2) obtain e where e: "off + sz \<le> e" "e \<le> length contents" "length contents < e + 49"
        "checkRanges (off + sz) es' = Inr e" "map pe_Offset es' @ [e] = (off + sz) # map (\<lambda>x. pe_Offset x + pe_Size x) es'"
        "\<forall>x\<in>set es'. ParseHeader (slice (pe_Offset x) (pe_Size x) contents) = Inr (pe_ChunkID x, pe_Size x)" by auto
    have "49 \<le> sz" using ParseHeader_size [OF h(1)] .
    then have "take 49 (slice off sz contents) = ?h" "49 \<le> length (slice off sz contents)"
      using h(2) by (auto simp: pack_Read_def slice_def HeaderSize_def min_def)
    then have "ParseHeader (slice off sz contents) = Inr (cid, sz)" using ParseHeader_take h(1) by metis
    then show ?thesis using h(4) e by (intro exI [of _ e]) auto
  qed
qed

text \<open>C30. A walk that ends without an error has not skipped anything: its objects follow each other from
  the start of the pack without gaps, every one with a valid header of its size and id, and what is
  left behind the last one is shorter than a header. Such a set of ranges passes
  \<open>CheckPackObjects\<close>.\<close>

theorem walk_tiles_pack:
  assumes "IterHeaders contents = (es, None)"
  shows "CheckPackObjects es (length contents) = Inr ()
    \<and> (\<exists>e. e \<le> length contents \<and> length contents < e + 49 \<and> map pe_Offset es @ [e] = 0 # map (\<lambda>x. pe_Offset x + pe_Size x) es)
    \<and> (\<forall>x\<in>set es. ParseHeader (slice (pe_Offset x) (pe_Size x) contents) = Inr (pe_ChunkID x, pe_Size x))"
  using iterFrom_tiles [of contents 0 es] assms by (auto simp: IterHeaders_def CheckPackObjects_def)

theorem walk_tiles_pack_witness:
  "CheckPackObjects [\<lparr>pe_ChunkID = replicate 32 7, pe_Offset = 0, pe_Size = 49\<rparr>] (length (bare_object @ [1, 2, 3])) = Inr ()"
proof -
  have "IterHeaders (bare_object @ [1, 2, 3]) = ([\<lparr>pe_ChunkID = replicate 32 7, pe_Offset = 0, pe_Size = 49\<rparr>], None)" by code_simp
  then show ?thesis using walk_tiles_pack by blast
qed

section \<open>The writer keeps index and packs in step\<close>

definition pending :: "entry \<Rightarrow> bool" where
  "pending e \<longleftrightarrow> flags e AND FPending \<noteq> 0"

definition waiting :: "pack_writer \<Rightarrow> bytes set" where
  "waiting w = pc_chunkID ` set (pw_pieces w) \<union> (case pw_inflight w of None \<Rightarrow> {} | Some pk \<Rightarrow> set (pendingIDs pk))"

text \<open>An entry that leads to stored data.\<close>

definition locates :: "(bytes \<times> bytes) list \<Rightarrow> entry \<Rightarrow> bytes \<Rightarrow> bool" where
  "locates log e d \<longleftrightarrow> (\<exists>pack. map_of log (packID e) = Some pack \<and> pack_Read pack (unat (objOffset e)) (unat (objSize e)) = d \<and> length d = unat (objSize e))"

lemma deleteAll_correct:
  assumes "ci_inv c" "ci_room n c" "\<forall>i\<in>set ids. length i = 32"
  shows "\<exists>c'. deleteAll c ids = Some c' \<and> ci_inv c' \<and> ci_room n c' \<and> ci_map c' = (\<lambda>k. if k \<in> set ids then None else ci_map c k)"
  using assms
proof (induction ids arbitrary: c)
  case (Cons i ids)
  have "length i = ChunkIDSize" using Cons.prems(3) by (simp add: ChunkIDSize_def)
  from index_Delete_correct [OF Cons.prems(1) this Cons.prems(2)] obtain c1
    where c1: "index_Delete c i = Some (c1, ci_map c i \<noteq> None)" "ci_inv c1" "ci_room n c1" "ci_map c1 = (ci_map c)(i := None)" by blast
  from Cons.IH [OF c1(2,3)] Cons.prems(3) obtain c2 where
    "deleteAll c1 ids = Some c2" "ci_inv c2" "ci_room n c2" "ci_map c2 = (\<lambda>k. if k \<in> set ids then None else ci_map c1 k)" by auto
  then show ?case using c1 by (auto simp: fun_eq_iff)
qed simp

lemma resolve_all_other: "k \<notin> prChunkID ` set rs \<Longrightarrow> resolve_all m rs k = m k"
  by (induction m rs rule: resolve_all.induct) auto

lemma resolve_all_hit:
  "m k = Some e \<Longrightarrow> k \<in> prChunkID ` set rs \<Longrightarrow> \<exists>r e'. r \<in> set rs \<and> prChunkID r = k \<and> resolve_all m rs k = Some e' \<and> \<not> pending e'
    \<and> packID e' = prPackID r \<and> objOffset e' = prOffset r \<and> objSize e' = prSize r \<and> esize e' = esize e"
proof (induction m rs arbitrary: e rule: resolve_all.induct)
  case (2 m r rs)
  let ?m = "m(prChunkID r := map_option (\<lambda>e. resolved e r) (m (prChunkID r)))"
  show ?case
  proof (cases "k \<in> prChunkID ` set rs")
    case True
    define e1 where "e1 = (if k = prChunkID r then resolved e r else e)"
    have "?m k = Some e1" using 2(2) by (auto simp: e1_def)
    from 2(1) [OF this True] obtain ra e' where "ra \<in> set rs" "prChunkID ra = k" "resolve_all ?m rs k = Some e'" "\<not> pending e'"
      "packID e' = prPackID ra" "objOffset e' = prOffset ra" "objSize e' = prSize ra" "esize e' = esize e1" by blast
    moreover have "esize e1 = esize e" by (simp add: e1_def resolved_def)
    ultimately show ?thesis by (intro exI [of _ ra] exI [of _ e']) simp
  next
    case False
    then have k: "k = prChunkID r" using 2(3) by auto
    have "\<not> pending (resolved e r)" unfolding pending_def has_flag by (simp add: resolved_def bit_simps)
    then show ?thesis using k 2(2) resolve_all_other [OF False, of ?m] by (intro exI [of _ r] exI [of _ "resolved e r"]) (simp add: resolved_def)
  qed
qed simp

lemma packResults_ids: "map prChunkID (packResults pid off ps) = map pc_chunkID ps"
  by (induction ps arbitrary: off) auto

lemma packResults_data:
  assumes "r \<in> set (packResults pid (length pre) ps)" "length pre + length (concat (map pc_data ps)) < 2 ^ 32"
  shows "\<exists>p\<in>set ps. pc_chunkID p = prChunkID r \<and> prPackID r = pid \<and> pack_Read (pre @ concat (map pc_data ps)) (unat (prOffset r)) (unat (prSize r)) = pc_data p
    \<and> unat (prSize r) = length (pc_data p)"
  using assms
proof (induction ps arbitrary: pre)
  case (Cons p ps)
  show ?case
  proof (cases "r \<in> set (packResults pid (length (pre @ pc_data p)) ps)")
    case True
    then show ?thesis using Cons.IH [of "pre @ pc_data p"] Cons.prems(2) by auto
  next
    case False
    then have r: "r = \<lparr>prChunkID = pc_chunkID p, prPackID = pid, prOffset = word_of_nat (length pre), prSize = word_of_nat (length (pc_data p))\<rparr>"
      using Cons.prems(1) by auto
    have "unat (prOffset r) = length pre" "unat (prSize r) = length (pc_data p)" using Cons.prems(2) by (simp_all add: r unat_of_nat)
    moreover have "pack_Read (pre @ pc_data p @ x) (length pre) (length (pc_data p)) = pc_data p" for x
      by (cases "pc_data p = []") (auto simp: pack_Read_def slice_def)
    ultimately show ?thesis using r by simp
  qed
qed simp

text \<open>The invariant of index and packs, relative to the ids \<open>W\<close> that are buffered or in flight: an entry
  that is not pending satisfies \<open>Q\<close>.\<close>

definition in_step :: "bytes set \<Rightarrow> (bytes \<Rightarrow> entry \<Rightarrow> bool) \<Rightarrow> chunk_index \<Rightarrow> bytes set \<Rightarrow> bool" where
  "in_step Z Q c W \<longleftrightarrow> ci_inv c \<and> (\<forall>i\<in>W. length i = 32 \<and> i \<in> dom (ci_map c))
     \<and> (\<forall>i e. ci_map c i = Some e \<longrightarrow> (i \<in> Z \<longrightarrow> esize e = 0) \<and> (if pending e then i \<in> W else Q i e))"

lemma in_step_mono: "in_step Z Q c W \<Longrightarrow> (\<And>i e. Q i e \<Longrightarrow> Q' i e) \<Longrightarrow> in_step Z Q' c W"
  by (auto simp: in_step_def)

lemma in_step_delete:
  assumes "in_step Z Q c W" "ci_room n c" "\<forall>i\<in>set ids. length i = 32"
  shows "\<exists>c'. deleteAll c ids = Some c' \<and> ci_room n c' \<and> in_step Z Q c' (W - set ids)"
proof -
  have "ci_inv c" using assms by (auto simp: in_step_def)
  from deleteAll_correct [OF this assms(2,3)] obtain c' where
    c': "deleteAll c ids = Some c'" "ci_inv c'" "ci_room n c'" "ci_map c' = (\<lambda>k. if k \<in> set ids then None else ci_map c k)" by blast
  moreover have "in_step Z Q c' (W - set ids)" using assms(1) c'(2) unfolding in_step_def c'(4) by (auto split: if_splits)
  ultimately show ?thesis by blast
qed

definition good_result :: "(bytes \<Rightarrow> entry \<Rightarrow> bool) \<Rightarrow> pack_result \<Rightarrow> bool" where
  "good_result Q r \<longleftrightarrow> length (prPackID r) = 32
     \<and> (\<forall>e. packID e = prPackID r \<and> objOffset e = prOffset r \<and> objSize e = prSize r \<longrightarrow> Q (prChunkID r) e)"

lemma dom_resolve_all: "dom (resolve_all m rs) = dom m"
proof (induction m rs rule: resolve_all.induct)
  case (2 m r rs)
  have "dom (m(prChunkID r := map_option (\<lambda>e. resolved e r) (m (prChunkID r)))) = dom m" by (auto split: if_splits)
  with 2 show ?case by (simp only: resolve_all.simps)
qed simp

lemma in_step_update:
  assumes st: "in_step Z Q c W" and room: "ci_room n c" and ids: "prChunkID ` set rs \<subseteq> dom (ci_map c)" and rs: "\<forall>r\<in>set rs. good_result Q r"
    and W': "W - prChunkID ` set rs \<subseteq> W'" "W' \<subseteq> W"
  shows "\<exists>c'. UpdatePackInfo c rs = Some (c', Inr ()) \<and> ci_room n c' \<and> in_step Z Q c' W' \<and> dom (ci_map c') = dom (ci_map c)"
proof -
  have inv: "ci_inv c" using st by (simp add: in_step_def)
  have "\<forall>r\<in>set rs. prChunkID r \<in> dom (ci_map c) \<and> length (prPackID r) = 32" using ids rs by (auto simp: good_result_def)
  from UpdatePackInfo_correct [OF inv room this] obtain c' where
    c': "UpdatePackInfo c rs = Some (c', Inr ())" "ci_inv c'" "ci_room n c'" "ci_map c' = resolve_all (ci_map c) rs" by blast
  have e: "(i \<in> Z \<longrightarrow> esize e = 0) \<and> (if pending e then i \<in> W' else Q i e)" if i: "ci_map c' i = Some e" for i e
  proof (cases "i \<in> prChunkID ` set rs")
    case True
    have "i \<in> dom (ci_map c)" using i dom_resolve_all [of "ci_map c" rs] by (auto simp: c'(4))
    then obtain e0 where e0: "ci_map c i = Some e0" by blast
    from resolve_all_hit [of "ci_map c" i, OF e0 True] obtain r e' where r: "r \<in> set rs" "prChunkID r = i" "resolve_all (ci_map c) rs i = Some e'" "\<not> pending e'"
      "packID e' = prPackID r" "objOffset e' = prOffset r" "objSize e' = prSize r" "esize e' = esize e0" by blast
    have "i \<in> Z \<longrightarrow> esize e0 = 0" using st e0 by (auto simp: in_step_def)
    moreover have "good_result Q r" using rs r(1) by blast
    ultimately show ?thesis using r i by (auto simp: c'(4) good_result_def)
  next
    case False
    then have "ci_map c i = Some e" using i resolve_all_other [OF False, of "ci_map c"] by (simp add: c'(4))
    then have "(i \<in> Z \<longrightarrow> esize e = 0) \<and> (if pending e then i \<in> W else Q i e)" using st unfolding in_step_def by blast
    then show ?thesis using False W'(1) by auto
  qed
  have d: "dom (ci_map c') = dom (ci_map c)" by (simp only: c'(4) dom_resolve_all)
  have "\<forall>i\<in>W'. length i = 32 \<and> i \<in> dom (ci_map c')" unfolding d using st W'(2) by (auto simp: in_step_def)
  then show ?thesis using c' e d by (auto simp: in_step_def)
qed

lemma in_step_add:
  assumes st: "in_step Z Q c W" and room: "ci_room (Suc n) c" and i: "length i = 32"
    and sz: "\<not> size_conflict (ci_map c i) s" "i \<in> Z \<Longrightarrow> s = 0"
  shows "\<exists>c'. index_Add c i s = Some (c', Inr ()) \<and> ci_room n c' \<and> in_step Z Q c' (insert i W) \<and> dom (ci_map c') = insert i (dom (ci_map c))
    \<and> (\<exists>e. ci_map c' i = Some e \<and> esize e = s)"
proof -
  have inv: "ci_inv c" using st by (simp add: in_step_def)
  from index_Add_correct [OF inv _ room sz(1)] i obtain c' where c': "index_Add c i s = Some (c', Inr ())" "ci_inv c'" "ci_room n c'"
    "ci_map c' = (ci_map c)(i \<mapsto> stored_entry (ci_map c i) (added_entry (ci_map c i) s))" by (auto simp: ChunkIDSize_def)
  have p: "pending (stored_entry (ci_map c i) (added_entry (ci_map c i) s))"
    unfolding pending_def has_flag by (auto simp: stored_entry_def added_entry_def bit_simps split: option.split)
  have z: "esize (stored_entry (ci_map c i) (added_entry (ci_map c i) s)) = s" by (simp add: stored_entry_def added_entry_def)
  have "in_step Z Q c' (insert i W)" using st i p z c'(2) sz(2) unfolding in_step_def c'(4) by (auto split: if_splits)
  then show ?thesis using c' z by auto
qed

lemma no_size_conflict: "in_step Z Q c W \<Longrightarrow> i \<in> Z \<Longrightarrow> \<not> size_conflict (ci_map c i) s"
  by (auto simp: size_conflict_def in_step_def)

lemma in_step_sizes: "in_step Z Q c W \<Longrightarrow> \<forall>i\<in>Z' - Z. ci_map c i = None \<Longrightarrow> in_step Z' Q c W"
  unfolding in_step_def by (metis DiffI option.simps(3))

text \<open>A pack that is stored does not disturb the others, unless two packs have the same hash.\<close>

definition found :: "(bytes \<times> bytes) set \<Rightarrow> (bytes \<times> bytes) list \<Rightarrow> bytes \<Rightarrow> entry \<Rightarrow> bool" where
  "found added log i e \<longleftrightarrow> (\<exists>d. (i, d) \<in> added \<and> locates log e d)"

lemma found_Cons:
  assumes keys: "\<forall>(k, v)\<in>set log. k = sha v" and inj: "inj_on sha (snd ` set ((sha p, p) # log))" and f: "found added log i e"
  shows "found added ((sha p, p) # log) i e"
proof -
  have "map_of ((sha p, p) # log) k = Some v" if "map_of log k = Some v" for k v
  proof -
    have "(k, v) \<in> set log" using that by (rule map_of_SomeD)
    then have "k = sha v" "v \<in> snd ` set ((sha p, p) # log)" using keys by (auto intro: rev_image_eqI)
    moreover have "p \<in> snd ` set ((sha p, p) # log)" by simp
    ultimately have "k = sha p \<Longrightarrow> v = p" using inj by (metis inj_onD)
    then show ?thesis using that by auto
  qed
  then show ?thesis using f unfolding found_def locates_def by blast
qed

definition foundc :: "(bytes \<Rightarrow> bytes) \<Rightarrow> (bytes \<times> bytes) set \<Rightarrow> (bytes \<times> bytes) list \<Rightarrow> bytes \<Rightarrow> entry \<Rightarrow> bool" where
  "foundc sha added log i e \<longleftrightarrow> inj_on sha (snd ` set log) \<longrightarrow> found added log i e"

lemma foundc_mono: "added \<subseteq> added' \<Longrightarrow> foundc sha added log i e \<Longrightarrow> foundc sha added' log i e"
  by (auto simp: foundc_def found_def)

definition outcome_ok :: "(bytes \<Rightarrow> entry \<Rightarrow> bool) \<Rightarrow> inflightPack \<Rightarrow> bool" where
  "outcome_ok Q pk \<longleftrightarrow> (\<forall>i\<in>set (pendingIDs pk). length i = 32) \<and>
     (case in_outcome pk of Inl _ \<Rightarrow> True | Inr rs \<Rightarrow> map prChunkID rs = pendingIDs pk \<and> (\<forall>r\<in>set rs. good_result Q r))"

lemma outcome_ok_mono: "outcome_ok Q pk \<Longrightarrow> (\<And>i e. Q i e \<Longrightarrow> Q' i e) \<Longrightarrow> outcome_ok Q' pk"
  by (auto simp: outcome_ok_def good_result_def split: sum.splits)

definition buffered :: "pack_writer \<Rightarrow> bytes set" where
  "buffered w = pc_chunkID ` set (pw_pieces w)"

definition pw_ok :: "bytes set \<Rightarrow> (bytes \<Rightarrow> bytes) \<Rightarrow> nat \<Rightarrow> (bytes \<times> bytes) set \<Rightarrow> pack_writer \<Rightarrow> bool" where
  "pw_ok Z sha n added w \<longleftrightarrow> in_step Z (foundc sha added (pw_log w)) (pw_index w) (waiting w) \<and> ci_room n (pw_index w)
     \<and> (\<forall>(k, v)\<in>set (pw_log w). k = sha v) \<and> pw_size w = length (concat (map pc_data (pw_pieces w))) \<and> pw_size w < 2 ^ 32
     \<and> (\<forall>p\<in>set (pw_pieces w). (pc_chunkID p, pc_data p) \<in> added)
     \<and> (\<forall>pk. pw_inflight w = Some pk \<longrightarrow> outcome_ok (foundc sha added (pw_log w)) pk)"

lemma waiting_split: "waiting w = buffered w \<union> (case pw_inflight w of None \<Rightarrow> {} | Some pk \<Rightarrow> set (pendingIDs pk))"
  by (simp add: waiting_def buffered_def)

text \<open>No pack in flight has failed.\<close>

definition no_failed :: "pack_writer \<Rightarrow> bool" where
  "no_failed w \<longleftrightarrow> (\<forall>pk e. pw_inflight w = Some pk \<longrightarrow> in_outcome pk \<noteq> Inl e)"

definition results_ok :: "(bytes \<Rightarrow> entry \<Rightarrow> bool) \<Rightarrow> bytes set \<Rightarrow> pack_result list \<Rightarrow> bool" where
  "results_ok Q D rs \<longleftrightarrow> (\<forall>r\<in>set rs. good_result Q r \<and> prChunkID r \<in> D)"

lemma results_ok_mono: "results_ok Q D rs \<Longrightarrow> (\<And>i e. Q i e \<Longrightarrow> Q' i e) \<Longrightarrow> D \<subseteq> D' \<Longrightarrow> results_ok Q' D' rs"
  unfolding results_ok_def good_result_def by blast

lemma applyOutcome_correct:
  assumes st: "in_step Z Q (pw_index w) (buffered w \<union> set (pendingIDs pk))" and room: "ci_room n (pw_index w)"
    and out: "outcome_ok Q pk"
  shows "\<exists>r c'. applyOutcome w pk = Some (r, w\<lparr>pw_index := c'\<rparr>) \<and> ci_room n c' \<and> ((\<exists>e. r = Inl e) \<longrightarrow> (\<exists>e. in_outcome pk = Inl e))
    \<and> (case r of Inl _ \<Rightarrow> in_step Z Q c' (buffered w - set (pendingIDs pk))
       | Inr rs \<Rightarrow> in_step Z Q c' (buffered w) \<and> dom (ci_map c') = dom (ci_map (pw_index w))
           \<and> results_ok Q (dom (ci_map (pw_index w))) rs \<and> prChunkID ` set rs = set (pendingIDs pk))"
proof (cases "in_outcome pk")
  case (Inl e)
  have "\<forall>i\<in>set (pendingIDs pk). length i = 32" using out by (simp add: outcome_ok_def)
  from in_step_delete [OF st room this] show ?thesis using Inl by (auto simp: applyOutcome_def Un_Diff)
next
  case (Inr rs)
  then have rs: "map prChunkID rs = pendingIDs pk" "\<forall>r\<in>set rs. good_result Q r" using out by (auto simp: outcome_ok_def)
  then have ids: "prChunkID ` set rs = set (pendingIDs pk)" by (metis set_map)
  have d: "prChunkID ` set rs \<subseteq> dom (ci_map (pw_index w))" using st by (auto simp: ids in_step_def)
  have sub: "buffered w \<union> set (pendingIDs pk) - prChunkID ` set rs \<subseteq> buffered w" "buffered w \<subseteq> buffered w \<union> set (pendingIDs pk)" by (auto simp: ids)
  obtain c' where "UpdatePackInfo (pw_index w) rs = Some (c', Inr ())" "ci_room n c'"
    "in_step Z Q c' (buffered w)" "dom (ci_map c') = dom (ci_map (pw_index w))" using in_step_update [OF st room d rs(2) sub] by auto
  moreover have "results_ok Q (dom (ci_map (pw_index w))) rs" using rs(2) d by (auto simp: results_ok_def)
  ultimately show ?thesis using Inr ids by (intro exI [of _ "Inr rs"] exI [of _ c']) (simp add: applyOutcome_def)
qed

lemma dropBuffered_correct:
  assumes "in_step Z Q (pw_index w) W" "ci_room n (pw_index w)" "W \<subseteq> buffered w" "\<forall>i\<in>buffered w. length i = 32"
  shows "\<exists>c'. dropBuffered w = Some (w\<lparr>pw_pieces := [], pw_size := 0, pw_index := c'\<rparr>) \<and> ci_room n c' \<and> in_step Z Q c' {}"
proof -
  have "\<forall>i\<in>set (map pc_chunkID (pw_pieces w)). length i = 32" using assms(4) by (simp add: buffered_def)
  from in_step_delete [OF assms(1,2) this] obtain c' where
    "deleteAll (pw_index w) (map pc_chunkID (pw_pieces w)) = Some c'" "ci_room n c'" "in_step Z Q c' (W - buffered w)"
    by (auto simp: buffered_def)
  moreover have "W - buffered w = {}" using assms(3) by blast
  ultimately show ?thesis by (intro exI [of _ c']) (simp add: dropBuffered_def takePieces_def)
qed

lemma JoinInflight_correct:
  assumes ok: "pw_ok Z sha n added w"
  shows "\<exists>r w'. JoinInflight w = Some (r, w') \<and> pw_ok Z sha n added w' \<and> pw_inflight w' = None \<and> pw_log w' = pw_log w \<and> maxSize w' = maxSize w
    \<and> (no_failed w \<longrightarrow> (\<exists>rs. r = Inr rs))
    \<and> (case r of Inl _ \<Rightarrow> pw_pieces w' = [] \<and> pw_size w' = 0
       | Inr rs \<Rightarrow> pw_pieces w' = pw_pieces w \<and> pw_size w' = pw_size w \<and> dom (ci_map (pw_index w')) = dom (ci_map (pw_index w))
           \<and> results_ok (foundc sha added (pw_log w)) (dom (ci_map (pw_index w))) rs)"
proof (cases "pw_inflight w")
  case None
  then show ?thesis using ok by (simp add: JoinInflight_def results_ok_def)
next
  case (Some pk)
  let ?w = "w\<lparr>pw_inflight := None\<rparr>" and ?Q = "foundc sha added (pw_log w)"
  have b: "buffered ?w = buffered w" "pw_index ?w = pw_index w" by (simp_all add: buffered_def)
  have o: "in_step Z ?Q (pw_index ?w) (buffered ?w \<union> set (pendingIDs pk))" "ci_room n (pw_index ?w)" "outcome_ok ?Q pk"
    using ok Some by (simp_all add: pw_ok_def waiting_split b)
  from applyOutcome_correct [OF o] obtain r c' where a: "applyOutcome ?w pk = Some (r, ?w\<lparr>pw_index := c'\<rparr>)" "ci_room n c'"
    "case r of Inl _ \<Rightarrow> in_step Z ?Q c' (buffered w - set (pendingIDs pk))
       | Inr rs \<Rightarrow> in_step Z ?Q c' (buffered w) \<and> dom (ci_map c') = dom (ci_map (pw_index w))
           \<and> results_ok ?Q (dom (ci_map (pw_index w))) rs \<and> prChunkID ` set rs = set (pendingIDs pk)"
      "(\<exists>e. r = Inl e) \<longrightarrow> (\<exists>e. in_outcome pk = Inl e)"
    unfolding b by blast
  show ?thesis
  proof (cases r)
    case (Inl e)
    let ?w1 = "?w\<lparr>pw_index := c'\<rparr>"
    have "\<forall>i\<in>buffered ?w1. length i = 32" using o(1) by (auto simp: in_step_def buffered_def)
    moreover have "in_step Z ?Q (pw_index ?w1) (buffered w - set (pendingIDs pk))" using a(3) Inl by simp
    moreover have "buffered w - set (pendingIDs pk) \<subseteq> buffered ?w1" "ci_room n (pw_index ?w1)" using a(2) by (auto simp: buffered_def)
    ultimately obtain c2 where "dropBuffered ?w1 = Some (?w1\<lparr>pw_pieces := [], pw_size := 0, pw_index := c2\<rparr>)" "ci_room n c2" "in_step Z ?Q c2 {}"
      using dropBuffered_correct [of Z ?Q ?w1 "buffered w - set (pendingIDs pk)" n] by blast
    then show ?thesis using Some a(1,4) Inl ok
      by (intro exI [of _ r] exI [of _ "?w1\<lparr>pw_pieces := [], pw_size := 0, pw_index := c2\<rparr>"]) (auto simp: JoinInflight_def pw_ok_def waiting_def no_failed_def)
  next
    case (Inr rs)
    then show ?thesis using Some a ok
      by (intro exI [of _ r] exI [of _ "?w\<lparr>pw_index := c'\<rparr>"]) (simp add: JoinInflight_def pw_ok_def waiting_def buffered_def)
  qed
qed

lemma storePack_correct:
  assumes sha: "\<forall>b. length (sha b) = 32" and ps: "\<forall>p\<in>set ps. (pc_chunkID p, pc_data p) \<in> added \<and> length (pc_chunkID p) = 32"
    and sz: "length (concat (map pc_data ps)) < 2 ^ 32" and keys: "\<forall>(k, v)\<in>set (pw_log w). k = sha v"
    and s: "storePack sha fails w ps = (outcome, w')"
  shows "w' = w\<lparr>pw_calls := Suc (pw_calls w), pw_log := pw_log w'\<rparr>" "set (pw_log w) \<subseteq> set (pw_log w')" "\<forall>(k, v)\<in>set (pw_log w'). k = sha v"
    "outcome_ok (foundc sha added (pw_log w')) \<lparr>pendingIDs = map pc_chunkID ps, in_outcome = outcome\<rparr>"
    "foundc sha added (pw_log w) i e \<Longrightarrow> foundc sha added (pw_log w') i e"
proof -
  let ?d = "concat (map pc_data ps)"
  have cases: "outcome = Inl StoreFailed \<and> pw_log w' = pw_log w \<or> outcome = Inr (packResults (sha ?d) 0 ps) \<and> pw_log w' = (sha ?d, ?d) # pw_log w"
    using s by (auto simp: storePack_def Let_def split: if_splits)
  show "w' = w\<lparr>pw_calls := Suc (pw_calls w), pw_log := pw_log w'\<rparr>" using s by (auto simp: storePack_def Let_def split: if_splits)
  show "set (pw_log w) \<subseteq> set (pw_log w')" "\<forall>(k, v)\<in>set (pw_log w'). k = sha v" using cases keys by auto
  have "inj_on sha (snd ` set (pw_log w))" if "inj_on sha (snd ` set (pw_log w'))" by (rule inj_on_subset [OF that]) (use cases in auto)
  then show "foundc sha added (pw_log w') i e" if "foundc sha added (pw_log w) i e"
    using cases found_Cons [OF keys] that by (auto simp: foundc_def)
  have g: "outcome_ok (found added (pw_log w')) \<lparr>pendingIDs = map pc_chunkID ps, in_outcome = outcome\<rparr>"
  proof (cases outcome)
    case (Inl e)
    then show ?thesis using ps by (simp add: outcome_ok_def)
  next
    case (Inr rs)
    then have rs: "rs = packResults (sha ?d) 0 ps" and l: "pw_log w' = (sha ?d, ?d) # pw_log w" using cases by auto
    have "good_result (found added (pw_log w')) r" if "r \<in> set rs" for r
    proof -
      have "\<exists>p\<in>set ps. pc_chunkID p = prChunkID r \<and> prPackID r = sha ?d \<and> pack_Read ([] @ ?d) (unat (prOffset r)) (unat (prSize r)) = pc_data p
          \<and> unat (prSize r) = length (pc_data p)"
        by (rule packResults_data) (use that sz in \<open>simp_all add: rs\<close>)
      then show ?thesis using ps sha l by (force simp: good_result_def found_def locates_def)
    qed
    then show ?thesis using ps Inr by (simp add: outcome_ok_def rs packResults_ids)
  qed
  show "outcome_ok (foundc sha added (pw_log w')) \<lparr>pendingIDs = map pc_chunkID ps, in_outcome = outcome\<rparr>"
    by (rule outcome_ok_mono [OF g]) (simp add: foundc_def)
qed

lemma Flush_correct:
  assumes sha: "\<forall>b. length (sha b) = 32" and ok: "pw_ok Z sha n added w"
  shows "\<exists>r w'. Flush sha fails w = Some (r, w') \<and> set (pw_log w) \<subseteq> set (pw_log w') \<and> maxSize w' = maxSize w
    \<and> pw_ok Z sha n added w' \<and> pw_inflight w' = None \<and> pw_pieces w' = [] \<and> pw_size w' = 0
    \<and> (no_failed w \<and> (\<forall>m. \<not> fails m) \<longrightarrow> (\<exists>rs. r = Inr rs))
    \<and> (case r of Inl _ \<Rightarrow> True | Inr rs \<Rightarrow> dom (ci_map (pw_index w')) = dom (ci_map (pw_index w))
         \<and> results_ok (foundc sha added (pw_log w')) (dom (ci_map (pw_index w))) rs \<and> buffered w \<subseteq> prChunkID ` set rs)"
proof -
  from JoinInflight_correct [OF ok] obtain r w1 where j: "JoinInflight w = Some (r, w1)" "pw_ok Z sha n added w1" "pw_inflight w1 = None" "pw_log w1 = pw_log w"
    "maxSize w1 = maxSize w" "case r of Inl _ \<Rightarrow> pw_pieces w1 = [] \<and> pw_size w1 = 0
       | Inr rs \<Rightarrow> pw_pieces w1 = pw_pieces w \<and> pw_size w1 = pw_size w \<and> dom (ci_map (pw_index w1)) = dom (ci_map (pw_index w))
           \<and> results_ok (foundc sha added (pw_log w)) (dom (ci_map (pw_index w))) rs" "no_failed w \<longrightarrow> (\<exists>rs. r = Inr rs)" by blast
  show ?thesis
  proof (cases "\<exists>rs. r = Inr rs \<and> pw_pieces w1 \<noteq> []")
    case False
    then have e: "Flush sha fails w = Some (r, w1)" using j(1) by (cases r) (auto simp: Flush_def)
    have "pw_pieces w1 = []" using False j(6) by (cases r) auto
    moreover from this have "pw_size w1 = 0" using j(2) by (simp add: pw_ok_def)
    ultimately show ?thesis using e j by (intro exI [of _ r] exI [of _ w1]) (cases r; simp add: buffered_def)
  next
    case True
    then obtain rs where r: "r = Inr rs" and ne: "pw_pieces w1 \<noteq> []" by blast
    let ?ps = "pw_pieces w1" and ?w2 = "w1\<lparr>pw_pieces := [], pw_size := 0\<rparr>"
    obtain outcome w3 where s: "storePack sha fails ?w2 ?ps = (outcome, w3)" by fastforce
    have ps: "\<forall>p\<in>set ?ps. (pc_chunkID p, pc_data p) \<in> added \<and> length (pc_chunkID p) = 32" "length (concat (map pc_data ?ps)) < 2 ^ 32" "\<forall>(k, v)\<in>set (pw_log ?w2). k = sha v"
      using j(2) by (auto simp: pw_ok_def in_step_def waiting_def)
    note st = storePack_correct [OF sha ps s]
    let ?pk = "\<lparr>pendingIDs = map pc_chunkID ?ps, in_outcome = outcome\<rparr>"
    let ?Q = "foundc sha added (pw_log w3)"
    have w3: "pw_index w3 = pw_index w1" "pw_pieces w3 = []" "pw_size w3 = 0" "pw_inflight w3 = None" "maxSize w3 = maxSize w" "buffered w3 = {}"
      using j(3,5) by (subst st(1), simp add: buffered_def)+
    have "in_step Z (foundc sha added (pw_log ?w2)) (pw_index w1) (set (map pc_chunkID ?ps))" using j(2,3) by (simp add: pw_ok_def waiting_def)
    then have base: "in_step Z ?Q (pw_index w3) (buffered w3 \<union> set (pendingIDs ?pk))"
      using in_step_mono [OF _ st(5)] by (simp add: w3)
    have room: "ci_room n (pw_index w3)" using j(2) by (simp add: pw_ok_def w3)
    from applyOutcome_correct [OF base room st(4)] obtain r2 c' where a: "applyOutcome w3 ?pk = Some (r2, w3\<lparr>pw_index := c'\<rparr>)" "ci_room n c'"
        and q: "case r2 of Inl _ \<Rightarrow> in_step Z ?Q c' (buffered w3 - set (pendingIDs ?pk))
          | Inr x \<Rightarrow> in_step Z ?Q c' (buffered w3) \<and> dom (ci_map c') = dom (ci_map (pw_index w3))
             \<and> results_ok ?Q (dom (ci_map (pw_index w3))) x \<and> prChunkID ` set x = set (pendingIDs ?pk)"
        and cl: "(\<exists>e. r2 = Inl e) \<longrightarrow> (\<exists>e. in_outcome ?pk = Inl e)" by blast
    have step: "in_step Z ?Q c' {}" using q by (auto simp: w3 split: sum.splits)
    let ?w4 = "w3\<lparr>pw_index := c'\<rparr>" and ?r = "case r2 of Inl e \<Rightarrow> Inl e | Inr x \<Rightarrow> Inr (rs @ x)"
    have "dropBuffered ?w4 = Some ?w4" by (simp add: dropBuffered_def takePieces_def w3)
    then have f: "Flush sha fails w = Some (?r, ?w4)"
      using j(1) r ne s a(1) by (cases r2) (simp_all add: Flush_def takePieces_def)
    have "pw_ok Z sha n added ?w4" using a(2) step st(3) w3 by (simp add: pw_ok_def waiting_def)
    moreover have "set (pw_log w) \<subseteq> set (pw_log ?w4)" using st(2) j(4) by simp
    moreover have "case ?r of Inl _ \<Rightarrow> True | Inr x \<Rightarrow> dom (ci_map (pw_index ?w4)) = dom (ci_map (pw_index w))
         \<and> results_ok (foundc sha added (pw_log ?w4)) (dom (ci_map (pw_index w))) x \<and> buffered w \<subseteq> prChunkID ` set x"
    proof (cases r2)
      case (Inr x)
      have "results_ok (foundc sha added (pw_log w)) (dom (ci_map (pw_index w))) rs" using j(6) r by simp
      then have "results_ok ?Q (dom (ci_map (pw_index w))) rs" by (rule results_ok_mono) (use st(5) j(4) in auto)
      moreover have "dom (ci_map (pw_index w1)) = dom (ci_map (pw_index w))" "pw_pieces w1 = pw_pieces w" using j(6) r by auto
      ultimately show ?thesis using q Inr by (auto simp: w3 results_ok_def buffered_def)
    qed simp
    moreover have "\<exists>x. ?r = Inr x" if "\<forall>m. \<not> fails m" using cl that s by (cases r2) (auto simp: storePack_def Let_def)
    ultimately show ?thesis using f w3 by (intro exI [of _ ?r] exI [of _ ?w4]) simp
  qed
qed

lemma handoff_correct:
  assumes sha: "\<forall>b. length (sha b) = 32" and ok: "pw_ok Z sha n added w" and idle: "pw_inflight w = None"
    and w'0: "w' = handoff sha fails w"
  shows "set (pw_log w) \<subseteq> set (pw_log w') \<and> maxSize w' = maxSize w \<and> pw_ok Z sha n added w'
    \<and> pw_size w' = 0 \<and> pw_index w' = pw_index w \<and> waiting w' = waiting w
    \<and> (\<forall>i e. foundc sha added (pw_log w) i e \<longrightarrow> foundc sha added (pw_log w') i e) \<and> ((\<forall>m. \<not> fails m) \<longrightarrow> no_failed w')"
proof (cases "pw_pieces w = []")
  case True
  then have "pw_size w = 0" using ok by (simp add: pw_ok_def)
  then have "w' = w" using True by (simp add: w'0 handoff_def takePieces_def)
  then show ?thesis using ok \<open>pw_size w = 0\<close> idle by (simp add: no_failed_def)
next
  case False
  let ?ps = "pw_pieces w" and ?w2 = "w\<lparr>pw_pieces := [], pw_size := 0\<rparr>"
  obtain outcome w3 where s: "storePack sha fails ?w2 ?ps = (outcome, w3)" by fastforce
  have ps: "\<forall>p\<in>set ?ps. (pc_chunkID p, pc_data p) \<in> added \<and> length (pc_chunkID p) = 32" "length (concat (map pc_data ?ps)) < 2 ^ 32" "\<forall>(k, v)\<in>set (pw_log ?w2). k = sha v"
    using ok by (auto simp: pw_ok_def in_step_def waiting_def)
  note st = storePack_correct [OF sha ps s]
  let ?pk = "\<lparr>pendingIDs = map pc_chunkID ?ps, in_outcome = outcome\<rparr>"
  have w': "w' = w3\<lparr>pw_inflight := Some ?pk\<rparr>" using False s by (simp add: w'0 handoff_def takePieces_def)
  have w3: "pw_index w3 = pw_index w" "pw_pieces w3 = []" "pw_size w3 = 0" "maxSize w3 = maxSize w" by (subst st(1), simp)+
  have "in_step Z (foundc sha added (pw_log ?w2)) (pw_index w) (set (map pc_chunkID ?ps))" using ok idle by (simp add: pw_ok_def waiting_def)
  then have "in_step Z (foundc sha added (pw_log w3)) (pw_index w) (set (map pc_chunkID ?ps))" using in_step_mono [OF _ st(5)] by simp
  moreover have "ci_room n (pw_index w)" using ok by (simp add: pw_ok_def)
  moreover have "foundc sha added (pw_log w) i e \<Longrightarrow> foundc sha added (pw_log w3) i e" for i e using st(5) [of i e] by simp
  moreover have "no_failed w'" if "\<forall>m. \<not> fails m" using that s by (auto simp: w' storePack_def no_failed_def Let_def)
  ultimately show ?thesis using st(2,3,4) w3 idle by (simp add: w' pw_ok_def waiting_def)
qed

text \<open>A writer with a size limit under which no offset leaves 32 bits.\<close>

definition pw_inv :: "bytes set \<Rightarrow> (bytes \<Rightarrow> bytes) \<Rightarrow> nat \<Rightarrow> (bytes \<times> bytes) set \<Rightarrow> pack_writer \<Rightarrow> bool" where
  "pw_inv Z sha n added w \<longleftrightarrow> pw_ok Z sha n added w \<and> 0 < maxSize w \<and> maxSize w \<le> 2 ^ 31 \<and> int (pw_size w) < maxSize w"

lemma pw_ok_weaken:
  assumes ok: "pw_ok Z sha n added w" and sub: "added \<subseteq> added'"
  shows "pw_ok Z sha n added' w"
proof -
  have m: "foundc sha added (pw_log w) i e \<Longrightarrow> foundc sha added' (pw_log w) i e" for i e using sub by (rule foundc_mono)
  have st: "in_step Z (foundc sha added (pw_log w)) (pw_index w) (waiting w)" "\<forall>pk. pw_inflight w = Some pk \<longrightarrow> outcome_ok (foundc sha added (pw_log w)) pk"
    using ok unfolding pw_ok_def by blast+
  have "in_step Z (foundc sha added' (pw_log w)) (pw_index w) (waiting w)" by (rule in_step_mono [OF st(1) m])
  moreover have "outcome_ok (foundc sha added' (pw_log w)) pk" if "pw_inflight w = Some pk" for pk
    by (rule outcome_ok_mono [OF _ m]) (use st(2) that in blast)
  ultimately show ?thesis using ok sub by (auto simp: pw_ok_def)
qed

lemma Add_correct:
  assumes sha: "\<forall>b. length (sha b) = 32" and inv: "pw_inv Z sha (Suc n) added w" and cid: "length cid = 32" "cid \<in> Z" and data: "length data < 2 ^ 31"
  shows "\<exists>r w'. pack_Add sha fails w cid data = Some (r, w') \<and> set (pw_log w) \<subseteq> set (pw_log w')
    \<and> pw_inv Z sha n (insert (cid, data) added) w' \<and> (no_failed w \<and> (\<forall>m. \<not> fails m) \<longrightarrow> no_failed w' \<and> (\<exists>rs. r = Inr rs))
    \<and> (case r of Inl _ \<Rightarrow> True | Inr rs \<Rightarrow> dom (ci_map (pw_index w')) = insert cid (dom (ci_map (pw_index w)))
         \<and> results_ok (foundc sha (insert (cid, data) added) (pw_log w')) (dom (ci_map (pw_index w'))) rs \<and> (cid \<in> waiting w' \<or> cid \<in> prChunkID ` set rs))"
proof -
  let ?added = "insert (cid, data) added"
  have ok: "pw_ok Z sha (Suc n) ?added w" using inv pw_ok_weaken [of Z sha "Suc n" added w ?added] by (auto simp: pw_inv_def)
  have st: "in_step Z (foundc sha ?added (pw_log w)) (pw_index w) (waiting w)" "ci_room (Suc n) (pw_index w)" using ok by (simp_all add: pw_ok_def)
  from in_step_add [OF st cid(1) no_size_conflict [OF st(1) cid(2)], of 0] obtain c where c: "index_Add (pw_index w) cid 0 = Some (c, Inr ())" "ci_room n c"
    "in_step Z (foundc sha ?added (pw_log w)) c (insert cid (waiting w))" "dom (ci_map c) = insert cid (dom (ci_map (pw_index w)))" by blast
  let ?w2 = "w\<lparr>pw_index := c, pw_pieces := pw_pieces w @ [\<lparr>pc_chunkID = cid, pc_data = data\<rparr>], pw_size := pw_size w + length data\<rparr>"
  have "int (pw_size w) < 2 ^ 31" using inv by (simp add: pw_inv_def)
  then have sz: "pw_size w + length data < 2 ^ 32" using data by simp
  have wt: "waiting ?w2 = insert cid (waiting w)" "cid \<in> buffered ?w2" by (auto simp: waiting_def buffered_def split: option.split)
  then have ok2: "pw_ok Z sha n ?added ?w2" using ok c sz by (auto simp: pw_ok_def)
  have add: "pack_Add sha fails w cid data = (if \<not> pack_full ?w2 then Some (Inr [], ?w2) else if \<not> pw_async ?w2 then Flush sha fails ?w2
      else Option.bind (JoinInflight ?w2) (\<lambda>(r2, w3). case r2 of Inl e \<Rightarrow> Some (Inl e, w3) | Inr results \<Rightarrow> Some (Inr results, handoff sha fails w3)))"
    using cid(1) c(1) by (simp add: pack_Add_def)
  have nf: "no_failed ?w2 = no_failed w" by (simp add: no_failed_def)
  have ms: "0 < maxSize w" "maxSize w \<le> 2 ^ 31" using inv by (simp_all add: pw_inv_def)
  consider "\<not> pack_full ?w2" | "pack_full ?w2" "\<not> pw_async ?w2" | "pack_full ?w2" "pw_async ?w2" by blast
  then show ?thesis
  proof cases
    case 1
    then have "int (pw_size ?w2) < maxSize w" using ms by (auto simp: pack_full_def)
    then have "pw_inv Z sha n ?added ?w2" using ok2 ms by (simp add: pw_inv_def)
    then show ?thesis using add 1 c(4) wt(1) nf by (intro exI [of _ "Inr []"] exI [of _ ?w2]) (simp add: results_ok_def)
  next
    case 2
    from Flush_correct [OF sha ok2, of fails] obtain r w' where f: "Flush sha fails ?w2 = Some (r, w')" "set (pw_log ?w2) \<subseteq> set (pw_log w')" "maxSize w' = maxSize ?w2"
      "pw_ok Z sha n ?added w'" "pw_size w' = 0" "case r of Inl _ \<Rightarrow> True | Inr rs \<Rightarrow> dom (ci_map (pw_index w')) = dom (ci_map (pw_index ?w2))
         \<and> results_ok (foundc sha ?added (pw_log w')) (dom (ci_map (pw_index ?w2))) rs \<and> buffered ?w2 \<subseteq> prChunkID ` set rs"
      "no_failed ?w2 \<and> (\<forall>m. \<not> fails m) \<longrightarrow> (\<exists>rs. r = Inr rs)" "pw_inflight w' = None" by blast
    then have "pw_inv Z sha n ?added w'" using ms by (simp add: pw_inv_def)
    moreover have "case r of Inl _ \<Rightarrow> True | Inr rs \<Rightarrow> dom (ci_map (pw_index w')) = insert cid (dom (ci_map (pw_index w)))
         \<and> results_ok (foundc sha ?added (pw_log w')) (dom (ci_map (pw_index w'))) rs \<and> (cid \<in> waiting w' \<or> cid \<in> prChunkID ` set rs)"
      using f(6) c(4) wt(2) by (cases r) auto
    moreover have "no_failed w'" using f(8) by (simp add: no_failed_def)
    ultimately show ?thesis using add 2 f nf by (intro exI [of _ r] exI [of _ w']) simp
  next
    case 3
    from JoinInflight_correct [OF ok2] obtain r w3 where j: "JoinInflight ?w2 = Some (r, w3)" "pw_ok Z sha n ?added w3" "pw_inflight w3 = None" "pw_log w3 = pw_log ?w2"
      "maxSize w3 = maxSize ?w2" "case r of Inl _ \<Rightarrow> pw_pieces w3 = [] \<and> pw_size w3 = 0
       | Inr rs \<Rightarrow> pw_pieces w3 = pw_pieces ?w2 \<and> pw_size w3 = pw_size ?w2 \<and> dom (ci_map (pw_index w3)) = dom (ci_map (pw_index ?w2))
           \<and> results_ok (foundc sha ?added (pw_log ?w2)) (dom (ci_map (pw_index ?w2))) rs" "no_failed ?w2 \<longrightarrow> (\<exists>rs. r = Inr rs)" by blast
    show ?thesis
    proof (cases r)
      case (Inl e)
      then have "pw_inv Z sha n ?added w3" using j ms by (simp add: pw_inv_def)
      then show ?thesis using add 3 j Inl nf by (intro exI [of _ r] exI [of _ w3]) simp
    next
      case (Inr rs)
      define w4 where "w4 = handoff sha fails w3"
      note h = handoff_correct [OF sha j(2,3) w4_def]
      then have "pw_inv Z sha n ?added w4" using j(5) ms by (simp add: pw_inv_def)
      moreover have "cid \<in> waiting w4" using h j(6) Inr by (auto simp: waiting_def)
      moreover have "results_ok (foundc sha ?added (pw_log w4)) (dom (ci_map (pw_index w4))) rs"
        by (rule results_ok_mono [of "foundc sha ?added (pw_log ?w2)" "dom (ci_map (pw_index ?w2))"]) (use h j(4,6) Inr in auto)
      ultimately show ?thesis using add 3 j Inr h c(4) by (intro exI [of _ r] exI [of _ w4]) (simp add: w4_def)
    qed
  qed
qed

text \<open>Any use of a writer: chunks added and flushes, in any order, whatever stores fail.\<close>

datatype pack_op = PAdd bytes bytes | PFlush

fun pack_step :: "(bytes \<Rightarrow> bytes) \<Rightarrow> (nat \<Rightarrow> bool) \<Rightarrow> pack_writer \<Rightarrow> pack_op \<Rightarrow> ((pack_error + pack_result list) \<times> pack_writer) option" where
  "pack_step sha fails w (PAdd cid data) = pack_Add sha fails w cid data"
| "pack_step sha fails w PFlush = Flush sha fails w"

fun pack_run :: "(bytes \<Rightarrow> bytes) \<Rightarrow> (nat \<Rightarrow> bool) \<Rightarrow> pack_writer \<Rightarrow> pack_op list \<Rightarrow> ((pack_error + pack_result list) list \<times> pack_writer) option" where
  "pack_run sha fails w [] = Some ([], w)"
| "pack_run sha fails w (x # xs) = Option.bind (pack_step sha fails w x) (\<lambda>(r, w'). map_option (map_prod ((#) r) id) (pack_run sha fails w' xs))"

fun added_by :: "pack_op list \<Rightarrow> (bytes \<times> bytes) set" where
  "added_by [] = {}"
| "added_by (PAdd cid data # xs) = insert (cid, data) (added_by xs)"
| "added_by (PFlush # xs) = added_by xs"

fun op_ok :: "pack_op \<Rightarrow> bool" where
  "op_ok (PAdd cid data) \<longleftrightarrow> length cid = 32 \<and> length data < 2 ^ 31"
| "op_ok PFlush \<longleftrightarrow> True"

lemma pack_run_inv:
  assumes sha: "\<forall>b. length (sha b) = 32" and inv: "pw_inv UNIV sha (n + length xs) added w" and xs: "\<forall>x\<in>set xs. op_ok x"
  shows "\<exists>rs w'. pack_run sha fails w xs = Some (rs, w') \<and> pw_inv UNIV sha n (added \<union> added_by xs) w'
    \<and> ((\<forall>r\<in>set rs. \<exists>y. r = Inr y) \<longrightarrow> dom (ci_map (pw_index w)) \<union> fst ` added_by xs \<subseteq> dom (ci_map (pw_index w')))
    \<and> (xs \<noteq> [] \<and> last xs = PFlush \<longrightarrow> waiting w' = {})"
  using inv xs
proof (induction xs arbitrary: w added)
  case (Cons x xs)
  have inv: "pw_inv UNIV sha (Suc (n + length xs)) added w" using Cons.prems(1) by simp
  obtain r w1 where s: "pack_step sha fails w x = Some (r, w1)" "pw_inv UNIV sha (n + length xs) (added \<union> added_by [x]) w1"
    "\<exists>y. r = Inr y \<Longrightarrow> dom (ci_map (pw_index w)) \<union> fst ` added_by [x] \<subseteq> dom (ci_map (pw_index w1))" "x = PFlush \<Longrightarrow> waiting w1 = {}"
  proof (cases x)
    case (PAdd cid data)
    then have "length cid = 32" "length data < 2 ^ 31" using Cons.prems(2) by simp_all
    from Add_correct [OF sha inv this(1) UNIV_I this(2), of fails] obtain r w' where f: "pack_Add sha fails w cid data = Some (r, w')"
      "pw_inv UNIV sha (n + length xs) (insert (cid, data) added) w'"
      "case r of Inl _ \<Rightarrow> True | Inr rs \<Rightarrow> dom (ci_map (pw_index w')) = insert cid (dom (ci_map (pw_index w)))
         \<and> results_ok (foundc sha (insert (cid, data) added) (pw_log w')) (dom (ci_map (pw_index w'))) rs \<and> (cid \<in> waiting w' \<or> cid \<in> prChunkID ` set rs)" by blast
    then have d: "\<exists>y. r = Inr y \<Longrightarrow> dom (ci_map (pw_index w')) = insert cid (dom (ci_map (pw_index w)))" by (elim exE) simp
    have "dom (ci_map (pw_index w)) \<union> fst ` added_by [x] \<subseteq> dom (ci_map (pw_index w'))" if "\<exists>y. r = Inr y"
      unfolding d [OF that] using PAdd by (simp add: subset_insertI)
    then show ?thesis using that [of r w'] PAdd f(1,2) by simp
  next
    case PFlush
    have "pw_ok UNIV sha (Suc (n + length xs)) added w" using inv by (simp add: pw_inv_def)
    from Flush_correct [OF sha this, of fails] obtain r w' where f: "Flush sha fails w = Some (r, w')" "maxSize w' = maxSize w"
      "pw_ok UNIV sha (Suc (n + length xs)) added w'" "pw_inflight w' = None" "pw_pieces w' = []" "pw_size w' = 0"
      "case r of Inl _ \<Rightarrow> True | Inr rs \<Rightarrow> dom (ci_map (pw_index w')) = dom (ci_map (pw_index w))
         \<and> results_ok (foundc sha added (pw_log w')) (dom (ci_map (pw_index w))) rs \<and> buffered w \<subseteq> prChunkID ` set rs" by blast
    then have "\<exists>y. r = Inr y \<Longrightarrow> dom (ci_map (pw_index w')) = dom (ci_map (pw_index w))" by (elim exE) simp
    note f = f(1-6) this
    have "pw_ok UNIV sha (n + length xs) added w'" using f(3) by (auto simp: pw_ok_def tbl_room_def)
    then have "pw_inv UNIV sha (n + length xs) added w'" using f inv by (simp add: pw_inv_def)
    moreover have "waiting w' = {}" using f by (simp add: waiting_def)
    ultimately show ?thesis using that [of r w'] f PFlush by auto
  qed
  have "\<forall>y\<in>set xs. op_ok y" using Cons.prems(2) by simp
  from Cons.IH [OF s(2) this] obtain rs w' where i: "pack_run sha fails w1 xs = Some (rs, w')" "pw_inv UNIV sha n (added \<union> added_by [x] \<union> added_by xs) w'"
    "(\<forall>r\<in>set rs. \<exists>y. r = Inr y) \<longrightarrow> dom (ci_map (pw_index w1)) \<union> fst ` added_by xs \<subseteq> dom (ci_map (pw_index w'))"
    "xs \<noteq> [] \<and> last xs = PFlush \<longrightarrow> waiting w' = {}" by blast
  have a: "added_by (x # xs) = added_by [x] \<union> added_by xs" by (cases x) auto
  have "xs = [] \<Longrightarrow> w' = w1" using i(1) by simp
  then have last: "last (x # xs) = PFlush \<longrightarrow> waiting w' = {}" using s(4) i(4) by auto
  have doms: "dom (ci_map (pw_index w)) \<union> fst ` added_by (x # xs) \<subseteq> dom (ci_map (pw_index w'))" if ok: "\<forall>q\<in>set (r # rs). \<exists>y. q = Inr y"
  proof -
    have "dom (ci_map (pw_index w)) \<union> fst ` added_by [x] \<subseteq> dom (ci_map (pw_index w1))" using ok s(3) by simp
    moreover have "dom (ci_map (pw_index w1)) \<union> fst ` added_by xs \<subseteq> dom (ci_map (pw_index w'))" using ok i(3) by simp
    ultimately show ?thesis unfolding a image_Un by blast
  qed
  have "pack_run sha fails w (x # xs) = Some (r # rs, w')" using s(1) i(1) by simp
  moreover have "pw_inv UNIV sha n (added \<union> added_by (x # xs)) w'" using i(2) by (simp only: a Un_assoc)
  ultimately show ?case using doms last by blast
qed simp

text \<open>C6. Whatever chunks are added, wherever flushes fall between them, whether packs are stored in the
  background or not and whichever stores fail, the calls return, and the index leads only to data
  that was added: an entry that is not pending names a stored pack, and its range of that pack is
  an object added under that id (unless two stored packs have the same hash). Pending entries are
  the ones still buffered or in flight, so none is left after a final \<open>Flush\<close>; and when no call
  reported an error, every added id is in the index.\<close>

theorem pack_writer_sound:
  assumes sha: "\<forall>b. length (sha b) = 32" and usable: "usable < 2 ^ 30" and ops: "\<forall>x\<in>set xs. op_ok x" "length xs \<le> 2 ^ 29"
    and size: "0 < ms" "ms \<le> 2 ^ 31"
  shows "\<exists>c w rs w'. NewChunkIndex usable = Some (Inr c) \<and> NewPackWriter c mc ms async = Inr w
    \<and> pack_run sha fails w xs = Some (rs, w')
    \<and> (\<forall>i e. ci_map (pw_index w') i = Some e \<and> \<not> pending e \<and> inj_on sha (snd ` set (pw_log w'))
         \<longrightarrow> (\<exists>d. (i, d) \<in> added_by xs \<and> locates (pw_log w') e d))
    \<and> (\<forall>i e. ci_map (pw_index w') i = Some e \<and> pending e \<longrightarrow> i \<in> waiting w')
    \<and> (xs \<noteq> [] \<and> last xs = PFlush \<longrightarrow> waiting w' = {})
    \<and> ((\<forall>r\<in>set rs. \<exists>y. r = Inr y) \<longrightarrow> fst ` added_by xs \<subseteq> dom (ci_map (pw_index w')))"
proof -
  obtain c where c: "NewChunkIndex usable = Some (Inr c)" "ci_inv c" "ci_map c = Map.empty" "ci_room (2 ^ 29) c"
    using NewChunkIndex_correct [OF usable] by metis
  obtain w where w: "NewPackWriter c mc ms async = Inr w" "pw_index w = c" "pw_log w = []" "pw_pieces w = []" "pw_size w = 0" "pw_inflight w = None" "maxSize w = ms"
    using size by (simp add: NewPackWriter_def)
  have "ci_room (0 + length xs) c" using c(4) ops(2) by (simp add: tbl_room_def)
  then have "pw_inv UNIV sha (0 + length xs) {} w" using w c size by (simp add: pw_inv_def pw_ok_def in_step_def waiting_def)
  from pack_run_inv [OF sha this ops(1), of fails] obtain rs w' where r: "pack_run sha fails w xs = Some (rs, w')" "pw_inv UNIV sha 0 (added_by xs) w'"
    "(\<forall>r\<in>set rs. \<exists>y. r = Inr y) \<longrightarrow> dom (ci_map (pw_index w)) \<union> fst ` added_by xs \<subseteq> dom (ci_map (pw_index w'))"
    "xs \<noteq> [] \<and> last xs = PFlush \<longrightarrow> waiting w' = {}" unfolding Un_empty_left by blast
  have "in_step UNIV (foundc sha (added_by xs) (pw_log w')) (pw_index w') (waiting w')" using r(2) by (simp add: pw_inv_def pw_ok_def)
  then have e: "if pending e then i \<in> waiting w' else foundc sha (added_by xs) (pw_log w') i e" if "ci_map (pw_index w') i = Some e" for i e
    using that unfolding in_step_def by blast
  have "\<exists>d. (i, d) \<in> added_by xs \<and> locates (pw_log w') e d"
    if "ci_map (pw_index w') i = Some e" "\<not> pending e" "inj_on sha (snd ` set (pw_log w'))" for i e
    using e [OF that(1)] that(2,3) by (simp add: foundc_def found_def)
  moreover have "i \<in> waiting w'" if "ci_map (pw_index w') i = Some e" "pending e" for i e using e [OF that(1)] that(2) by simp
  moreover have "(\<forall>r\<in>set rs. \<exists>y. r = Inr y) \<longrightarrow> fst ` added_by xs \<subseteq> dom (ci_map (pw_index w'))" using r(3) by blast
  ultimately show ?thesis using c(1) w(1) r(1,4) by (intro exI [of _ c] exI [of _ w] exI [of _ rs] exI [of _ w'] conjI allI impI; simp?)
qed

definition toy_hash :: "bytes \<Rightarrow> bytes" where
  "toy_hash b = take 32 (b @ replicate 32 0)"

definition toy_ops :: "pack_op list" where
  "toy_ops = [PAdd (replicate 32 1) [1, 2], PFlush, PAdd (replicate 32 2) [3], PFlush]"

theorem pack_writer_sound_witness:
  "\<exists>c w rs w'. NewChunkIndex 10 = Some (Inr c) \<and> NewPackWriter c 0 100 True = Inr w
    \<and> pack_run toy_hash (\<lambda>n. n = 1) w toy_ops = Some (rs, w') \<and> waiting w' = {}"
proof -
  have "\<forall>b. length (toy_hash b) = 32" "\<forall>x\<in>set toy_ops. op_ok x" "length toy_ops \<le> 2 ^ 29" "toy_ops \<noteq> [] \<and> last toy_ops = PFlush"
    by (simp_all add: toy_hash_def toy_ops_def min_def)
  then show ?thesis using pack_writer_sound [of toy_hash 10 toy_ops 100 0 True "\<lambda>n. n = 1"] by fastforce
qed

end
