(* ===== verification/Repository.thy ===== *)
theory Repository
  imports Pack
begin

text \<open>
  The repository's objects, \<^verbatim>\<open>src/internal/repository/repository.go\<close>: storing and reading objects by
  id through the pack writer, the chunk index and the cache of packs. The in-memory index is the
  one the pack writer updates, the store of packs is the writer's log.
\<close>

record repository =
  r_opened :: bool
  r_pw :: pack_writer
  r_cache :: pack_cache

datatype repo_error = NotOpen | ObjectTooLarge nat | ObjectNotFound bytes | PackLocationUnknown bytes | WriterFailed pack_error | ObjectShort nat

definition open_repository :: "pack_writer \<Rightarrow> repository" where
  "open_repository w = \<lparr>r_opened = True, r_pw = w, r_cache = newPackCache 3\<rparr>"

definition packSizing :: "int \<Rightarrow> int \<Rightarrow> string option \<Rightarrow> string option \<Rightarrow> int \<times> int" where
  "packSizing optCount optSize envCount envSize =
     (let maxCount = (if optCount = 0 then (case envCount of None \<Rightarrow> 0 | Some v \<Rightarrow> (case Atoi v of None \<Rightarrow> 0 | Some n \<Rightarrow> n)) else optCount);
          maxSize = (if optSize = 0 then (case envSize of None \<Rightarrow> 0 | Some v \<Rightarrow> (case Atoi v of None \<Rightarrow> 0 | Some n \<Rightarrow> n)) else optSize);
          maxSize = (if maxSize = 0 \<and> maxCount = 0 then DefaultPackMaxSize else maxSize) in
      (maxCount, maxSize))"

definition repo_Put :: "(bytes \<Rightarrow> bytes) \<Rightarrow> (nat \<Rightarrow> bool) \<Rightarrow> repository \<Rightarrow> bytes \<Rightarrow> bytes \<Rightarrow> ((repo_error + pack_result list) \<times> repository) option" where
  "repo_Put sha fails r cid data =
     (if \<not> r_opened r then Some (Inl NotOpen, r)
      else if length data > MaxDataSize then Some (Inl (ObjectTooLarge (length data)), r)
      else Option.bind (pack_Add sha fails (r_pw r) cid data) (\<lambda>(res, w). Some (map_sum WriterFailed id res, r\<lparr>r_pw := w\<rparr>)))"

text \<open>Reading a range of a pack, from the cache or from the store.\<close>

definition readPack :: "repository \<Rightarrow> bytes \<Rightarrow> nat \<Rightarrow> nat \<Rightarrow> bytes option" where
  "readPack r pid off sz =
     (case cache_get (r_cache r) pid of
        Some contents \<Rightarrow> Some (pack_Read contents off sz)
      | None \<Rightarrow> map_option (\<lambda>contents. pack_Read contents off sz) (map_of (pw_log (r_pw r)) pid))"

definition readObject :: "repository \<Rightarrow> bytes \<Rightarrow> entry \<Rightarrow> repo_error + bytes" where
  "readObject r cid e =
     (case readPack r (packID e) (unat (objOffset e)) (unat (objSize e)) of
        None \<Rightarrow> Inl (ObjectNotFound cid)
      | Some data \<Rightarrow> if length data \<noteq> unat (objSize e) then Inl (ObjectShort (length data)) else Inr data)"

definition repo_Get :: "repository \<Rightarrow> bytes \<Rightarrow> ((repo_error + bytes) \<times> repository) option" where
  "repo_Get r cid =
     (if \<not> r_opened r then Some (Inl NotOpen, r)
      else Option.bind (index_Get (pw_index (r_pw r)) cid) (\<lambda>found. case found of
        None \<Rightarrow> Some (Inl (ObjectNotFound cid), r)
      | Some e \<Rightarrow> Option.bind (IsPending (pw_index (r_pw r)) cid) (\<lambda>p.
          if \<not> p then Some (readObject r cid e, r)
          else Option.bind (JoinInflight (r_pw r)) (\<lambda>(res, w). let r1 = r\<lparr>r_pw := w\<rparr> in case res of
            Inl err \<Rightarrow> Some (Inl (WriterFailed err), r1)
          | Inr _ \<Rightarrow> Option.bind (index_Get (pw_index w) cid) (\<lambda>found2. Option.bind (IsPending (pw_index w) cid) (\<lambda>p2. case found2 of
              None \<Rightarrow> Some (Inl (PackLocationUnknown cid), r1)
            | Some e2 \<Rightarrow> if p2 then Some (Inl (PackLocationUnknown cid), r1) else Some (readObject r1 cid e2, r1)))))))"

text \<open>The callback of \<open>GetMany\<close> collects what it is given; it never stops the loop.\<close>

fun repo_GetMany :: "repository \<Rightarrow> bytes list \<Rightarrow> ((repo_error + (bytes \<times> bytes) list) \<times> repository) option" where
  "repo_GetMany r [] = Some (Inr [], r)"
| "repo_GetMany r (cid # ids) =
     Option.bind (index_Get (pw_index (r_pw r)) cid) (\<lambda>found. Option.bind (IsPending (pw_index (r_pw r)) cid) (\<lambda>p.
       if found = None \<or> p then Option.bind (repo_Get r cid) (\<lambda>(res, r1). case res of
         Inl e \<Rightarrow> Some (Inl e, r1)
       | Inr data \<Rightarrow> Option.bind (repo_GetMany r1 ids) (\<lambda>(rest, r2). Some (map_sum id ((#) (cid, data)) rest, r2)))
       else let e = the found in
         case (case cache_get (r_cache r) (packID e) of
             Some contents \<Rightarrow> Some (contents, r)
           | None \<Rightarrow> map_option (\<lambda>contents. (contents, r\<lparr>r_cache := cache_put (r_cache r) (packID e) contents\<rparr>)) (map_of (pw_log (r_pw r)) (packID e))) of
           None \<Rightarrow> Some (Inl (ObjectNotFound cid), r)
         | Some (contents, r1) \<Rightarrow>
             (let data = pack_Read contents (unat (objOffset e)) (unat (objSize e)) in
              Option.bind (repo_GetMany r1 ids) (\<lambda>(rest, r2). Some (map_sum id ((#) (cid, data)) rest, r2)))))"

definition repo_Flush :: "(bytes \<Rightarrow> bytes) \<Rightarrow> (nat \<Rightarrow> bool) \<Rightarrow> repository \<Rightarrow> ((repo_error + unit) \<times> repository) option" where
  "repo_Flush sha fails r = Option.bind (Flush sha fails (r_pw r)) (\<lambda>(res, w). Some (map_sum WriterFailed (\<lambda>_. ()) res, r\<lparr>r_pw := w\<rparr>))"

text \<open>\<open>List\<close>: the state of its iteration is whether the marker has been passed and what was collected.\<close>

definition repo_List :: "repository \<Rightarrow> int \<Rightarrow> bytes option \<Rightarrow> PackEntry list" where
  "repo_List r lim marker = snd (index_Iterate (pw_index (r_pw r)) (\<lambda>cid e (collect, out).
     if flags e AND FPending \<noteq> 0 then ((collect, out), True)
     else if collect then (let out' = out @ [\<lparr>pe_ChunkID = cid, pe_Offset = 0, pe_Size = unat (objSize e)\<rparr>] in ((collect, out'), lim \<le> 0 \<or> int (length out') < lim))
     else ((Some cid = marker, out), True)) (marker = None, []))"

section \<open>Reading what was written\<close>

definition cache_ok :: "repository \<Rightarrow> bool" where
  "cache_ok r \<longleftrightarrow> (\<forall>k v. pca_entries (r_cache r) k = Some v \<longrightarrow> map_of (pw_log (r_pw r)) k = Some v)"

lemma readPack_log: "cache_ok r \<Longrightarrow> map_of (pw_log (r_pw r)) pid = Some p \<Longrightarrow> readPack r pid off sz = Some (pack_Read p off sz)"
  by (auto simp: readPack_def cache_get_def cache_ok_def split: option.split)

lemma readObject_found:
  assumes "cache_ok r" "locates (pw_log (r_pw r)) e d"
  shows "readObject r cid e = Inr d" "readObject r cid (hideSystemFlags e) = Inr d"
  using assms by (auto simp: locates_def readObject_def readPack_log hideSystemFlags_def)

lemma hide_pending: "pending (hideSystemFlags e) \<longleftrightarrow> pending e"
  unfolding pending_def has_flag using hide_bit [of 2 e] by simp

lemma IsPending_map:
  assumes "ci_inv c" "length i = 32"
  shows "IsPending c i = Some (\<exists>e. ci_map c i = Some e \<and> pending e)"
  using assms index_Get_correct [of c i] by (auto simp: IsPending_def ChunkIDSize_def pending_def [symmetric] hide_pending split: option.splits)

text \<open>A resolved entry is read without touching the writer.\<close>

lemma Get_resolved:
  assumes inv: "ci_inv (pw_index (r_pw r))" and r: "r_opened r" "cache_ok r" and i: "length i = 32"
    and e: "ci_map (pw_index (r_pw r)) i = Some e" "\<not> pending e" "locates (pw_log (r_pw r)) e d"
  shows "repo_Get r i = Some (Inr d, r)"
  using index_Get_correct [OF inv, of i] IsPending_map [OF inv i] i e r readObject_found [OF r(2) e(3)]
  by (simp add: repo_Get_def ChunkIDSize_def)

end
