(* ===== verification/Chunk_Driver.thy ===== *)
theory Chunk_Driver
  imports Borge_Prelude
begin

text \<open>
  The content-defined cut loops of \<^verbatim>\<open>src/internal/chunker/driver.go\<close> and the configuration of
  \<^verbatim>\<open>chunker.go\<close>. A reader is the bytes it has left and whether it fails (instead of reporting the
  end) after them; \<open>backing[:n]\<close> of the driver is the list \<open>wbuf\<close>, the bytes past \<open>n\<close> are never
  read. Loops whose end depends on the configuration are partial functions into \<open>option\<close>, and
  that they return is proved.
\<close>

section \<open>Parameters and configuration\<close>

record params =
  Algorithm :: string
  ChunkMinExp :: int
  ChunkMaxExp :: int
  HashMaskBits :: int
  WindowSize :: int
  NCLevel :: int
  NormalSize :: int
  BlockSize :: int
  HeaderSize :: int

definition no_params :: params where
  "no_params = \<lparr>Algorithm = [], ChunkMinExp = 0, ChunkMaxExp = 0, HashMaskBits = 0, WindowSize = 0,
     NCLevel = 0, NormalSize = 0, BlockSize = 0, HeaderSize = 0\<rparr>"

definition AlgoBuzhash :: string where "AlgoBuzhash = ''buzhash''"
definition AlgoBuzhash64 :: string where "AlgoBuzhash64 = ''buzhash64''"
definition AlgoFastCDC :: string where "AlgoFastCDC = ''fastcdc''"
definition AlgoFixed :: string where "AlgoFixed = ''fixed''"

definition DefaultParams :: params where
  "DefaultParams = no_params\<lparr>Algorithm := AlgoFastCDC, ChunkMinExp := 19, ChunkMaxExp := 23, HashMaskBits := 21, NCLevel := 2\<rparr>"

definition ItemsParams :: params where
  "ItemsParams = no_params\<lparr>Algorithm := AlgoFastCDC, ChunkMinExp := 15, ChunkMaxExp := 19, HashMaskBits := 17, NCLevel := 2\<rparr>"

datatype chunk_error =
    NegativeExponent
  | MaxExpTooLarge
  | MaxNotAboveMin
  | NegativeNCLevel
  | NCLevelTooLarge
  | WindowNotPositive
  | WindowTooLarge
  | BuzhashHasNoNC
  | BlockSizeNotPositive
  | NegativeHeaderSize
  | SeedKeySize
  | RandomBound
  | ReadError
  | ByteCountMismatch
  | SliceOutOfRange

text \<open>Go's 64-bit \<open>int\<close>: results wrap.\<close>

definition wrap64 :: "int \<Rightarrow> int" where
  "wrap64 x = signed_take_bit 63 x"

text \<open>\<open>1 << uint(e)\<close> for a 64-bit \<open>int\<close>: no limit on the shift count, all bits are lost at 64.\<close>

definition shl1 :: "int \<Rightarrow> int" where
  "shl1 e = (if e < 64 then wrap64 (2 ^ nat e) else 0)"

definition maskBits :: "int \<Rightarrow> bool \<Rightarrow> uint64" where
  "maskBits bits high =
     (if bits \<le> 0 then 0
      else if bits \<ge> 64 then - 1
      else (let low = push_bit (nat bits) 1 - 1 in
            if high then push_bit (nat (64 - bits)) low else low))"

record config =
  minSize :: int
  maxSize :: int
  chunkMask :: uint64
  maskS :: uint64
  maskL :: uint64
  ncLevel :: int
  normalSize :: int

definition newConfig :: "params \<Rightarrow> bool \<Rightarrow> chunk_error + config" where
  "newConfig p high =
     (if ChunkMinExp p < 0 \<or> ChunkMaxExp p < 0 then Inl NegativeExponent
      else if ChunkMaxExp p > 31 then Inl MaxExpTooLarge
      else (let mn = shl1 (ChunkMinExp p); mx = shl1 (ChunkMaxExp p) in
        if wrap64 (mn + 1) > mx then Inl MaxNotAboveMin
        else if NCLevel p < 0 then Inl NegativeNCLevel
        else if wrap64 (HashMaskBits p - NCLevel p) < 1 then Inl NCLevelTooLarge
        else if wrap64 (HashMaskBits p + NCLevel p) > 48 then Inl NCLevelTooLarge
        else (let cm = maskBits (HashMaskBits p) high in
          Inr (if NCLevel p \<noteq> 0 then
            \<lparr>minSize = mn, maxSize = mx, chunkMask = cm,
             maskS = maskBits (wrap64 (HashMaskBits p + NCLevel p)) high,
             maskL = maskBits (wrap64 (HashMaskBits p - NCLevel p)) high,
             ncLevel = NCLevel p,
             normalSize = (if NormalSize p \<noteq> 0 then NormalSize p
               else wrap64 (shl1 (HashMaskBits p) - shl1 (wrap64 (HashMaskBits p - NCLevel p))))\<rparr>
          else
            \<lparr>minSize = mn, maxSize = mx, chunkMask = cm, maskS = cm, maskL = cm, ncLevel = NCLevel p, normalSize = 0\<rparr>))))"

definition maskFor :: "config \<Rightarrow> nat \<Rightarrow> uint64" where
  "maskFor c chunkLen = (if ncLevel c \<noteq> 0 \<and> int chunkLen < normalSize c then maskS c else maskL c)"

section \<open>Chunks\<close>

datatype allocation = AllocData | AllocAlloc | AllocHole

record chunk =
  Data :: "bytes option"
  Size :: nat
  Allocation :: allocation

definition classify :: "bytes \<Rightarrow> chunk" where
  "classify d = (if list_ex (\<lambda>b. b \<noteq> 0) d then \<lparr>Data = Some d, Size = length d, Allocation = AllocData\<rparr>
     else \<lparr>Data = None, Size = length d, Allocation = AllocAlloc\<rparr>)"

text \<open>The bytes a chunk stands for.\<close>

definition chunk_bytes :: "chunk \<Rightarrow> bytes" where
  "chunk_bytes c = (case Data c of Some d \<Rightarrow> d | None \<Rightarrow> replicate (Size c) 0)"

lemma classify_bytes [simp]: "chunk_bytes (classify d) = d"
proof -
  have "d = replicate (length d) 0" if "\<not> list_ex (\<lambda>b. b \<noteq> 0) d"
    using that by (auto simp: list_ex_iff replicate_length_same)
  then show ?thesis by (auto simp: classify_def chunk_bytes_def)
qed

lemma classify_size [simp]: "Size (classify d) = length d"
  by (simp add: classify_def)

section \<open>Readers\<close>

record reader =
  rdata :: bytes
  rfails :: bool

text \<open>\<open>io.ReadFull\<close>: the bytes that were read and whether the reader failed. A short read with no
  failure is \<open>io.EOF\<close> or \<open>io.ErrUnexpectedEOF\<close>, which only differ in the number of bytes.\<close>

definition ReadFull :: "reader \<Rightarrow> nat \<Rightarrow> bytes \<times> bool \<times> reader" where
  "ReadFull r want = (take want (rdata r), rfails r \<and> length (rdata r) < want, r\<lparr>rdata := drop want (rdata r)\<rparr>)"

section \<open>The driver\<close>

definition readerBlockSize :: nat where "readerBlockSize = 1024 * 1024"

record driver =
  dsrc :: reader
  wbuf :: bytes
  dpos :: nat
  pending :: nat
  deof :: bool
  ddone :: bool
  bytesRead :: nat
  bytesYielded :: nat

definition driver_init :: "reader \<Rightarrow> driver" where
  "driver_init r = \<lparr>dsrc = r, wbuf = [], dpos = 0, pending = 0, deof = False, ddone = False, bytesRead = 0, bytesYielded = 0\<rparr>"

definition driver_reset :: "driver \<Rightarrow> reader \<Rightarrow> driver" where
  "driver_reset d r = d\<lparr>dsrc := r, wbuf := [], dpos := 0, pending := 0, deof := False, ddone := False,
     bytesRead := 0, bytesYielded := 0\<rparr>"

definition compact :: "driver \<Rightarrow> driver" where
  "compact d = (if pending d = 0 then d else d\<lparr>wbuf := drop (pending d) (wbuf d), pending := 0\<rparr>)"

definition emit :: "nat \<Rightarrow> driver \<Rightarrow> bytes \<times> driver" where
  "emit pos d = (take pos (wbuf d), d\<lparr>pending := pos, bytesYielded := bytesYielded d + pos\<rparr>)"

definition fill :: "config \<Rightarrow> driver \<Rightarrow> driver \<times> (chunk_error + unit)" where
  "fill cfg d =
     (if deof d then (d, Inr ())
      else let space = nat (maxSize cfg) - length (wbuf d) in
        if space = 0 then (d, Inr ())
        else let want = min readerBlockSize space; (got, failed, r) = ReadFull (dsrc d) want;
                 d' = d\<lparr>dsrc := r, wbuf := wbuf d @ got, bytesRead := bytesRead d + length got\<rparr> in
          if failed then (d', Inl ReadError)
          else (d'\<lparr>deof := (got = [])\<rparr>, Inr ()))"

partial_function (option) fillTo :: "config \<Rightarrow> int \<Rightarrow> driver \<Rightarrow> (driver \<times> (chunk_error + unit)) option" where
  "fillTo cfg need d =
     (if int (length (wbuf d)) < need \<and> \<not> deof d
      then (case fill cfg d of
          (d', Inl e) \<Rightarrow> Some (d', Inl e)
        | (d', Inr _) \<Rightarrow> fillTo cfg need d')
      else Some (d, Inr ()))"

type_synonym scan_fun = "bytes \<Rightarrow> uint64 \<Rightarrow> uint64 \<Rightarrow> nat option \<times> uint64"

partial_function (option) scanLoop ::
  "config \<Rightarrow> scan_fun \<Rightarrow> driver \<Rightarrow> uint64 \<Rightarrow> (driver \<times> (chunk_error + unit)) option" where
  "scanLoop cfg scan d digest =
     (if dpos d \<ge> length (wbuf d) then
        (if deof d then Some (d, Inr ())
         else (case fill cfg d of
             (d', Inl e) \<Rightarrow> Some (d', Inl e)
           | (d', Inr _) \<Rightarrow> if length (wbuf d') = length (wbuf d) then Some (d', Inr ()) else scanLoop cfg scan d' digest))
      else let n = length (wbuf d);
               stop = (if ncLevel cfg \<noteq> 0 \<and> int (dpos d) < normalSize cfg \<and> normalSize cfg < int n then nat (normalSize cfg) else n) in
        (case scan (slice (dpos d) (stop - dpos d) (wbuf d)) digest (maskFor cfg (dpos d)) of
          (Some r, digest') \<Rightarrow> Some (d\<lparr>dpos := dpos d + r + 1\<rparr>, Inr ())
        | (None, digest') \<Rightarrow> scanLoop cfg scan (d\<lparr>dpos := stop\<rparr>) digest'))"

text \<open>The result of one call: a chunk's bytes, the end of the stream, or an error.\<close>

datatype step = Piece bytes | AtEOF | Failed chunk_error

definition at_end :: "driver \<Rightarrow> driver \<times> step" where
  "at_end d = (d, if bytesRead d \<noteq> bytesYielded d then Failed ByteCountMismatch else AtEOF)"

definition emit_step :: "nat \<Rightarrow> driver \<Rightarrow> driver \<times> step" where
  "emit_step pos d = (case emit pos d of (b, d') \<Rightarrow> (d', Piece b))"

text \<open>A negative \<open>minSize\<close> makes the first slice of the scan loop panic.\<close>

definition driver_next :: "config \<Rightarrow> scan_fun \<Rightarrow> uint64 \<Rightarrow> driver \<Rightarrow> (driver \<times> step) option" where
  "driver_next cfg scan restart d0 =
     (let d = compact d0 in
      if ddone d then Some (at_end d)
      else Option.bind (fillTo cfg (wrap64 (minSize cfg + 1)) d) (\<lambda>(d1, res).
        case res of
          Inl e \<Rightarrow> Some (d1, Failed e)
        | Inr _ \<Rightarrow>
            if deof d1 \<and> int (length (wbuf d1)) < wrap64 (minSize cfg + 1) then
              (let d2 = d1\<lparr>ddone := True\<rparr> in
               if wbuf d2 = [] then Some (at_end d2) else Some (emit_step (length (wbuf d2)) d2))
            else if minSize cfg < 0 then Some (d1, Failed SliceOutOfRange)
            else Option.bind (scanLoop cfg scan (d1\<lparr>dpos := nat (minSize cfg)\<rparr>) restart) (\<lambda>(d2, res').
              case res' of Inl e \<Rightarrow> Some (d2, Failed e) | Inr _ \<Rightarrow> Some (emit_step (dpos d2) d2))))"


section \<open>Streams of pieces\<close>

text \<open>The \<open>Next\<close> methods of the chunkers classify the piece the driver returns. \<open>allChunks\<close> calls
  \<open>Next\<close> until the end of the stream.\<close>

datatype next_result = Got chunk | EndOfStream | NextError chunk_error

fun classify_step :: "step \<Rightarrow> next_result" where
  "classify_step (Piece b) = Got (classify b)"
| "classify_step AtEOF = EndOfStream"
| "classify_step (Failed e) = NextError e"

definition chunk_next :: "('s \<Rightarrow> ('s \<times> step) option) \<Rightarrow> 's \<Rightarrow> ('s \<times> next_result) option" where
  "chunk_next nxt s = map_option (map_prod id classify_step) (nxt s)"

partial_function (option) allChunks :: "('s \<Rightarrow> ('s \<times> next_result) option) \<Rightarrow> 's \<Rightarrow> (chunk_error + chunk list) option" where
  "allChunks nxt s = Option.bind (nxt s) (\<lambda>(s', r).
     case r of
       Got c \<Rightarrow> Option.bind (allChunks nxt s') (\<lambda>res. Some (case res of Inl e \<Rightarrow> Inl e | Inr cs \<Rightarrow> Inr (c # cs)))
     | EndOfStream \<Rightarrow> Some (Inr [])
     | NextError e \<Rightarrow> Some (Inl e))"

text \<open>The reference: cut the stream where a function of the remaining stream says.\<close>

function ref_pieces :: "(bytes \<Rightarrow> nat) \<Rightarrow> bytes \<Rightarrow> bytes list" where
  "ref_pieces cutf xs = (if xs = [] \<or> cutf xs = 0 then [] else take (cutf xs) xs # ref_pieces cutf (drop (cutf xs) xs))"
  by pat_completeness auto
termination by (relation "measure (length \<circ> snd)") auto

declare ref_pieces.simps [simp del]

lemma ref_pieces_set:
  "b \<in> set (ref_pieces cutf xs) \<Longrightarrow> \<exists>pre ys. xs = pre @ ys \<and> ys \<noteq> [] \<and> b = take (cutf ys) ys"
proof (induction cutf xs rule: ref_pieces.induct)
  case (1 cutf xs)
  then have ne: "xs \<noteq> [] \<and> cutf xs \<noteq> 0" by (auto simp: ref_pieces.simps [of cutf xs] split: if_splits)
  with 1(2) consider "b = take (cutf xs) xs" | "b \<in> set (ref_pieces cutf (drop (cutf xs) xs))"
    by (auto simp: ref_pieces.simps [of cutf xs])
  then show ?case
  proof cases
    case 1
    then show ?thesis using ne by (intro exI [of _ "[]"] exI [of _ xs]) simp
  next
    case 2
    with "1.IH" ne obtain pre ys where "drop (cutf xs) xs = pre @ ys" "ys \<noteq> []" "b = take (cutf ys) ys" by blast
    moreover have "xs = take (cutf xs) xs @ drop (cutf xs) xs" by simp
    ultimately have "xs = (take (cutf xs) xs @ pre) @ ys" by (simp only: append.assoc)
    with \<open>ys \<noteq> []\<close> \<open>b = take (cutf ys) ys\<close> show ?thesis by blast
  qed
qed

text \<open>Every piece but the last one is cut from a longer stream.\<close>

lemma ref_pieces_butlast:
  assumes "\<And>ys. cutf ys < length ys \<Longrightarrow> P (take (cutf ys) ys)"
  shows "\<forall>b\<in>set (butlast (ref_pieces cutf xs)). P b"
  using assms
proof (induction cutf xs rule: ref_pieces.induct)
  case (1 cutf xs)
  show ?case
  proof (cases "xs = [] \<or> cutf xs = 0 \<or> ref_pieces cutf (drop (cutf xs) xs) = []")
    case True
    then show ?thesis by (auto simp: ref_pieces.simps [of cutf xs])
  next
    case False
    then have "cutf xs < length xs"
      by (metis drop_all not_less ref_pieces.simps)
    moreover have "\<forall>b\<in>set (butlast (ref_pieces cutf (drop (cutf xs) xs))). P b" using 1 False by blast
    ultimately show ?thesis using 1(2) [of xs] False by (simp add: ref_pieces.simps [of cutf xs])
  qed
qed

text \<open>What a chunker promises: each call returns the piece the cut function selects from the
  remaining stream, and the end of the stream once nothing is left.\<close>

locale piece_source =
  fixes nxt :: "'s \<Rightarrow> ('s \<times> step) option"
    and inv :: "'s \<Rightarrow> bool"
    and rest :: "'s \<Rightarrow> bytes"
    and cutf :: "bytes \<Rightarrow> nat"
  assumes next_end: "inv s \<Longrightarrow> rest s = [] \<Longrightarrow> \<exists>s'. nxt s = Some (s', AtEOF) \<and> inv s' \<and> rest s' = []"
    and next_piece: "inv s \<Longrightarrow> rest s \<noteq> [] \<Longrightarrow>
      \<exists>s'. nxt s = Some (s', Piece (take (cutf (rest s)) (rest s))) \<and> inv s' \<and> rest s' = drop (cutf (rest s)) (rest s)"
    and cut_pos: "inv s \<Longrightarrow> rest s \<noteq> [] \<Longrightarrow> 0 < cutf (rest s)"
begin

lemma all_chunks: "inv s \<Longrightarrow> allChunks (chunk_next nxt) s = Some (Inr (map classify (ref_pieces cutf (rest s))))
    \<and> concat (ref_pieces cutf (rest s)) = rest s"
proof (induction "length (rest s)" arbitrary: s rule: less_induct)
  case less
  show ?case
  proof (cases "rest s = []")
    case True
    then show ?thesis using next_end [OF less.prems] by (subst allChunks.simps) (auto simp: ref_pieces.simps chunk_next_def)
  next
    case False
    note pos = cut_pos [OF less.prems False]
    from next_piece [OF less.prems False] obtain s' where s': "nxt s = Some (s', Piece (take (cutf (rest s)) (rest s)))"
      "inv s'" "rest s' = drop (cutf (rest s)) (rest s)" by blast
    have "length (rest s') < length (rest s)" using False pos s'(3) by simp
    from less.hyps [OF this s'(2)] show ?thesis
      using s' False pos by (subst allChunks.simps) (simp add: ref_pieces.simps [of cutf "rest s"] chunk_next_def)
  qed
qed

end

section \<open>Filling the buffer\<close>

definition drv_base :: "config \<Rightarrow> driver \<Rightarrow> bool" where
  "drv_base cfg d \<longleftrightarrow> \<not> rfails (dsrc d) \<and> length (wbuf d) \<le> nat (maxSize cfg) \<and> (deof d \<longrightarrow> rdata (dsrc d) = [])"

text \<open>\<open>d'\<close> is \<open>d\<close> after some more of the stream has been read into the buffer.\<close>

definition filled :: "config \<Rightarrow> driver \<Rightarrow> driver \<Rightarrow> bool" where
  "filled cfg d d' \<longleftrightarrow> drv_base cfg d' \<and> wbuf d' @ rdata (dsrc d') = wbuf d @ rdata (dsrc d) \<and> length (wbuf d) \<le> length (wbuf d')
     \<and> pending d' = pending d \<and> dpos d' = dpos d \<and> ddone d' = ddone d \<and> bytesYielded d' = bytesYielded d
     \<and> bytesRead d' + length (wbuf d) = bytesRead d + length (wbuf d')"

lemma filled_refl: "drv_base cfg d \<Longrightarrow> filled cfg d d"
  by (simp add: filled_def)

lemma filled_trans: "filled cfg d d' \<Longrightarrow> filled cfg d' d'' \<Longrightarrow> filled cfg d d''"
  by (auto simp: filled_def)

text \<open>A call of \<open>fill\<close>: nothing is done at the end of the stream or when the buffer is full,
  otherwise bytes are moved into the buffer, and the end is noted when there were none.\<close>

lemma fill_cases:
  assumes base: "drv_base cfg d"
  obtains d' where "fill cfg d = (d', Inr ())" "filled cfg d d'" "deof d \<or> length (wbuf d) = nat (maxSize cfg)" "d' = d"
  | d' where "fill cfg d = (d', Inr ())" "filled cfg d d'" "\<not> deof d" "rdata (dsrc d) = []" "deof d'" "wbuf d' = wbuf d"
      "dsrc d' = dsrc d"
  | d' where "fill cfg d = (d', Inr ())" "filled cfg d d'" "\<not> deof d" "length (wbuf d) < length (wbuf d')"
      "length (rdata (dsrc d')) < length (rdata (dsrc d))" "\<not> deof d'"
proof (cases "deof d \<or> length (wbuf d) = nat (maxSize cfg)")
  case True
  then have "fill cfg d = (d, Inr ())" by (auto simp: fill_def)
  with True base that(1) show ?thesis using filled_refl by blast
next
  case False
  let ?want = "min readerBlockSize (nat (maxSize cfg) - length (wbuf d))" and ?r = "rdata (dsrc d)"
  have want: "0 < ?want" using False base by (auto simp: drv_base_def readerBlockSize_def)
  let ?d = "d\<lparr>dsrc := (dsrc d)\<lparr>rdata := drop ?want ?r\<rparr>, wbuf := wbuf d @ take ?want ?r,
    bytesRead := bytesRead d + length (take ?want ?r), deof := (take ?want ?r = [])\<rparr>"
  have f: "fill cfg d = (?d, Inr ())"
    using False base by (auto simp: fill_def ReadFull_def Let_def drv_base_def)
  have "filled cfg d ?d"
    using base want by (auto simp: filled_def drv_base_def)
  then have filled: "filled cfg d ?d" .
  have nd: "\<not> deof d" using False by simp
  show ?thesis
  proof (cases "?r = []")
    case True
    show ?thesis by (rule that(2) [OF f filled nd True]) (simp_all add: True)
  next
    case ne: False
    have "0 < length (take ?want ?r)" using ne want by simp
    moreover have "length (drop ?want ?r) < length ?r" using ne want by (simp add: length_drop)
    ultimately show ?thesis by (intro that(3) [OF f filled nd]) simp_all
  qed
qed

lemma fillTo_ok:
  assumes "drv_base cfg d" "need \<le> maxSize cfg"
  shows "\<exists>d'. fillTo cfg need d = Some (d', Inr ()) \<and> filled cfg d d' \<and> (need \<le> int (length (wbuf d')) \<or> deof d')
    \<and> (deof d' \<longrightarrow> deof d \<or> int (length (wbuf d')) < need)"
  using assms
proof (induction "length (rdata (dsrc d)) + (if deof d then 0 else 1)" arbitrary: d rule: less_induct)
  case less
  show ?case
  proof (cases "int (length (wbuf d)) < need \<and> \<not> deof d")
    case False
    then have "fillTo cfg need d = Some (d, Inr ())" by (subst fillTo.simps) (simp only: if_False)
    with False filled_refl [OF less.prems(1)] show ?thesis by auto
  next
    case True
    from less.prems(1) show ?thesis
    proof (cases rule: fill_cases)
      case (1 d')
      then show ?thesis using True less.prems(2) by (auto split: if_splits)
    next
      case (2 d')
      then have "fillTo cfg need d = Some (d', Inr ())"
        using True by (subst fillTo.simps) (simp, subst fillTo.simps, simp)
      with 2 True show ?thesis by auto
    next
      case (3 d')
      then have "drv_base cfg d'" by (simp add: filled_def)
      moreover have "length (rdata (dsrc d')) + (if deof d' then 0 else 1) < length (rdata (dsrc d)) + (if deof d then 0 else 1)"
        using 3 True by auto
      ultimately obtain d'' where "fillTo cfg need d' = Some (d'', Inr ())" "filled cfg d' d''"
        "need \<le> int (length (wbuf d'')) \<or> deof d''" "deof d'' \<longrightarrow> deof d' \<or> int (length (wbuf d'')) < need"
        using less.hyps less.prems(2) by blast
      moreover have "fillTo cfg need d = fillTo cfg need d'" using True 3(1) by (subst fillTo.simps) simp
      ultimately show ?thesis using filled_trans [OF 3(2)] 3(6) by auto
    qed
  qed
qed

section \<open>The reference cut of the window-less chunkers\<close>

definition cfg_ok :: "config \<Rightarrow> bool" where
  "cfg_ok cfg \<longleftrightarrow> 0 \<le> minSize cfg \<and> minSize cfg < maxSize cfg \<and> maxSize cfg \<le> 2 ^ 31"

text \<open>From position \<open>pos\<close> with hash \<open>h\<close>: hash one byte after the other and cut behind the first
  one where the hash matches the mask in force there, at the latest at the end of the stream
  or at the maximum size.\<close>

function find_cut :: "(uint64 \<Rightarrow> byte \<Rightarrow> uint64) \<Rightarrow> config \<Rightarrow> bytes \<Rightarrow> nat \<Rightarrow> uint64 \<Rightarrow> nat" where
  "find_cut step cfg xs pos h =
     (if pos \<ge> min (length xs) (nat (maxSize cfg)) then pos
      else if step h (xs ! pos) AND maskFor cfg pos = 0 then Suc pos
      else find_cut step cfg xs (Suc pos) (step h (xs ! pos)))"
  by pat_completeness auto
termination by (relation "measure (\<lambda>(_, cfg, xs, pos, _). length xs - pos)") auto

declare find_cut.simps [simp del]

definition cut_point :: "(uint64 \<Rightarrow> byte \<Rightarrow> uint64) \<Rightarrow> config \<Rightarrow> uint64 \<Rightarrow> bytes \<Rightarrow> nat" where
  "cut_point step cfg restart xs =
     (if int (length xs) \<le> minSize cfg then length xs else find_cut step cfg xs (nat (minSize cfg)) restart)"

lemma find_cut_bounds:
  "pos \<le> min (length xs) (nat (maxSize cfg)) \<Longrightarrow> pos \<le> find_cut step cfg xs pos h \<and> find_cut step cfg xs pos h \<le> min (length xs) (nat (maxSize cfg))
    \<and> (pos < min (length xs) (nat (maxSize cfg)) \<longrightarrow> pos < find_cut step cfg xs pos h)"
proof (induction step cfg xs pos h rule: find_cut.induct)
  case (1 step cfg xs pos h)
  show ?case
  proof (cases "pos \<ge> min (length xs) (nat (maxSize cfg)) \<or> step h (xs ! pos) AND maskFor cfg pos = 0")
    case True
    then have "find_cut step cfg xs pos h = (if pos \<ge> min (length xs) (nat (maxSize cfg)) then pos else Suc pos)"
      by (subst find_cut.simps) (cases "pos \<ge> min (length xs) (nat (maxSize cfg))"; simp only: if_True if_False simp_thms)
    with 1(2) show ?thesis by (auto simp: min_def split: if_splits)
  next
    case False
    then have "find_cut step cfg xs pos h = find_cut step cfg xs (Suc pos) (step h (xs ! pos))"
      by (subst find_cut.simps) simp
    moreover from False have "Suc pos \<le> min (length xs) (nat (maxSize cfg))" by (simp add: min_def split: if_splits)
    ultimately show ?thesis using 1(1) False by simp
  qed
qed

lemma cut_point_bounds:
  assumes "cfg_ok cfg" "xs \<noteq> []"
  shows "0 < cut_point step cfg restart xs" "cut_point step cfg restart xs \<le> length xs"
    "int (cut_point step cfg restart xs) \<le> maxSize cfg"
    "minSize cfg < int (length xs) \<Longrightarrow> minSize cfg < int (cut_point step cfg restart xs)"
proof -
  let ?f = "find_cut step cfg xs (nat (minSize cfg)) restart"
  have ok: "0 \<le> minSize cfg" "minSize cfg < maxSize cfg" using assms(1) by (simp_all add: cfg_ok_def)
  have b: "nat (minSize cfg) < ?f" "?f \<le> length xs" "?f \<le> nat (maxSize cfg)" if "minSize cfg < int (length xs)"
  proof -
    have "nat (minSize cfg) < min (length xs) (nat (maxSize cfg))" using that ok by simp
    with find_cut_bounds [of "nat (minSize cfg)" xs cfg step restart]
    show "nat (minSize cfg) < ?f" "?f \<le> length xs" "?f \<le> nat (maxSize cfg)" by auto
  qed
  show "0 < cut_point step cfg restart xs" "cut_point step cfg restart xs \<le> length xs"
    "int (cut_point step cfg restart xs) \<le> maxSize cfg"
    using b ok assms(2) by (auto simp: cut_point_def)
  show "minSize cfg < int (length xs) \<Longrightarrow> minSize cfg < int (cut_point step cfg restart xs)"
    using b by (simp add: cut_point_def nat_less_iff)
qed


section \<open>The window-less driver follows the reference\<close>

definition drv_inv :: "config \<Rightarrow> driver \<Rightarrow> bool" where
  "drv_inv cfg d \<longleftrightarrow> drv_base cfg d \<and> pending d \<le> length (wbuf d) \<and> (ddone d \<longrightarrow> deof d \<and> pending d = length (wbuf d))
     \<and> bytesRead d = bytesYielded d + (length (wbuf d) - pending d)"

definition drv_rest :: "driver \<Rightarrow> bytes" where
  "drv_rest d = drop (pending d) (wbuf d) @ rdata (dsrc d)"

lemma compact_ok:
  assumes "drv_inv cfg d"
  shows "drv_inv cfg (compact d)" "pending (compact d) = 0" "drv_rest (compact d) = drv_rest d" "ddone (compact d) = ddone d"
    "drv_rest d = wbuf (compact d) @ rdata (dsrc (compact d))"
  using assms by (auto simp: compact_def drv_inv_def drv_base_def drv_rest_def)

lemma at_end_ok:
  assumes "drv_inv cfg d" "wbuf d = []" "deof d"
  shows "at_end d = (d, AtEOF)"
  using assms by (simp add: at_end_def drv_inv_def)

lemma emit_ok:
  assumes "drv_inv cfg d" "pending d = 0" "pos \<le> length (wbuf d)" "ddone d \<longrightarrow> deof d \<and> pos = length (wbuf d)"
  shows "\<exists>d'. emit_step pos d = (d', Piece (take pos (drv_rest d))) \<and> drv_inv cfg d' \<and> drv_rest d' = drop pos (drv_rest d)"
  using assms by (auto simp: emit_step_def emit_def drv_inv_def drv_base_def drv_rest_def)

lemma filled_inv: "filled cfg d d' \<Longrightarrow> drv_inv cfg d \<Longrightarrow> pending d = 0 \<Longrightarrow> \<not> ddone d \<Longrightarrow>
    drv_inv cfg d' \<and> pending d' = 0 \<and> \<not> ddone d' \<and> drv_rest d' = drv_rest d"
  by (auto simp: filled_def drv_inv_def drv_rest_def)

lemma need_eq: "cfg_ok cfg \<Longrightarrow> wrap64 (minSize cfg + 1) = minSize cfg + 1"
  by (auto simp: cfg_ok_def wrap64_def intro!: signed_take_bit_int_eq_self)

text \<open>A scanner hashes byte by byte and stops at the first byte whose hash matches the mask.\<close>

locale byte_scanner =
  fixes scan :: scan_fun and step :: "uint64 \<Rightarrow> byte \<Rightarrow> uint64"
  assumes scan_Nil: "scan [] h m = (None, h)"
    and scan_Cons: "scan (b # bs) h m = (if step h b AND m = 0 then (Some 0, step h b)
      else map_prod (map_option Suc) id (scan bs (step h b) m))"
begin

lemma scan_segment:
  assumes "pos + n \<le> min (length xs) (nat (maxSize cfg))" "\<And>k. pos \<le> k \<Longrightarrow> k < pos + n \<Longrightarrow> maskFor cfg k = m"
  shows "case scan (slice pos n xs) h m of
      (Some r, _) \<Rightarrow> r < n \<and> find_cut step cfg xs pos h = pos + r + 1
    | (None, h') \<Rightarrow> find_cut step cfg xs pos h = find_cut step cfg xs (pos + n) h'"
  using assms
proof (induction n arbitrary: pos h)
  case 0
  then show ?case by (simp add: slice_def scan_Nil)
next
  case (Suc n)
  have pos: "pos < min (length xs) (nat (maxSize cfg))" using Suc.prems(1) by simp
  then have "slice pos (Suc n) xs = xs ! pos # slice (Suc pos) n xs"
    by (simp add: slice_def Cons_nth_drop_Suc [symmetric])
  moreover have m: "maskFor cfg pos = m" using Suc.prems(2) by simp
  have fc: "find_cut step cfg xs pos h = (if step h (xs ! pos) AND m = 0 then Suc pos
      else find_cut step cfg xs (Suc pos) (step h (xs ! pos)))"
    using pos [unfolded not_le [symmetric]] by (subst find_cut.simps) (simp only: if_False m)
  have ih: "case scan (slice (Suc pos) n xs) (step h (xs ! pos)) m of
      (Some r, _) \<Rightarrow> r < n \<and> find_cut step cfg xs (Suc pos) (step h (xs ! pos)) = Suc pos + r + 1
    | (None, h') \<Rightarrow> find_cut step cfg xs (Suc pos) (step h (xs ! pos)) = find_cut step cfg xs (Suc pos + n) h'"
    using Suc.prems by (intro Suc.IH) auto
  show ?case
    using ih by (auto simp: calculation scan_Cons fc split: prod.splits option.splits)
qed

lemma scanLoop_ok:
  assumes "drv_base cfg d" "dpos d \<le> length (wbuf d)"
  shows "\<exists>d'. scanLoop cfg scan d h = Some (d', Inr ()) \<and> filled cfg d (d'\<lparr>dpos := dpos d\<rparr>)
    \<and> dpos d' = find_cut step cfg (wbuf d @ rdata (dsrc d)) (dpos d) h \<and> dpos d' \<le> length (wbuf d')"
  using assms
proof (induction "2 * length (rdata (dsrc d)) + length (wbuf d) - dpos d" arbitrary: d h rule: less_induct)
  case less
  let ?xs = "wbuf d @ rdata (dsrc d)" and ?n = "length (wbuf d)"
  have max: "?n \<le> nat (maxSize cfg)" and base: "drv_base cfg d" using less.prems by (simp_all add: drv_base_def)
  show ?case
  proof (cases "dpos d = ?n")
    case at_n: True
    have stop: "find_cut step cfg ?xs (dpos d) h = dpos d" if "?n = nat (maxSize cfg) \<or> rdata (dsrc d) = []"
      using that at_n by (subst find_cut.simps) auto
    have self: "filled cfg d (d\<lparr>dpos := ?n\<rparr>)" using base at_n by (simp add: filled_def drv_base_def)
    show ?thesis
    proof (cases "deof d")
      case True
      then have "scanLoop cfg scan d h = Some (d, Inr ())" using at_n by (subst scanLoop.simps) simp
      moreover have "rdata (dsrc d) = []" using True base by (simp add: drv_base_def)
      ultimately show ?thesis using stop at_n self by (intro exI [of _ d]) simp
    next
      case False
      from base show ?thesis
      proof (cases rule: fill_cases)
        case (1 d')
        then have "scanLoop cfg scan d h = Some (d, Inr ())" using at_n False by (subst scanLoop.simps) simp
        with 1 False stop at_n self show ?thesis by (intro exI [of _ d]) simp
      next
        case (2 d')
        then have "scanLoop cfg scan d h = Some (d', Inr ())" using at_n False by (subst scanLoop.simps) simp
        moreover have "dpos d' = dpos d" using 2(2) by (simp add: filled_def)
        moreover have "filled cfg d (d'\<lparr>dpos := dpos d\<rparr>)" using 2(2) by (simp add: filled_def drv_base_def)
        ultimately show ?thesis using 2 stop at_n by (intro exI [of _ d']) simp
      next
        case (3 d')
        have d': "drv_base cfg d'" "dpos d' = dpos d" "wbuf d' @ rdata (dsrc d') = ?xs" "?n \<le> length (wbuf d')"
          using 3(2) by (simp_all add: filled_def)
        have len: "length (wbuf d') + length (rdata (dsrc d')) = ?n + length (rdata (dsrc d))"
          using arg_cong [OF d'(3), of length] by simp
        have "2 * length (rdata (dsrc d')) + length (wbuf d') - dpos d' < 2 * length (rdata (dsrc d)) + ?n - dpos d"
          using 3(5) len d'(2) at_n by simp
        moreover have "dpos d' \<le> length (wbuf d')" using d' at_n by simp
        ultimately obtain d'' where d'': "scanLoop cfg scan d' h = Some (d'', Inr ())" "filled cfg d' (d''\<lparr>dpos := dpos d'\<rparr>)"
          "dpos d'' = find_cut step cfg ?xs (dpos d) h" "dpos d'' \<le> length (wbuf d'')"
          using less.hyps [OF _ d'(1), of h] d'(2,3) by auto
        have "scanLoop cfg scan d h = scanLoop cfg scan d' h" using 3 at_n False by (subst scanLoop.simps) simp
        then show ?thesis using d'' filled_trans [OF 3(2) d''(2)] d'(2) by (intro exI [of _ d'']) simp
      qed
    qed
  next
    case False
    with less.prems(2) have lt: "dpos d < ?n" by simp
    let ?stop = "if ncLevel cfg \<noteq> 0 \<and> int (dpos d) < normalSize cfg \<and> normalSize cfg < int ?n then nat (normalSize cfg) else ?n"
    let ?m = "maskFor cfg (dpos d)"
    have stop: "dpos d < ?stop" "?stop \<le> ?n" using lt by auto
    have "maskFor cfg k = ?m" if "dpos d \<le> k" "k < dpos d + (?stop - dpos d)" for k
      using that stop by (auto simp: maskFor_def split: if_splits)
    moreover have "dpos d + (?stop - dpos d) \<le> min (length ?xs) (nat (maxSize cfg))" using stop max by simp
    ultimately have seg: "case scan (slice (dpos d) (?stop - dpos d) ?xs) h ?m of
        (Some r, _) \<Rightarrow> r < ?stop - dpos d \<and> find_cut step cfg ?xs (dpos d) h = dpos d + r + 1
      | (None, h') \<Rightarrow> find_cut step cfg ?xs (dpos d) h = find_cut step cfg ?xs (dpos d + (?stop - dpos d)) h'"
      by (intro scan_segment)
    have sl: "slice (dpos d) (?stop - dpos d) ?xs = slice (dpos d) (?stop - dpos d) (wbuf d)"
      using stop by (intro slice_append_left) simp
    obtain r h' where sc: "scan (slice (dpos d) (?stop - dpos d) (wbuf d)) h ?m = (r, h')" by fastforce
    note seg' = seg [unfolded sl sc]
    have unf: "scanLoop cfg scan d h = (case r of Some r \<Rightarrow> Some (d\<lparr>dpos := dpos d + r + 1\<rparr>, Inr ())
        | None \<Rightarrow> scanLoop cfg scan (d\<lparr>dpos := ?stop\<rparr>) h')"
      using lt sc by (subst scanLoop.simps) (simp add: Let_def split: option.splits)
    show ?thesis
    proof (cases r)
      case (Some i)
      then show ?thesis using unf seg' stop filled_refl [OF base] by (intro exI [of _ "d\<lparr>dpos := dpos d + i + 1\<rparr>"]) auto
    next
      case None
      let ?d = "d\<lparr>dpos := ?stop\<rparr>"
      have "2 * length (rdata (dsrc ?d)) + length (wbuf ?d) - dpos ?d < 2 * length (rdata (dsrc d)) + ?n - dpos d"
        using stop by simp
      moreover have "drv_base cfg ?d" "dpos ?d \<le> length (wbuf ?d)" using base stop by (simp_all add: drv_base_def)
      ultimately obtain d'' where "scanLoop cfg scan ?d h' = Some (d'', Inr ())" "filled cfg ?d (d''\<lparr>dpos := dpos ?d\<rparr>)"
        "dpos d'' = find_cut step cfg ?xs ?stop h'" "dpos d'' \<le> length (wbuf d'')"
        using less.hyps [of ?d h'] by auto
      then show ?thesis using None unf seg' stop by (intro exI [of _ d'']) (simp add: filled_def drv_base_def)
    qed
  qed
qed

lemma driver_next_ok:
  assumes cfg: "cfg_ok cfg" and inv: "drv_inv cfg d"
  shows "drv_rest d = [] \<Longrightarrow> \<exists>d'. driver_next cfg scan restart d = Some (d', AtEOF) \<and> drv_inv cfg d' \<and> drv_rest d' = []"
    and "drv_rest d \<noteq> [] \<Longrightarrow> \<exists>d'. driver_next cfg scan restart d
      = Some (d', Piece (take (cut_point step cfg restart (drv_rest d)) (drv_rest d)))
      \<and> drv_inv cfg d' \<and> drv_rest d' = drop (cut_point step cfg restart (drv_rest d)) (drv_rest d)"
proof -
  let ?c = "compact d"
  note c = compact_ok [OF inv]
  have "(drv_rest d = [] \<longrightarrow> (\<exists>d'. driver_next cfg scan restart d = Some (d', AtEOF) \<and> drv_inv cfg d' \<and> drv_rest d' = []))
    \<and> (drv_rest d \<noteq> [] \<longrightarrow> (\<exists>d'. driver_next cfg scan restart d = Some (d', Piece (take (cut_point step cfg restart (drv_rest d)) (drv_rest d)))
      \<and> drv_inv cfg d' \<and> drv_rest d' = drop (cut_point step cfg restart (drv_rest d)) (drv_rest d)))"
  proof (cases "ddone ?c")
    case True
    then have e: "wbuf ?c = []" "deof ?c" "rdata (dsrc ?c) = []" using c(1,2) by (auto simp: drv_inv_def drv_base_def)
    have "driver_next cfg scan restart d = Some (?c, AtEOF)" using True at_end_ok [OF c(1) e(1,2)] by (simp add: driver_next_def)
    then show ?thesis using c e by auto
  next
    case False
    have base: "drv_base cfg ?c" using c(1) by (simp add: drv_inv_def)
    have min: "0 \<le> minSize cfg" "minSize cfg < maxSize cfg" using cfg by (simp_all add: cfg_ok_def)
    obtain d1 where d1: "fillTo cfg (minSize cfg + 1) ?c = Some (d1, Inr ())" "filled cfg ?c d1"
      "minSize cfg + 1 \<le> int (length (wbuf d1)) \<or> deof d1" using fillTo_ok [OF base, of "minSize cfg + 1"] min by auto
    have f1: "drv_inv cfg d1" "pending d1 = 0" "\<not> ddone d1" "drv_rest d1 = drv_rest d"
      using filled_inv [OF d1(2) c(1,2) False] c(3) by auto
    have r1: "drv_rest d = wbuf d1 @ rdata (dsrc d1)" using f1(2,4) by (simp add: drv_rest_def)
    show ?thesis
    proof (cases "deof d1 \<and> int (length (wbuf d1)) < minSize cfg + 1")
      case True
      let ?d2 = "d1\<lparr>ddone := True\<rparr>"
      have nx: "driver_next cfg scan restart d = Some (if wbuf d1 = [] then at_end ?d2 else emit_step (length (wbuf d1)) ?d2)"
        using False d1(1) True by (simp add: driver_next_def need_eq [OF cfg] Let_def)
      have rd: "drv_rest d = wbuf d1" using r1 True f1(1) by (simp add: drv_inv_def drv_base_def)
      show ?thesis
      proof (cases "wbuf d1 = []")
        case e: True
        then have "drv_inv cfg ?d2" using f1 True by (simp add: drv_inv_def drv_base_def)
        moreover from at_end_ok [OF this] have "at_end ?d2 = (?d2, AtEOF)" using e True by simp
        moreover have "drv_rest ?d2 = []" using rd e f1(4) by (simp add: drv_rest_def)
        ultimately show ?thesis using nx e rd by auto
      next
        case ne: False
        have "cut_point step cfg restart (drv_rest d) = length (wbuf d1)" using rd True by (simp add: cut_point_def)
        moreover have "\<exists>d'. emit_step (length (wbuf d1)) ?d2 = (d', Piece (wbuf d1)) \<and> drv_inv cfg d' \<and> drv_rest d' = []"
          using f1 True by (auto simp: emit_step_def emit_def drv_inv_def drv_base_def drv_rest_def)
        ultimately show ?thesis using nx ne rd by auto
      qed
    next
      case scan: False
      with d1(3) have len: "minSize cfg + 1 \<le> int (length (wbuf d1))" by linarith
      let ?s = "d1\<lparr>dpos := nat (minSize cfg)\<rparr>"
      have "drv_base cfg ?s" "dpos ?s \<le> length (wbuf ?s)" using f1(1) len by (simp_all add: drv_inv_def drv_base_def)
      from scanLoop_ok [OF this, of restart] obtain d2 where d2: "scanLoop cfg scan ?s restart = Some (d2, Inr ())"
        "filled cfg ?s (d2\<lparr>dpos := nat (minSize cfg)\<rparr>)" "dpos d2 = find_cut step cfg (drv_rest d) (nat (minSize cfg)) restart"
        "dpos d2 \<le> length (wbuf d2)" using r1 by auto
      have cp: "cut_point step cfg restart (drv_rest d) = dpos d2" using len d2(3) by (simp add: cut_point_def r1)
      have "drv_inv cfg ?s" "pending ?s = 0" "\<not> ddone ?s" using f1 by (simp_all add: drv_inv_def drv_base_def)
      from filled_inv [OF d2(2) this] have f2: "drv_inv cfg d2" "pending d2 = 0" "\<not> ddone d2" "drv_rest d2 = drv_rest d"
        using f1(4) by (auto simp: drv_inv_def drv_base_def drv_rest_def)
      have "driver_next cfg scan restart d = Some (emit_step (dpos d2) d2)"
        using False d1(1) scan d2(1) min by (auto simp: driver_next_def need_eq [OF cfg] Let_def)
      moreover have "drv_rest d \<noteq> []" using len min r1 by auto
      ultimately show ?thesis using emit_ok [OF f2(1,2) d2(4)] f2(3,4) cp by auto
    qed
  qed
  then show "drv_rest d = [] \<Longrightarrow> \<exists>d'. driver_next cfg scan restart d = Some (d', AtEOF) \<and> drv_inv cfg d' \<and> drv_rest d' = []"
    and "drv_rest d \<noteq> [] \<Longrightarrow> \<exists>d'. driver_next cfg scan restart d
      = Some (d', Piece (take (cut_point step cfg restart (drv_rest d)) (drv_rest d)))
      \<and> drv_inv cfg d' \<and> drv_rest d' = drop (cut_point step cfg restart (drv_rest d)) (drv_rest d)" by blast+
qed

end

end
