(* ===== verification/Csprng.thy ===== *)
theory Csprng
  imports Chunk_Driver "HOL-Library.Multiset"
begin

text \<open>
  The deterministic random source of \<^verbatim>\<open>src/internal/chunker/csprng.go\<close> and the keyed tables that are
  drawn from it (\<^verbatim>\<open>fastcdc.go\<close>, \<^verbatim>\<open>buzhash.go\<close>). The AES-256-CTR keystream for the all-zero IV is a
  parameter \<open>aes_ctr\<close> of \<open>NewCSPRNG\<close>: a function of the key that gives the keystream byte at
  each offset. Everything below holds for every keystream.
\<close>

record csprng =
  ks :: "nat \<Rightarrow> byte"
  ksoff :: nat
  cbuf :: bytes
  cpos :: nat

definition NewCSPRNG :: "(bytes \<Rightarrow> nat \<Rightarrow> byte) \<Rightarrow> bytes \<Rightarrow> chunk_error + csprng" where
  "NewCSPRNG aes_ctr key =
     (if length key \<noteq> 32 then Inl SeedKeySize
      else Inr \<lparr>ks = aes_ctr key, ksoff = 0, cbuf = replicate 4096 0, cpos = 4096\<rparr>)"

definition refill :: "csprng \<Rightarrow> csprng" where
  "refill r = r\<lparr>cbuf := map (\<lambda>i. ks r (ksoff r + i)) [0..<4096], ksoff := ksoff r + 4096, cpos := 0\<rparr>"

definition ready :: "csprng \<Rightarrow> csprng" where
  "ready r = (if cpos r \<ge> length (cbuf r) then refill r else r)"

lemma ready_room: "cpos (ready r) < length (cbuf (ready r))"
  by (simp add: ready_def refill_def)

function RandomBytes :: "nat \<Rightarrow> csprng \<Rightarrow> bytes \<times> csprng" where
  "RandomBytes n r =
     (if n = 0 then ([], r)
      else let r1 = ready r; c = min n (length (cbuf r1) - cpos r1);
               (rest, r2) = RandomBytes (n - c) (r1\<lparr>cpos := cpos r1 + c\<rparr>) in
           (slice (cpos r1) c (cbuf r1) @ rest, r2))"
  by pat_completeness auto
termination
proof (relation "measure fst", simp)
  fix n :: nat and r r1 c
  assume "n \<noteq> 0" "r1 = ready r" "c = min n (length (cbuf r1) - cpos r1)"
  then show "((n - c, r1\<lparr>cpos := cpos r1 + c\<rparr>), n, r) \<in> measure fst"
    using ready_room [of r] by simp
qed

declare RandomBytes.simps [simp del]

definition bigEndianInt :: "bytes \<Rightarrow> nat" where
  "bigEndianInt b = foldl (\<lambda>v x. v * 256 + unat x) 0 b"

fun bitLen :: "nat \<Rightarrow> nat" where
  "bitLen n = (if n = 0 then 0 else Suc (bitLen (n div 2)))"

declare bitLen.simps [simp del]

text \<open>The attempts of the rejection sampling: \<open>None\<close> when all were rejected.\<close>

fun tryDraw :: "nat \<Rightarrow> nat \<Rightarrow> nat \<Rightarrow> nat \<Rightarrow> csprng \<Rightarrow> nat option \<times> csprng" where
  "tryDraw 0 n nbytes m r = (None, r)"
| "tryDraw (Suc k) n nbytes m r =
     (let (b, r') = RandomBytes nbytes r; v = bigEndianInt b mod m in
      if v < n then (Some v, r') else tryDraw k n nbytes m r')"

text \<open>\<open>& mask\<close> with \<open>mask = 2^bits - 1\<close> is the remainder modulo \<open>2^bits\<close>.\<close>

definition RandomInt :: "int \<Rightarrow> csprng \<Rightarrow> (chunk_error + nat) \<times> csprng" where
  "RandomInt n r =
     (if n \<le> 0 then (Inl RandomBound, r)
      else if n = 1 then (Inr 0, r)
      else let bitsNeeded = bitLen (nat n - 1); bytesNeeded = (bitsNeeded + 7) div 8 in
        (case tryDraw 1000 (nat n) bytesNeeded (2 ^ bitsNeeded) r of
           (Some v, r') \<Rightarrow> (Inr v, r')
         | (None, r') \<Rightarrow> (let (b, r'') = RandomBytes bytesNeeded r' in (Inr (bigEndianInt b mod nat n), r''))))"

definition swap :: "nat \<Rightarrow> nat \<Rightarrow> 'a list \<Rightarrow> 'a list" where
  "swap i j xs = xs[i := xs ! j, j := xs ! i]"

text \<open>The loop of \<open>Shuffle\<close> from index \<open>i\<close> down to 1.\<close>

fun shuffleFrom :: "nat \<Rightarrow> 'a list \<Rightarrow> csprng \<Rightarrow> (chunk_error + 'a list) \<times> csprng" where
  "shuffleFrom 0 items r = (Inr items, r)"
| "shuffleFrom (Suc i) items r =
     (case RandomInt (int (Suc i) + 1) r of
        (Inl e, r') \<Rightarrow> (Inl e, r')
      | (Inr j, r') \<Rightarrow> shuffleFrom i (swap (Suc i) j items) r')"

definition Shuffle :: "'a list \<Rightarrow> csprng \<Rightarrow> (chunk_error + 'a list) \<times> csprng" where
  "Shuffle items r = shuffleFrom (length items - 1) items r"

definition fastCDCGearTable :: "(bytes \<Rightarrow> nat \<Rightarrow> byte) \<Rightarrow> bytes \<Rightarrow> chunk_error + uint64 list" where
  "fastCDCGearTable aes_ctr key = bind_res (NewCSPRNG aes_ctr key) (\<lambda>rng.
     let raw = fst (RandomBytes (256 * 8) rng) in Inr (map (\<lambda>i. get_u64_le (drop (i * 8) raw)) [0..<256]))"

definition setBits :: "nat \<Rightarrow> nat list \<Rightarrow> uint64 list \<Rightarrow> uint64 list" where
  "setBits bitPos indices table = foldl (\<lambda>t i. t[i := (t ! i) OR push_bit bitPos 1]) table (take 128 indices)"

text \<open>The loop over the bit positions \<open>64 - k, ..., 63\<close>.\<close>

fun buzhash64Bits :: "nat \<Rightarrow> uint64 list \<Rightarrow> csprng \<Rightarrow> chunk_error + uint64 list" where
  "buzhash64Bits 0 table rng = Inr table"
| "buzhash64Bits (Suc k) table rng =
     (case Shuffle [0..<256] rng of
        (Inl e, _) \<Rightarrow> Inl e
      | (Inr indices, rng') \<Rightarrow> buzhash64Bits k (setBits (63 - k) indices table) rng')"

definition buzhash64Table :: "(bytes \<Rightarrow> nat \<Rightarrow> byte) \<Rightarrow> bytes \<Rightarrow> chunk_error + uint64 list" where
  "buzhash64Table aes_ctr key = bind_res (NewCSPRNG aes_ctr key) (\<lambda>rng. buzhash64Bits 64 (replicate 256 0) rng)"

section \<open>Drawing\<close>

lemma length_RandomBytes: "length (fst (RandomBytes n r)) = n"
proof (induction n r rule: RandomBytes.induct)
  case (1 n r)
  show ?case
  proof (cases "n = 0")
    case False
    let ?r1 = "ready r"
    let ?c = "min n (length (cbuf ?r1) - cpos ?r1)"
    obtain rest r2 where rec: "RandomBytes (n - ?c) (?r1\<lparr>cpos := cpos ?r1 + ?c\<rparr>) = (rest, r2)" by fastforce
    with 1 [OF False refl refl] have "length rest = n - ?c" by simp
    moreover have "fst (RandomBytes n r) = slice (cpos ?r1) ?c (cbuf ?r1) @ rest"
      using False rec by (subst RandomBytes.simps) (simp add: Let_def)
    ultimately show ?thesis by (simp add: slice_def)
  qed (simp add: RandomBytes.simps)
qed

lemma tryDraw_less: "tryDraw k n nb m r = (Some v, r') \<Longrightarrow> v < n"
  by (induction k arbitrary: r) (auto simp: Let_def split: prod.splits if_splits)

lemma RandomInt_ok: "0 < n \<Longrightarrow> \<exists>v r'. RandomInt n r = (Inr v, r') \<and> int v < n"
proof -
  assume n: "0 < n"
  have "int (x mod nat n) < n" for x using n by (simp add: zmod_int)
  with n show ?thesis
    by (auto simp: RandomInt_def Let_def nat_less_iff dest!: tryDraw_less split: prod.splits option.splits)
qed

lemma mset_swap: "i < length xs \<Longrightarrow> j < length xs \<Longrightarrow> mset (swap i j xs) = mset xs"
  by (simp add: swap_def mset_swap)

lemma shuffleFrom_perm:
  "i < length items \<or> i = 0 \<Longrightarrow> \<exists>items' r'. shuffleFrom i items r = (Inr items', r') \<and> mset items' = mset items"
proof (induction i arbitrary: items r)
  case (Suc i)
  then have i: "Suc i < length items" by simp
  obtain j r' where j: "RandomInt (int (Suc i) + 1) r = (Inr j, r')" "int j < int (Suc i) + 1"
    using RandomInt_ok [of "int (Suc i) + 1" r] by auto
  have m: "mset (swap (Suc i) j items) = mset items" using i j(2) by (intro mset_swap) simp_all
  then have "length (swap (Suc i) j items) = length items" by (rule mset_eq_length)
  then have "i < length (swap (Suc i) j items) \<or> i = 0" using i by simp
  from Suc.IH [OF this, of r'] show ?case using j(1) m by simp
qed simp

lemma Shuffle_perm: "\<exists>items' r'. Shuffle items r = (Inr items', r') \<and> mset items' = mset items"
  unfolding Shuffle_def by (rule shuffleFrom_perm) auto


section \<open>Tables\<close>

lemma setBits_fold:
  fixes t :: "uint64 list"
  assumes "\<forall>i\<in>set is. i < length t" "p < 64" "k < length t"
  shows "length (foldl (\<lambda>t i. t[i := (t ! i) OR push_bit b 1]) t is) = length t
    \<and> bit (foldl (\<lambda>t i. t[i := (t ! i) OR push_bit b 1]) t is ! k) p = (bit (t ! k) p \<or> p = b \<and> k \<in> set is)"
  using assms
proof (induction "is" arbitrary: t)
  case (Cons i "is")
  let ?t = "t[i := (t ! i) OR push_bit b 1]"
  have "bit (?t ! k) p = (bit (t ! k) p \<or> p = b \<and> k = i)"
    using Cons.prems by (auto simp: nth_list_update bit_simps)
  with Cons.IH [of ?t] Cons.prems show ?case by auto
qed simp

lemma bits_set:
  assumes "mset indices = mset [0..<256]" "length table = 256" "p < 64" "k < 256"
  shows "length (setBits b indices table) = 256"
    and "bit (setBits b indices table ! k) p = (bit (table ! k) p \<or> p = b \<and> k \<in> set (take 128 indices))"
proof -
  have "set indices = {..<256}" using mset_eq_setD [OF assms(1)] by (auto simp: atLeast0LessThan)
  then have "\<forall>i\<in>set (take 128 indices). i < length table" using assms(2) by (auto dest: in_set_takeD)
  from setBits_fold [OF this assms(3), of k b] assms(2,4)
  show "length (setBits b indices table) = 256"
    and "bit (setBits b indices table ! k) p = (bit (table ! k) p \<or> p = b \<and> k \<in> set (take 128 indices))"
    by (simp_all add: setBits_def)
qed

definition bit_count :: "uint64 list \<Rightarrow> nat \<Rightarrow> nat" where
  "bit_count table p = card {k. k < length table \<and> bit (table ! k) p}"

lemma buzhash64Bits_ok:
  assumes "k \<le> 64" "length table = 256" "\<forall>p<64 - k. bit_count table p = 128"
    "\<forall>p. 64 - k \<le> p \<and> p < 64 \<longrightarrow> (\<forall>i<256. \<not> bit (table ! i) p)"
  shows "\<exists>t. buzhash64Bits k table rng = Inr t \<and> length t = 256 \<and> (\<forall>p<64. bit_count t p = 128)"
  using assms
proof (induction k arbitrary: table rng)
  case (Suc k)
  obtain indices rng' where sh: "Shuffle [0..<256] rng = (Inr indices, rng')" "mset indices = mset [0..<256]"
    using Shuffle_perm by blast
  let ?b = "63 - k" and ?t = "setBits (63 - k) indices table"
  have b: "?b < 64" "64 - Suc k = ?b" using Suc.prems(1) by simp_all
  note bits = bits_set [OF sh(2) Suc.prems(2)]
  have len: "length ?t = 256" using bits(1) [OF b(1), of 0] by simp
  have dist: "distinct indices" using sh(2) by (metis distinct_upt mset_eq_imp_distinct_iff)
  have l: "length indices = 256" using mset_eq_length [OF sh(2)] by simp
  have sub: "set (take 128 indices) \<subseteq> {..<256}"
    using mset_eq_setD [OF sh(2)] by (auto dest: in_set_takeD simp: atLeast0LessThan)
  have "bit_count ?t p = 128" if p: "p < 64 - k" for p
  proof (cases "p = ?b")
    case True
    then have "{k. k < 256 \<and> bit (?t ! k) p} = set (take 128 indices)"
      using bits(2) [OF b(1)] Suc.prems(4) b sub by auto
    then show ?thesis using distinct_card [OF distinct_take [OF dist, of 128]] l by (simp add: bit_count_def len)
  next
    case False
    then have "{i. i < 256 \<and> bit (?t ! i) p} = {i. i < 256 \<and> bit (table ! i) p}"
      using bits(2) [of p] p by auto
    moreover have "p < 64 - Suc k" using False p b by linarith
    ultimately show ?thesis using Suc.prems(2,3) by (simp add: bit_count_def len)
  qed
  moreover have "\<forall>p. 64 - k \<le> p \<and> p < 64 \<longrightarrow> (\<forall>i<256. \<not> bit (?t ! i) p)"
    using bits(2) Suc.prems(1,4) by auto
  ultimately show ?case using Suc.IH [of ?t rng'] Suc.prems(1) len sh(1) by simp
qed (simp)

lemma buzhash64Table_ok:
  assumes "length key = 32"
  shows "\<exists>t. buzhash64Table aes_ctr key = Inr t \<and> length t = 256 \<and> (\<forall>p<64. bit_count t p = 128)"
proof -
  have "\<exists>t. buzhash64Bits 64 (replicate 256 0) rng = Inr t \<and> length t = 256 \<and> (\<forall>p<64. bit_count t p = 128)" for rng
    by (rule buzhash64Bits_ok) simp_all
  with assms show ?thesis by (simp add: buzhash64Table_def NewCSPRNG_def)
qed

text \<open>Building the buzhash64 table never fails on a 32-byte key, and the table is balanced for
  every keystream: each of the 64 bit positions is set in exactly 128 of the 256 entries; any other
  key length is refused.\<close>

theorem buzhash64_table_balanced:
  "if length key = 32 then \<exists>t. buzhash64Table aes_ctr key = Inr t \<and> length t = 256 \<and> (\<forall>p<64. bit_count t p = 128)
   else buzhash64Table aes_ctr key = Inl SeedKeySize"
  using buzhash64Table_ok [of key aes_ctr] by (simp add: buzhash64Table_def NewCSPRNG_def)

theorem buzhash64_table_balanced_witness:
  "\<exists>t. buzhash64Table (\<lambda>k i. word_of_nat i) (replicate 32 7) = Inr t \<and> length t = 256 \<and> (\<forall>p<64. bit_count t p = 128)"
  using buzhash64_table_balanced [of "replicate 32 7" "\<lambda>k i. word_of_nat i"] by simp

text \<open>\<open>Shuffle\<close> returns a permutation of its items, and \<open>RandomInt\<close> a value below its bound,
  whatever the keystream.\<close>

theorem shuffle_permutes:
  "\<exists>items' r'. Shuffle items r = (Inr items', r') \<and> mset items' = mset items \<and> (\<exists>v r''. RandomInt (int n + 1) r = (Inr v, r'') \<and> v \<le> n)"
  using Shuffle_perm [of items r] RandomInt_ok [of "int n + 1" r] by auto

lemma length_fastCDCGearTable: "fastCDCGearTable aes_ctr key = Inr g \<Longrightarrow> length g = 256"
  by (auto simp: fastCDCGearTable_def bind_res_Inr Let_def)

lemma fastCDCGearTable_ok: "length key = 32 \<Longrightarrow> \<exists>g. fastCDCGearTable aes_ctr key = Inr g"
  by (simp add: fastCDCGearTable_def NewCSPRNG_def Let_def)

section \<open>The bytes that are drawn\<close>

text \<open>The buffer is not observable: drawing \<open>n\<close> bytes gives the next \<open>n\<close> bytes of the keystream.\<close>

definition rng_ok :: "csprng \<Rightarrow> bool" where
  "rng_ok r \<longleftrightarrow> length (cbuf r) = 4096 \<and> cpos r \<le> 4096
     \<and> (cpos r < 4096 \<longrightarrow> 4096 \<le> ksoff r \<and> cbuf r = map (\<lambda>i. ks r (ksoff r - 4096 + i)) [0..<4096])"

definition drawn :: "csprng \<Rightarrow> nat" where
  "drawn r = ksoff r - (4096 - cpos r)"


lemma map_upt_split: "c \<le> n \<Longrightarrow> map f [0..<n] = map f [0..<c] @ map (\<lambda>i. f (c + i)) [0..<n - c]"
  by (rule nth_equalityI) (auto simp: nth_append)

lemma ready_ok: "rng_ok r \<Longrightarrow> rng_ok (ready r) \<and> drawn (ready r) = drawn r \<and> ks (ready r) = ks r \<and> cpos (ready r) < 4096
    \<and> length (cbuf (ready r)) = 4096"
  by (auto simp: rng_ok_def ready_def refill_def drawn_def)

lemma RandomBytes_stream:
  "rng_ok r \<Longrightarrow> RandomBytes n r = (bs, r') \<Longrightarrow> bs = map (\<lambda>i. ks r (drawn r + i)) [0..<n] \<and> rng_ok r' \<and> drawn r' = drawn r + n \<and> ks r' = ks r"
proof (induction n r arbitrary: bs r' rule: RandomBytes.induct)
  case (1 n r)
  show ?case
  proof (cases "n = 0")
    case True
    with 1 show ?thesis by (simp add: RandomBytes.simps)
  next
    case False
    let ?r1 = "ready r"
    let ?c = "min n (length (cbuf ?r1) - cpos ?r1)"
    let ?r2 = "?r1\<lparr>cpos := cpos ?r1 + ?c\<rparr>"
    obtain rest r2 where rec: "RandomBytes (n - ?c) ?r2 = (rest, r2)" by fastforce
    have r1: "rng_ok ?r1" "drawn ?r1 = drawn r" "ks ?r1 = ks r" "cpos ?r1 < 4096" "length (cbuf ?r1) = 4096"
      using ready_ok [OF 1(2)] by auto
    have off: "4096 \<le> ksoff ?r1" "cbuf ?r1 = map (\<lambda>i. ks r (ksoff ?r1 - 4096 + i)) [0..<4096]"
      using r1 by (auto simp: rng_ok_def)
    have c: "?c \<le> n" "cpos ?r1 + ?c \<le> 4096" using r1(4,5) by auto
    have ok2: "rng_ok ?r2" using r1 off c by (simp add: rng_ok_def)
    have "drawn ?r2 = drawn ?r1 + ?c" using r1(4) off(1) c by (simp add: drawn_def)
    then have dr2: "drawn ?r2 = drawn r + ?c" using r1(2) by simp
    have sl: "slice (cpos ?r1) ?c (cbuf ?r1) = map (\<lambda>i. ks r (drawn r + i)) [0..<?c]"
    proof (rule nth_equalityI)
      show "length (slice (cpos ?r1) ?c (cbuf ?r1)) = length (map (\<lambda>i. ks r (drawn r + i)) [0..<?c])"
        using c r1(5) by (simp add: slice_def)
      fix i assume "i < length (slice (cpos ?r1) ?c (cbuf ?r1))"
      then have i: "i < ?c" by (simp add: slice_def)
      then have "slice (cpos ?r1) ?c (cbuf ?r1) ! i = cbuf ?r1 ! (cpos ?r1 + i)" using c r1(5) by (simp add: slice_def)
      also have "\<dots> = ks r (ksoff ?r1 - 4096 + (cpos ?r1 + i))"
      proof -
        have "cpos ?r1 + i < 4096" using i c(2) by linarith
        then show ?thesis by (subst off(2)) simp
      qed
      also have "ksoff ?r1 - 4096 + (cpos ?r1 + i) = drawn r + i"
        using r1(4) off(1) unfolding r1(2) [symmetric] by (simp add: drawn_def)
      finally show "slice (cpos ?r1) ?c (cbuf ?r1) ! i = map (\<lambda>i. ks r (drawn r + i)) [0..<?c] ! i" using i by simp
    qed
    from 1(1) [OF False refl refl ok2 rec] have ih: "rest = map (\<lambda>i. ks r (drawn r + ?c + i)) [0..<n - ?c]" "rng_ok r2"
      "drawn r2 = drawn r + n" "ks r2 = ks r" using dr2 r1(3) c(1) by auto
    have "map (\<lambda>i. ks r (drawn r + i)) [0..<n] = map (\<lambda>i. ks r (drawn r + i)) [0..<?c] @ rest"
      using map_upt_split [OF c(1), of "\<lambda>i. ks r (drawn r + i)"] by (simp add: ih(1) add.assoc)
    moreover have "RandomBytes n r = (slice (cpos ?r1) ?c (cbuf ?r1) @ rest, r2)"
      using False rec by (subst RandomBytes.simps) (simp add: Let_def)
    ultimately show ?thesis using 1(3) sl ih by simp
  qed
qed

lemma NewCSPRNG_ok: "NewCSPRNG aes_ctr key = Inr r \<Longrightarrow> rng_ok r \<and> drawn r = 0 \<and> ks r = aes_ctr key"
  by (auto simp: NewCSPRNG_def rng_ok_def drawn_def split: if_splits)

text \<open>The Gear table is the beginning of the keystream: entry \<open>i\<close> is the little-endian 64-bit
  number in the keystream bytes \<open>8 i, ..., 8 i + 7\<close>, independent of the 4096-byte buffering.\<close>

theorem gear_table_is_keystream:
  assumes "length key = 32" "i < 256"
  shows "\<exists>g. fastCDCGearTable aes_ctr key = Inr g \<and> length g = 256
    \<and> g ! i = get_u64_le (map (\<lambda>j. aes_ctr key (8 * i + j)) [0..<8])"
proof -
  obtain r where r: "NewCSPRNG aes_ctr key = Inr r" using assms by (simp add: NewCSPRNG_def)
  obtain bs r' where bs: "RandomBytes (256 * 8) r = (bs, r')" by fastforce
  have raw: "bs = map (\<lambda>i. aes_ctr key i) [0..<2048]"
    using RandomBytes_stream [OF _ bs] NewCSPRNG_ok [OF r] by simp
  have "take 8 (drop (i * 8) bs) = map (\<lambda>j. aes_ctr key (8 * i + j)) [0..<8]"
    using assms(2) by (intro nth_equalityI) (simp_all add: raw mult.commute)
  then have "get_u64_le (drop (i * 8) bs) = get_u64_le (map (\<lambda>j. aes_ctr key (8 * i + j)) [0..<8])"
    by (simp add: get_u64_le_def)
  then show ?thesis using r bs assms(2) by (simp add: fastCDCGearTable_def)
qed

theorem gear_table_is_keystream_witness:
  "\<exists>g. fastCDCGearTable (\<lambda>k i. word_of_nat i) (replicate 32 0) = Inr g \<and> length g = 256
    \<and> g ! 3 = get_u64_le (map (\<lambda>j. word_of_nat (8 * 3 + j)) [0..<8])"
  by (rule gear_table_is_keystream) simp_all

end
