(* ===== verification/Fastcdc.thy ===== *)
theory Fastcdc
  imports Csprng
begin

text \<open>
  The default chunker of \<^verbatim>\<open>src/internal/chunker/fastcdc.go\<close> and the fixed-size chunker of
  \<^verbatim>\<open>buzhash.go\<close>, and the configuration's bounds.
\<close>

section \<open>FastCDC\<close>

definition gear_step :: "uint64 list \<Rightarrow> uint64 \<Rightarrow> byte \<Rightarrow> uint64" where
  "gear_step gear h b = push_bit 1 h + gear ! unat b"

fun fc_scan :: "uint64 list \<Rightarrow> scan_fun" where
  "fc_scan gear [] h m = (None, h)"
| "fc_scan gear (b # p) h m =
     (let h' = push_bit 1 h + gear ! unat b in
      if h' AND m = 0 then (Some 0, h')
      else case fc_scan gear p h' m of (r, h'') \<Rightarrow> (map_option Suc r, h''))"

record fastcdc =
  fc_cfg :: config
  fc_gear :: "uint64 list"
  fc_d :: driver

definition newFastCDC :: "(bytes \<Rightarrow> nat \<Rightarrow> byte) \<Rightarrow> params \<Rightarrow> bytes \<Rightarrow> reader \<Rightarrow> chunk_error + fastcdc" where
  "newFastCDC aes_ctr p key r =
     bind_res (newConfig p True) (\<lambda>cfg. bind_res (fastCDCGearTable aes_ctr key) (\<lambda>gear.
       Inr \<lparr>fc_cfg = cfg, fc_gear = gear, fc_d = driver_init r\<rparr>))"

definition fastcdc_Reset :: "fastcdc \<Rightarrow> reader \<Rightarrow> fastcdc" where
  "fastcdc_Reset c r = c\<lparr>fc_d := driver_reset (fc_d c) r\<rparr>"

definition fastcdc_step :: "fastcdc \<Rightarrow> (fastcdc \<times> step) option" where
  "fastcdc_step c = map_option (map_prod (\<lambda>d. c\<lparr>fc_d := d\<rparr>) id) (driver_next (fc_cfg c) (fc_scan (fc_gear c)) 0 (fc_d c))"

definition fastcdc_Next :: "fastcdc \<Rightarrow> (fastcdc \<times> next_result) option" where
  "fastcdc_Next = chunk_next fastcdc_step"

interpretation gear: byte_scanner "fc_scan gear" "gear_step gear" for gear
  by unfold_locales (auto simp: gear_step_def Let_def split: prod.splits)

definition fastcdc_cut :: "fastcdc \<Rightarrow> bytes \<Rightarrow> nat" where
  "fastcdc_cut c = cut_point (gear_step (fc_gear c)) (fc_cfg c) 0"

text \<open>The state of a chunker built with a given configuration and table.\<close>

definition fastcdc_inv :: "config \<Rightarrow> uint64 list \<Rightarrow> fastcdc \<Rightarrow> bool" where
  "fastcdc_inv cfg gear c \<longleftrightarrow> fc_cfg c = cfg \<and> fc_gear c = gear \<and> cfg_ok cfg \<and> drv_inv cfg (fc_d c)"

interpretation fastcdc: piece_source fastcdc_step "fastcdc_inv cfg gear" "\<lambda>c. drv_rest (fc_d c)"
  "cut_point (gear_step gear) cfg 0" for cfg gear
proof unfold_locales
  fix c
  assume inv: "fastcdc_inv cfg gear c"
  then have cfg: "cfg_ok cfg" "drv_inv cfg (fc_d c)" "fc_cfg c = cfg" "fc_gear c = gear" by (simp_all add: fastcdc_inv_def)
  note nx = gear.driver_next_ok [OF cfg(1,2), of gear 0]
  { assume "drv_rest (fc_d c) = []"
    with nx(1) obtain d where d: "driver_next cfg (fc_scan gear) 0 (fc_d c) = Some (d, AtEOF)" "drv_inv cfg d" "drv_rest d = []" by blast
    then show "\<exists>c'. fastcdc_step c = Some (c', AtEOF) \<and> fastcdc_inv cfg gear c' \<and> drv_rest (fc_d c') = []"
      using cfg by (simp add: fastcdc_step_def fastcdc_inv_def) }
  assume ne: "drv_rest (fc_d c) \<noteq> []"
  let ?k = "cut_point (gear_step gear) cfg 0 (drv_rest (fc_d c))"
  from nx(2) [OF ne] obtain d where "driver_next cfg (fc_scan gear) 0 (fc_d c) = Some (d, Piece (take ?k (drv_rest (fc_d c))))"
    "drv_inv cfg d" "drv_rest d = drop ?k (drv_rest (fc_d c))" by blast
  then show "\<exists>c'. fastcdc_step c = Some (c', Piece (take ?k (drv_rest (fc_d c)))) \<and> fastcdc_inv cfg gear c'
      \<and> drv_rest (fc_d c') = drop ?k (drv_rest (fc_d c))"
    using cfg by (simp add: fastcdc_step_def fastcdc_inv_def)
  show "0 < ?k" using cut_point_bounds(1) [OF cfg(1) ne] by simp
qed

lemma driver_init_inv: "\<not> rfails r \<Longrightarrow> drv_inv cfg (driver_init r)" and driver_init_rest [simp]: "drv_rest (driver_init r) = rdata r"
  by (simp_all add: drv_inv_def drv_base_def driver_init_def drv_rest_def)

lemma driver_reset_init: "driver_reset d r = driver_init r"
  by (cases d) (simp add: driver_reset_def driver_init_def)

section \<open>The configuration\<close>

lemma shl1_small: "0 \<le> e \<Longrightarrow> e \<le> 62 \<Longrightarrow> shl1 e = 2 ^ nat e"
proof -
  assume e: "0 \<le> e" "e \<le> 62"
  then have "(2::int) ^ nat e < 2 ^ 63" by (intro power_strict_increasing) auto
  moreover have "- (2 ^ 63) \<le> (2::int) ^ nat e" by (rule order_trans [of _ 0]) simp_all
  ultimately show ?thesis using e by (simp add: shl1_def wrap64_def signed_take_bit_int_eq_self)
qed

lemma newConfig_ok:
  assumes c: "newConfig p high = Inr cfg" and e: "ChunkMinExp p \<le> 62"
  shows "cfg_ok cfg" "minSize cfg = 2 ^ nat (ChunkMinExp p)" "maxSize cfg = 2 ^ nat (ChunkMaxExp p)" "0 < minSize cfg"
proof -
  from c have b: "0 \<le> ChunkMinExp p" "0 \<le> ChunkMaxExp p" "ChunkMaxExp p \<le> 31"
    and le: "wrap64 (shl1 (ChunkMinExp p) + 1) \<le> shl1 (ChunkMaxExp p)"
    and m: "minSize cfg = shl1 (ChunkMinExp p)" "maxSize cfg = shl1 (ChunkMaxExp p)"
    by (auto simp: newConfig_def Let_def split: if_splits)
  then show mn: "minSize cfg = 2 ^ nat (ChunkMinExp p)" and mx: "maxSize cfg = 2 ^ nat (ChunkMaxExp p)"
    using e by (simp_all add: shl1_small)
  then show pos: "0 < minSize cfg" by simp
  have "(2::int) ^ nat (ChunkMinExp p) \<le> 2 ^ 62" using e by (intro power_increasing) auto
  then have "wrap64 (minSize cfg + 1) = minSize cfg + 1"
    using pos by (simp add: wrap64_def signed_take_bit_int_eq_self mn)
  then have "minSize cfg < maxSize cfg" using le m by simp
  moreover have "(2::int) ^ nat (ChunkMaxExp p) \<le> 2 ^ 31" using b by (intro power_increasing) auto
  ultimately show "cfg_ok cfg" using pos mx by (simp add: cfg_ok_def)
qed


section \<open>Properties of FastCDC\<close>

lemma newFastCDC_inv:
  assumes "newFastCDC aes_ctr p key r = Inr c" "ChunkMinExp p \<le> 62" "\<not> rfails r"
  shows "fastcdc_inv (fc_cfg c) (fc_gear c) c" "drv_rest (fc_d c) = rdata r" "cfg_ok (fc_cfg c)"
  using assms newConfig_ok(1) [of p True "fc_cfg c"]
  by (auto simp: newFastCDC_def bind_res_Inr fastcdc_inv_def driver_init_inv)

lemma cut_point_sizes:
  assumes cfg: "cfg_ok cfg" and cs: "cs = map classify (ref_pieces (cut_point st cfg restart) xs)"
  shows "\<forall>ch\<in>set cs. 0 < Size ch \<and> int (Size ch) \<le> maxSize cfg" "\<forall>ch\<in>set (butlast cs). minSize cfg < int (Size ch)"
proof -
  let ?cut = "cut_point st cfg restart"
  have "0 < length b \<and> int (length b) \<le> maxSize cfg" if b: "b \<in> set (ref_pieces ?cut xs)" for b
  proof -
    obtain ys where "ys \<noteq> []" "b = take (?cut ys) ys" using ref_pieces_set [OF b] by blast
    then show ?thesis using cut_point_bounds [OF cfg \<open>ys \<noteq> []\<close>, of st restart] by simp
  qed
  then show "\<forall>ch\<in>set cs. 0 < Size ch \<and> int (Size ch) \<le> maxSize cfg" unfolding cs by auto
  have "minSize cfg < int (length (take (?cut ys) ys))" if "?cut ys < length ys" for ys
  proof -
    have "ys \<noteq> []" "minSize cfg < int (length ys)" using that by (auto simp: cut_point_def split: if_splits)
    then show ?thesis using cut_point_bounds(4) [OF cfg, of ys st restart] that by simp
  qed
  from ref_pieces_butlast [of ?cut "\<lambda>b. minSize cfg < int (length b)" xs, OF this]
  show "\<forall>ch\<in>set (butlast cs). minSize cfg < int (Size ch)" unfolding cs by (simp add: map_butlast [symmetric])
qed

text \<open>C12. FastCDC cuts a stream completely and reproducibly: calling \<open>Next\<close> until it reports the end
  returns, the chunks put together are the stream, and they are the ones the reference cut
  function selects from the content alone, whatever the size of the reads. Every chunk is at
  most the maximum size, and every one but the last is larger than the minimum size.\<close>

theorem fastcdc_chunks:
  assumes new: "newFastCDC aes_ctr p key r = Inr c" "ChunkMinExp p \<le> 62" "\<not> rfails r"
  shows "\<exists>cs. allChunks fastcdc_Next c = Some (Inr cs) \<and> concat (map chunk_bytes cs) = rdata r
    \<and> cs = map classify (ref_pieces (fastcdc_cut c) (rdata r))
    \<and> (\<forall>ch\<in>set cs. 0 < Size ch \<and> int (Size ch) \<le> maxSize (fc_cfg c))
    \<and> (\<forall>ch\<in>set (butlast cs). minSize (fc_cfg c) < int (Size ch))"
proof -
  let ?bs = "ref_pieces (fastcdc_cut c) (rdata r)"
  have "allChunks fastcdc_Next c = Some (Inr (map classify ?bs))" "concat ?bs = rdata r"
    using fastcdc.all_chunks [OF newFastCDC_inv(1) [OF new]]
    by (simp_all add: fastcdc_Next_def fastcdc_cut_def newFastCDC_inv(2) [OF new])
  moreover have "map chunk_bytes (map classify ?bs) = ?bs" by (simp add: comp_def map_idI)
  ultimately show ?thesis
    using cut_point_sizes [OF newFastCDC_inv(3) [OF new], of "map classify ?bs"]
    by (intro exI [of _ "map classify ?bs"]) (simp add: fastcdc_cut_def)
qed

lemma default_config: "\<exists>cfg. newConfig DefaultParams high = Inr cfg \<and> minSize cfg = 524288 \<and> maxSize cfg = 8388608
   \<and> normalSize cfg = 1572864"
  by (simp add: newConfig_def DefaultParams_def no_params_def shl1_def wrap64_def signed_take_bit_int_eq_self)

theorem fastcdc_chunks_witness:
  "\<exists>c cs. newFastCDC (\<lambda>k i. word_of_nat i) DefaultParams (replicate 32 1) \<lparr>rdata = [1, 2, 3], rfails = False\<rparr> = Inr c
    \<and> allChunks fastcdc_Next c = Some (Inr cs) \<and> concat (map chunk_bytes cs) = [1, 2, 3]"
proof -
  obtain c where c: "newFastCDC (\<lambda>k i. word_of_nat i) DefaultParams (replicate 32 1) \<lparr>rdata = [1, 2, 3], rfails = False\<rparr> = Inr c"
    using default_config [of True] fastCDCGearTable_ok [of "replicate 32 1" "\<lambda>k i. word_of_nat i"]
    by (auto simp: newFastCDC_def)
  have "ChunkMinExp DefaultParams \<le> 62" by (simp add: DefaultParams_def no_params_def)
  from fastcdc_chunks [OF c this] c show ?thesis by auto
qed

text \<open>The uses of a chunker between two streams: \<open>Next\<close> and \<open>Reset\<close> in any order.\<close>

inductive used :: "fastcdc \<Rightarrow> fastcdc \<Rightarrow> bool" for c where
  used_new: "used c c"
| used_next: "used c d \<Longrightarrow> fastcdc_Next d = Some (e, x) \<Longrightarrow> used c e"
| used_reset: "used c d \<Longrightarrow> used c (fastcdc_Reset d r)"

lemma used_keeps: "used c d \<Longrightarrow> fc_cfg d = fc_cfg c \<and> fc_gear d = fc_gear c"
  by (induction rule: used.induct)
    (auto simp: fastcdc_Next_def chunk_next_def fastcdc_step_def fastcdc_Reset_def)

text \<open>A chunker that is reset is indistinguishable from a new one, whatever was read from it
  before: \<open>Reset\<close> after any sequence of \<open>Next\<close> and \<open>Reset\<close> calls gives the state the constructor
  gives for the new stream.\<close>

theorem reset_is_fresh:
  assumes "newFastCDC aes_ctr p key r0 = Inr c" "used c d"
  shows "newFastCDC aes_ctr p key r = Inr (fastcdc_Reset d r)"
proof -
  have "fastcdc_Reset d r = \<lparr>fc_cfg = fc_cfg d, fc_gear = fc_gear d, fc_d = driver_init r\<rparr>"
    by (cases d) (simp add: fastcdc_Reset_def driver_reset_init)
  with assms(1) used_keeps [OF assms(2)] show ?thesis by (auto simp: newFastCDC_def bind_res_Inr)
qed

theorem reset_is_fresh_witness:
  "\<exists>c d x. newFastCDC (\<lambda>k i. 0) DefaultParams (replicate 32 1) \<lparr>rdata = [9], rfails = False\<rparr> = Inr c
    \<and> fastcdc_Next c = Some (d, x)
    \<and> newFastCDC (\<lambda>k i. 0) DefaultParams (replicate 32 1) \<lparr>rdata = [5, 5], rfails = False\<rparr>
        = Inr (fastcdc_Reset d \<lparr>rdata = [5, 5], rfails = False\<rparr>)"
proof -
  obtain c where c: "newFastCDC (\<lambda>k i. 0) DefaultParams (replicate 32 1) \<lparr>rdata = [9], rfails = False\<rparr> = Inr c"
    using default_config [of True] fastCDCGearTable_ok [of "replicate 32 1" "\<lambda>k i. 0"]
    by (auto simp: newFastCDC_def)
  have "ChunkMinExp DefaultParams \<le> 62" by (simp add: DefaultParams_def no_params_def)
  from newFastCDC_inv [OF c this] have "fastcdc_inv (fc_cfg c) (fc_gear c) c" "drv_rest (fc_d c) \<noteq> []" by simp_all
  from fastcdc.next_piece [OF this] obtain d x where d: "fastcdc_Next c = Some (d, x)"
    by (auto simp: fastcdc_Next_def chunk_next_def)
  then have "used c d" by (auto intro: used.intros)
  from reset_is_fresh [OF c this] c d show ?thesis by blast
qed


section \<open>Where FastCDC cuts\<close>

lemma find_cut_spec:
  assumes "pos \<le> min (length xs) (nat (maxSize cfg))" "k = find_cut st cfg xs pos h"
  shows "(\<forall>j. pos < j \<and> j < k \<longrightarrow> foldl st h (slice pos (j - pos) xs) AND maskFor cfg (j - 1) \<noteq> 0)
    \<and> (k = min (length xs) (nat (maxSize cfg)) \<or> foldl st h (slice pos (k - pos) xs) AND maskFor cfg (k - 1) = 0)"
  using assms
proof (induction st cfg xs pos h rule: find_cut.induct)
  case (1 st cfg xs pos h)
  let ?lim = "min (length xs) (nat (maxSize cfg))"
  show ?case
  proof (cases "pos \<ge> ?lim")
    case True
    then have "k = pos" "pos = ?lim" using 1(2,3) by (subst (asm) find_cut.simps, simp_all)
    then show ?thesis by auto
  next
    case lt: False
    let ?h = "st h (xs ! pos)"
    have sl: "slice pos (Suc n) xs = xs ! pos # slice (Suc pos) n xs" for n
      using lt by (simp add: slice_def Cons_nth_drop_Suc [symmetric])
    show ?thesis
    proof (cases "?h AND maskFor cfg pos = 0")
      case True
      then have "k = Suc pos" using 1(3) lt by (subst (asm) find_cut.simps) simp
      then show ?thesis using True sl [of 0] by (auto simp: slice_def)
    next
      case False
      let ?f = "\<lambda>j. foldl st ?h (slice (Suc pos) (j - Suc pos) xs)"
      have le: "Suc pos \<le> ?lim" using lt by linarith
      have k: "k = find_cut st cfg xs (Suc pos) ?h" using 1(3) lt False by (subst (asm) find_cut.simps) simp
      from 1(1) [OF lt False le k]
      have ih: "\<forall>j. Suc pos < j \<and> j < k \<longrightarrow> ?f j AND maskFor cfg (j - 1) \<noteq> 0" "k = ?lim \<or> ?f k AND maskFor cfg (k - 1) = 0" by auto
      have pk: "Suc pos \<le> k" using find_cut_bounds [OF le] k by blast
      have shift: "foldl st h (slice pos (j - pos) xs) = ?f j" if "Suc pos \<le> j" for j
        using that sl [of "j - Suc pos"] by (simp add: Suc_diff_Suc)
      have "foldl st h (slice pos (j - pos) xs) AND maskFor cfg (j - 1) \<noteq> 0" if "pos < j" "j < k" for j
        using that ih(1) False shift [of j] by (cases "j = Suc pos") (auto simp: slice_def)
      then show ?thesis using ih(2) shift [OF pk] by auto
    qed
  qed
qed

text \<open>Where a chunk ends: with more than the minimum size left, the cut lies behind the first
  byte past the minimum at which the Gear hash of the bytes since the minimum is zero under the
  mask of that position (strict below the normal size, loose from there on), or at the end of
  the stream or the maximum size when there is no such byte.\<close>

theorem fastcdc_cut_spec:
  assumes "cfg_ok (fc_cfg c)" "minSize (fc_cfg c) < int (length xs)"
  defines "hash \<equiv> \<lambda>j. foldl (gear_step (fc_gear c)) 0 (slice (nat (minSize (fc_cfg c))) (j - nat (minSize (fc_cfg c))) xs)"
  shows "(\<forall>j. nat (minSize (fc_cfg c)) < j \<and> j < fastcdc_cut c xs \<longrightarrow> hash j AND maskFor (fc_cfg c) (j - 1) \<noteq> 0)
    \<and> (fastcdc_cut c xs = min (length xs) (nat (maxSize (fc_cfg c))) \<or> hash (fastcdc_cut c xs) AND maskFor (fc_cfg c) (fastcdc_cut c xs - 1) = 0)"
proof -
  let ?m = "nat (minSize (fc_cfg c))"
  have "?m \<le> min (length xs) (nat (maxSize (fc_cfg c)))" using assms(1,2) by (auto simp: cfg_ok_def)
  moreover have "fastcdc_cut c xs = find_cut (gear_step (fc_gear c)) (fc_cfg c) xs ?m 0"
    using assms(2) by (simp add: fastcdc_cut_def cut_point_def)
  ultimately show ?thesis unfolding hash_def by (rule find_cut_spec)
qed

definition tiny_cfg :: config where
  "tiny_cfg = \<lparr>minSize = 1, maxSize = 4, chunkMask = 3, maskS = 7, maskL = 1, ncLevel = 1, normalSize = 2\<rparr>"

theorem fastcdc_cut_spec_witness:
  "fastcdc_cut \<lparr>fc_cfg = tiny_cfg, fc_gear = replicate 256 1, fc_d = driver_init \<lparr>rdata = [], rfails = False\<rparr>\<rparr> [0, 0, 0, 0, 0, 0] = 4
   \<and> foldl (gear_step (replicate 256 1)) 0 (slice 1 1 [0, 0, 0, 0, 0, 0]) AND maskFor tiny_cfg 1 \<noteq> 0
   \<and> foldl (gear_step (replicate 256 1)) 0 (slice 1 2 [0, 0, 0, 0, 0, 0]) AND maskFor tiny_cfg 2 \<noteq> 0"
proof -
  let ?c = "\<lparr>fc_cfg = tiny_cfg, fc_gear = replicate 256 1, fc_d = driver_init \<lparr>rdata = [], rfails = False\<rparr>\<rparr>"
  have "cfg_ok (fc_cfg ?c)" "minSize (fc_cfg ?c) < int (length ([0, 0, 0, 0, 0, 0] :: bytes))"
    by (simp_all add: cfg_ok_def tiny_cfg_def)
  note * = fastcdc_cut_spec [OF this]
  have "fastcdc_cut ?c [0, 0, 0, 0, 0, 0] = 4"
    by (simp add: fastcdc_cut_def cut_point_def tiny_cfg_def find_cut.simps gear_step_def maskFor_def)
  moreover have "nat (minSize (fc_cfg ?c)) = 1" by (simp add: tiny_cfg_def)
  ultimately show ?thesis using conjunct1 [OF *, rule_format, of 2] conjunct1 [OF *, rule_format, of 3] by auto
qed

section \<open>An unchecked exponent\<close>

text \<open>\<open>newConfig\<close> does not bound the minimum exponent. With \<open>ChunkMinExp = 63\<close> the shift gives a
  negative minimum size, which the check against the maximum lets pass; the first call of
  \<open>Next\<close> then panics with a slice bound out of range, on every stream. From 64 on the minimum
  size is 0 and is accepted as well.\<close>

theorem min_exp_unchecked:
  "(\<exists>cfg d. newConfig (DefaultParams\<lparr>ChunkMinExp := 63\<rparr>) True = Inr cfg \<and> minSize cfg = - (2 ^ 63)
     \<and> driver_next cfg scan restart (driver_init r) = Some (d, Failed SliceOutOfRange))
   \<and> (\<exists>cfg. newConfig (DefaultParams\<lparr>ChunkMinExp := 64\<rparr>) True = Inr cfg \<and> minSize cfg = 0)"
proof -
  have w: "wrap64 9223372036854775808 = - 9223372036854775808" "wrap64 (- 9223372036854775807) = - 9223372036854775807"
    by (simp_all add: wrap64_def signed_take_bit_eq_if_negative signed_take_bit_int_eq_self)
  obtain cfg where cfg: "newConfig (DefaultParams\<lparr>ChunkMinExp := 63\<rparr>) True = Inr cfg" "minSize cfg = - (2 ^ 63)"
    by (simp add: newConfig_def DefaultParams_def no_params_def shl1_def w)
      (simp add: wrap64_def signed_take_bit_int_eq_self)
  have "fillTo cfg (- 9223372036854775807) (driver_init r) = Some (driver_init r, Inr ())"
    by (subst fillTo.simps) simp
  then have "driver_next cfg scan restart (driver_init r) = Some (driver_init r, Failed SliceOutOfRange)"
    using cfg(2) w by (simp add: driver_next_def compact_def driver_init_def)
  moreover have "\<exists>cfg. newConfig (DefaultParams\<lparr>ChunkMinExp := 64\<rparr>) True = Inr cfg \<and> minSize cfg = 0"
    by (simp add: newConfig_def DefaultParams_def no_params_def shl1_def wrap64_def signed_take_bit_int_eq_self)
  ultimately show ?thesis using cfg by blast
qed

end
