(* ===== verification/Buzhash.thy ===== *)
theory Buzhash
  imports Fastcdc
begin

text \<open>
  The windowed chunkers: \<open>windowDriver\<close> of \<^verbatim>\<open>src/internal/chunker/driver.go\<close>, and \<open>Buzhash64\<close>,
  \<open>Buzhash\<close> and \<open>Fixed\<close> of \<^verbatim>\<open>buzhash.go\<close>. The base table of the 32-bit hash
  (\<^verbatim>\<open>buzhash_table.go\<close>, a generated constant) is a parameter.
\<close>

section \<open>The windowed driver\<close>

type_synonym window_scan = "bytes \<Rightarrow> nat \<Rightarrow> uint64 \<Rightarrow> uint64 \<Rightarrow> nat \<times> uint64"

definition initWindow :: "config \<Rightarrow> int \<Rightarrow> reader \<Rightarrow> chunk_error + driver" where
  "initWindow cfg windowSize r =
     (if wrap64 (windowSize + minSize cfg + 1) > maxSize cfg then Inl WindowTooLarge else Inr (driver_init r))"

partial_function (option) winLoop ::
  "config \<Rightarrow> nat \<Rightarrow> window_scan \<Rightarrow> driver \<Rightarrow> uint64 \<Rightarrow> (driver \<times> (chunk_error + unit)) option" where
  "winLoop cfg w scan d s =
     (let mask = (if ncLevel cfg \<noteq> 0 \<and> int (dpos d) < normalSize cfg then maskS cfg else maskL cfg);
          remaining = length (wbuf d) - dpos d in
      if \<not> (remaining > w \<and> s AND mask \<noteq> 0 \<and> \<not> (deof d \<and> remaining \<le> w)) then Some (d, Inr ())
      else let stop0 = length (wbuf d) - w;
               stop = (if ncLevel cfg \<noteq> 0 \<and> int (dpos d) < normalSize cfg \<and> normalSize cfg < int stop0
                       then nat (normalSize cfg) else stop0);
               did = fst (scan (drop (dpos d) (wbuf d)) (stop - dpos d) s mask);
               s' = snd (scan (drop (dpos d) (wbuf d)) (stop - dpos d) s mask);
               d1 = d\<lparr>dpos := dpos d + did\<rparr> in
        if length (wbuf d1) - dpos d1 \<le> w
        then (case fill cfg d1 of (d2, Inl e) \<Rightarrow> Some (d2, Inl e) | (d2, Inr _) \<Rightarrow> winLoop cfg w scan d2 s')
        else winLoop cfg w scan d1 s')"

definition window_next :: "config \<Rightarrow> nat \<Rightarrow> (bytes \<Rightarrow> uint64) \<Rightarrow> window_scan \<Rightarrow> driver \<Rightarrow> (driver \<times> step) option" where
  "window_next cfg w hash scan d0 =
     (let d = compact d0 in
      if ddone d then Some (at_end d)
      else Option.bind (fillTo cfg (wrap64 (minSize cfg + int w + 1)) d) (\<lambda>(d1, res).
        case res of
          Inl e \<Rightarrow> Some (d1, Failed e)
        | Inr _ \<Rightarrow>
            if deof d1 then
              (let d2 = d1\<lparr>ddone := True\<rparr> in
               if wbuf d2 = [] then Some (at_end d2) else Some (emit_step (length (wbuf d2)) d2))
            else if minSize cfg < 0 \<or> int (length (wbuf d1)) < minSize cfg + int w then Some (d1, Failed SliceOutOfRange)
            else let p = nat (minSize cfg) in
              Option.bind (winLoop cfg w scan (d1\<lparr>dpos := p\<rparr>) (hash (slice p w (wbuf d1)))) (\<lambda>(d2, res').
                case res' of
                  Inl e \<Rightarrow> Some (d2, Failed e)
                | Inr _ \<Rightarrow> (let d3 = (if length (wbuf d2) - dpos d2 \<le> w then d2\<lparr>dpos := length (wbuf d2)\<rparr> else d2) in
                    Some (emit_step (dpos d3) d3)))))"

section \<open>The reference cut of the windowed chunkers\<close>

text \<open>Cut at the first position from \<open>pos\<close> on whose window matches the mask in force there; a
  window that would reach the end of the stream or the maximum size makes all of it one chunk.\<close>

function find_win :: "(bytes \<Rightarrow> uint64) \<Rightarrow> config \<Rightarrow> nat \<Rightarrow> bytes \<Rightarrow> nat \<Rightarrow> nat" where
  "find_win hash cfg w xs pos =
     (if min (length xs) (nat (maxSize cfg)) \<le> pos + w then min (length xs) (nat (maxSize cfg))
      else if hash (slice pos w xs) AND maskFor cfg pos = 0 then pos
      else find_win hash cfg w xs (Suc pos))"
  by pat_completeness auto
termination by (relation "measure (\<lambda>(_, cfg, w, xs, pos). length xs - pos)") auto

declare find_win.simps [simp del]

definition window_cut :: "(bytes \<Rightarrow> uint64) \<Rightarrow> config \<Rightarrow> nat \<Rightarrow> bytes \<Rightarrow> nat" where
  "window_cut hash cfg w xs =
     (if int (length xs) < minSize cfg + int w + 1 then length xs else find_win hash cfg w xs (nat (minSize cfg)))"

definition win_cfg_ok :: "config \<Rightarrow> nat \<Rightarrow> bool" where
  "win_cfg_ok cfg w \<longleftrightarrow> 0 < minSize cfg \<and> minSize cfg + int w + 1 \<le> maxSize cfg \<and> maxSize cfg \<le> 2 ^ 31"

lemma find_win_bounds:
  "pos \<le> min (length xs) (nat (maxSize cfg)) \<Longrightarrow>
    pos \<le> find_win hash cfg w xs pos \<and> find_win hash cfg w xs pos \<le> min (length xs) (nat (maxSize cfg))"
proof (induction hash cfg w xs pos rule: find_win.induct)
  case (1 hash cfg w xs pos)
  let ?lim = "min (length xs) (nat (maxSize cfg))"
  consider "?lim \<le> pos + w" | "\<not> ?lim \<le> pos + w" "hash (slice pos w xs) AND maskFor cfg pos = 0"
    | "\<not> ?lim \<le> pos + w" "hash (slice pos w xs) AND maskFor cfg pos \<noteq> 0" by blast
  then show ?case
  proof cases
    case 1
    then have "find_win hash cfg w xs pos = ?lim" by (subst find_win.simps) (simp only: if_True)
    then show ?thesis using \<open>pos \<le> ?lim\<close> by (simp only: order_refl simp_thms)
  next
    case 2
    then have "find_win hash cfg w xs pos = pos" by (subst find_win.simps) (simp only: if_True if_False simp_thms)
    then show ?thesis using \<open>pos \<le> ?lim\<close> by (simp only: order_refl simp_thms)
  next
    case 3
    then have e: "find_win hash cfg w xs pos = find_win hash cfg w xs (Suc pos)"
      by (subst find_win.simps) (simp only: if_True if_False)
    have "Suc pos \<le> ?lim" using 3(1) by linarith
    with 1(1) 3 show ?thesis unfolding e by (meson Suc_leD)
  qed
qed

lemma window_cut_bounds:
  assumes "win_cfg_ok cfg w" "xs \<noteq> []"
  shows "0 < window_cut hash cfg w xs" "window_cut hash cfg w xs \<le> length xs" "int (window_cut hash cfg w xs) \<le> maxSize cfg"
    "window_cut hash cfg w xs < length xs \<Longrightarrow> minSize cfg \<le> int (window_cut hash cfg w xs)"
proof -
  have ok: "0 < minSize cfg" "minSize cfg + int w + 1 \<le> maxSize cfg" using assms(1) by (simp_all add: win_cfg_ok_def)
  let ?f = "find_win hash cfg w xs (nat (minSize cfg))"
  have b: "nat (minSize cfg) \<le> ?f" "?f \<le> length xs" "?f \<le> nat (maxSize cfg)" if "\<not> int (length xs) < minSize cfg + int w + 1"
  proof -
    have "nat (minSize cfg) \<le> min (length xs) (nat (maxSize cfg))" using that ok by (simp add: nat_le_iff nat_mono)
    from find_win_bounds [OF this, of hash w]
    show "nat (minSize cfg) \<le> ?f" "?f \<le> length xs" "?f \<le> nat (maxSize cfg)" by auto
  qed
  show "0 < window_cut hash cfg w xs" "window_cut hash cfg w xs \<le> length xs" "int (window_cut hash cfg w xs) \<le> maxSize cfg"
    using b ok assms(2) by (auto simp: window_cut_def)
  show "window_cut hash cfg w xs < length xs \<Longrightarrow> minSize cfg \<le> int (window_cut hash cfg w xs)"
    using b ok by (auto simp: window_cut_def split: if_splits)
qed


section \<open>The windowed driver follows the reference\<close>

definition win_inv :: "config \<Rightarrow> driver \<Rightarrow> bool" where
  "win_inv cfg d \<longleftrightarrow> drv_inv cfg d \<and> (deof d \<longrightarrow> pending d = length (wbuf d))"

lemma win_need: "win_cfg_ok cfg w \<Longrightarrow> wrap64 (minSize cfg + int w + 1) = minSize cfg + int w + 1"
  by (auto simp: win_cfg_ok_def wrap64_def intro!: signed_take_bit_int_eq_self)

lemma emit_win:
  assumes "drv_inv cfg d" "pending d = 0" "pos \<le> length (wbuf d)" "deof d \<longrightarrow> pos = length (wbuf d)" "ddone d \<longrightarrow> deof d"
  shows "\<exists>d'. emit_step pos d = (d', Piece (take pos (drv_rest d))) \<and> win_inv cfg d' \<and> drv_rest d' = drop pos (drv_rest d)"
  using assms by (auto simp: emit_step_def emit_def win_inv_def drv_inv_def drv_base_def drv_rest_def)

text \<open>A window scanner rolls its hash forward byte by byte, up to the first window that matches.\<close>

locale window_scanner =
  fixes scan :: window_scan and hash :: "bytes \<Rightarrow> uint64" and w :: nat
  assumes scan_law: "n + w \<le> length p \<Longrightarrow> scan p n (hash (take w p)) m = (did, s') \<Longrightarrow>
      did \<le> n \<and> s' = hash (slice did w p) \<and> (\<forall>j<did. hash (slice j w p) AND m \<noteq> 0) \<and> (did < n \<longrightarrow> s' AND m = 0)"
begin

lemma find_win_skip:
  assumes "\<forall>j<k. hash (slice (pos + j) w xs) AND maskFor cfg (pos + j) \<noteq> 0" "pos + k + w \<le> min (length xs) (nat (maxSize cfg))"
  shows "find_win hash cfg w xs pos = find_win hash cfg w xs (pos + k)"
  using assms
proof (induction k)
  case (Suc k)
  have np: "\<not> min (length xs) (nat (maxSize cfg)) \<le> pos + k + w" using Suc.prems(2) by linarith
  have nz: "hash (slice (pos + k) w xs) AND maskFor cfg (pos + k) \<noteq> 0" using Suc.prems(1) by simp
  have "find_win hash cfg w xs pos = find_win hash cfg w xs (pos + k)" using Suc by simp
  also have "\<dots> = find_win hash cfg w xs (pos + Suc k)"
    using np nz by (subst find_win.simps) (simp only: if_False add_Suc_right)
  finally show ?case .
qed simp

lemma winLoop_ok:
  assumes "drv_base cfg d" "dpos d + w \<le> length (wbuf d)"
    "length (wbuf d) - dpos d \<le> w \<longrightarrow> length (wbuf d) = min (length (wbuf d @ rdata (dsrc d))) (nat (maxSize cfg))"
    "\<not> deof d \<or> length (wbuf d) - dpos d \<le> w"
  shows "\<exists>d'. winLoop cfg w scan d (hash (slice (dpos d) w (wbuf d))) = Some (d', Inr ()) \<and> filled cfg d (d'\<lparr>dpos := dpos d\<rparr>)
    \<and> dpos d' + w \<le> length (wbuf d') \<and> (deof d' \<longrightarrow> length (wbuf d') - dpos d' \<le> w)
    \<and> (if length (wbuf d') - dpos d' \<le> w then length (wbuf d') else dpos d') = find_win hash cfg w (wbuf d @ rdata (dsrc d)) (dpos d)"
  using assms
proof (induction "2 * length (rdata (dsrc d)) + length (wbuf d) - dpos d" arbitrary: d rule: less_induct)
  case less
  let ?xs = "wbuf d @ rdata (dsrc d)" and ?n = "length (wbuf d)" and ?s = "hash (slice (dpos d) w (wbuf d))"
  let ?lim = "min (length ?xs) (nat (maxSize cfg))"
  have base: "drv_base cfg d" and pw: "dpos d + w \<le> ?n" and max: "?n \<le> ?lim" using less.prems by (simp_all add: drv_base_def)
  have self: "filled cfg d (d\<lparr>dpos := dpos d\<rparr>)" using base by (simp add: filled_refl)
  have m: "(if ncLevel cfg \<noteq> 0 \<and> int (dpos d) < normalSize cfg then maskS cfg else maskL cfg) = maskFor cfg (dpos d)"
    by (simp add: maskFor_def)
  have sx: "slice k w ?xs = slice k w (wbuf d)" if "k + w \<le> ?n" for k using that by (rule slice_append_left)
  show ?case
  proof (cases "?n - dpos d > w \<and> ?s AND maskFor cfg (dpos d) \<noteq> 0")
    case False
    then have loop: "winLoop cfg w scan d ?s = Some (d, Inr ())"
      by (subst winLoop.simps) (simp only: Let_def m, simp)
    show ?thesis
    proof (cases "?n - dpos d \<le> w")
      case True
      then have "?n = ?lim" using less.prems(3) by simp
      moreover have "?lim \<le> dpos d + w" using True \<open>?n = ?lim\<close> pw by linarith
      then have "find_win hash cfg w ?xs (dpos d) = ?lim" by (subst find_win.simps) (simp only: if_True)
      ultimately show ?thesis using loop self pw True by (intro exI [of _ d]) (simp only: if_True simp_thms)
    next
      case gt: False
      with False have z: "hash (slice (dpos d) w ?xs) AND maskFor cfg (dpos d) = 0" using sx [OF pw] by simp
      have "\<not> ?lim \<le> dpos d + w" using gt max by linarith
      then have "find_win hash cfg w ?xs (dpos d) = dpos d" using z by (subst find_win.simps) (simp only: if_True if_False simp_thms)
      then show ?thesis using loop self pw gt less.prems(4) by (intro exI [of _ d]) (simp only: if_False simp_thms)
    qed
  next
    case True
    let ?stop0 = "?n - w"
    define stop where
      "stop = (if ncLevel cfg \<noteq> 0 \<and> int (dpos d) < normalSize cfg \<and> normalSize cfg < int ?stop0 then nat (normalSize cfg) else ?stop0)"
    have neof: "\<not> deof d" using True less.prems(4) by linarith
    have stop: "dpos d < stop" "stop + w \<le> ?n" using True by (auto simp: stop_def)
    have norm: "ncLevel cfg \<noteq> 0 \<Longrightarrow> int (dpos d) < normalSize cfg \<Longrightarrow> int stop \<le> normalSize cfg" by (auto simp: stop_def)
    let ?p = "drop (dpos d) (wbuf d)"
    obtain did s' where sc: "scan ?p (stop - dpos d) ?s (maskFor cfg (dpos d)) = (did, s')" by fastforce
    have "stop - dpos d + w \<le> length ?p" using stop by simp
    moreover have "?s = hash (take w ?p)" by (simp add: slice_def)
    ultimately have law: "did \<le> stop - dpos d" "s' = hash (slice did w ?p)"
      "\<forall>j<did. hash (slice j w ?p) AND maskFor cfg (dpos d) \<noteq> 0" "did < stop - dpos d \<longrightarrow> s' AND maskFor cfg (dpos d) = 0"
      using scan_law [of "stop - dpos d" ?p "maskFor cfg (dpos d)" did s'] sc by auto
    have sp: "slice j w ?p = slice (dpos d + j) w (wbuf d)" for j by (simp add: slice_def add.commute)
    have "did \<noteq> 0"
    proof
      assume "did = 0"
      then have "s' AND maskFor cfg (dpos d) = 0" using law(4) stop by simp
      then show False using True law(2) sp [of 0] \<open>did = 0\<close> by simp
    qed
    let ?d1 = "d\<lparr>dpos := dpos d + did\<rparr>"
    have p1: "dpos d + did + w \<le> ?n" using law(1) stop by linarith
    have mask: "maskFor cfg (dpos d + j) = maskFor cfg (dpos d)" if "j < did" for j
      using that law(1) stop norm by (auto simp: maskFor_def)
    have skip: "find_win hash cfg w ?xs (dpos d) = find_win hash cfg w ?xs (dpos d + did)"
    proof (rule find_win_skip)
      show "\<forall>j<did. hash (slice (dpos d + j) w ?xs) AND maskFor cfg (dpos d + j) \<noteq> 0"
        using law(3) mask sp p1 by (auto simp: slice_append_left)
      show "dpos d + did + w \<le> ?lim" using p1 max by linarith
    qed
    have unf: "winLoop cfg w scan d ?s = (if ?n - (dpos d + did) \<le> w
        then (case fill cfg ?d1 of (d2, Inl e) \<Rightarrow> Some (d2, Inl e) | (d2, Inr _) \<Rightarrow> winLoop cfg w scan d2 s')
        else winLoop cfg w scan ?d1 s')"
      using True neof sc unfolding stop_def by (subst winLoop.simps) (simp only: Let_def m fst_conv snd_conv, simp)
    have s': "s' = hash (slice (dpos d + did) w (wbuf d))" using law(2) sp by simp
    have base1: "drv_base cfg ?d1" using base by (simp add: drv_base_def)
    show ?thesis
    proof (cases "?n - (dpos d + did) \<le> w")
      case False
      have "2 * length (rdata (dsrc ?d1)) + length (wbuf ?d1) - dpos ?d1 < 2 * length (rdata (dsrc d)) + ?n - dpos d"
        using \<open>did \<noteq> 0\<close> p1 by simp
      from less.hyps [OF this base1] p1 False neof obtain d' where d': "winLoop cfg w scan ?d1 s' = Some (d', Inr ())"
        "filled cfg ?d1 (d'\<lparr>dpos := dpos ?d1\<rparr>)" "dpos d' + w \<le> length (wbuf d')" "deof d' \<longrightarrow> length (wbuf d') - dpos d' \<le> w"
        "(if length (wbuf d') - dpos d' \<le> w then length (wbuf d') else dpos d') = find_win hash cfg w ?xs (dpos d + did)"
        by (auto simp: s')
      have "filled cfg d (d'\<lparr>dpos := dpos d\<rparr>)" using d'(2) by (simp add: filled_def drv_base_def)
      with d' unf False skip show ?thesis by (intro exI [of _ d']) (simp only: if_False simp_thms)
    next
      case le: True
      then have eq: "dpos d + did + w = ?n" using p1 by linarith
      have recurse: ?thesis if f: "fill cfg ?d1 = (d2, Inr ())" "filled cfg ?d1 d2" "2 * length (rdata (dsrc d2)) + length (wbuf d2) - dpos d2 < 2 * length (rdata (dsrc d)) + ?n - dpos d"
        and c: "length (wbuf d2) - dpos d2 \<le> w \<longrightarrow> length (wbuf d2) = ?lim" "\<not> deof d2 \<or> length (wbuf d2) - dpos d2 \<le> w" for d2
      proof -
        have x: "wbuf d2 @ rdata (dsrc d2) = ?xs" "dpos d2 = dpos d + did" "?n \<le> length (wbuf d2)" "drv_base cfg d2"
          using f(2) by (simp_all add: filled_def)
        have pre: "wbuf d = take ?n (wbuf d2)"
          using x(1,3) by (metis append_eq_append_conv_if append_eq_conv_conj)
        have "slice (dpos d2) w (wbuf d2) = slice (dpos d + did) w (wbuf d)"
          using eq x(2) by (subst pre) (simp add: slice_def drop_take min_absorb2)
        then have s2: "hash (slice (dpos d2) w (wbuf d2)) = s'" by (simp add: s')
        have "dpos d2 + w \<le> length (wbuf d2)" using x eq by linarith
        from less.hyps [OF f(3) x(4) this, unfolded x(1) s2, OF c] obtain d' where d': "winLoop cfg w scan d2 s' = Some (d', Inr ())"
          "filled cfg d2 (d'\<lparr>dpos := dpos d2\<rparr>)" "dpos d' + w \<le> length (wbuf d')" "deof d' \<longrightarrow> length (wbuf d') - dpos d' \<le> w"
          "(if length (wbuf d') - dpos d' \<le> w then length (wbuf d') else dpos d') = find_win hash cfg w ?xs (dpos d + did)"
          unfolding x(2) by blast
        have "filled cfg ?d1 (d'\<lparr>dpos := dpos d2\<rparr>)" by (rule filled_trans [OF f(2) d'(2)])
        then have "filled cfg d (d'\<lparr>dpos := dpos d\<rparr>)" by (simp add: filled_def drv_base_def)
        moreover have "winLoop cfg w scan d ?s = Some (d', Inr ())" using unf le f(1) d'(1) by simp
        ultimately show ?thesis using d'(3-5) skip by (intro exI [of _ d']) (simp only: simp_thms)
      qed
      from base1 show ?thesis
      proof (cases rule: fill_cases)
        case (1 d2)
        then have "?n = nat (maxSize cfg)" using neof by simp
        then have lim: "?n = ?lim" by simp
        have d2: "wbuf d2 = wbuf d" "dpos d2 = dpos d + did" "dsrc d2 = dsrc d" "\<not> deof d2" using 1(4) neof by simp_all
        show ?thesis
        proof (rule recurse [OF 1(1,2)])
          show "2 * length (rdata (dsrc d2)) + length (wbuf d2) - dpos d2 < 2 * length (rdata (dsrc d)) + ?n - dpos d"
            unfolding d2 using \<open>did \<noteq> 0\<close> p1 by linarith
          show "length (wbuf d2) - dpos d2 \<le> w \<longrightarrow> length (wbuf d2) = ?lim" unfolding d2 using lim by blast
          show "\<not> deof d2 \<or> length (wbuf d2) - dpos d2 \<le> w" using d2(4) by blast
        qed
      next
        case (2 d2)
        then have lim: "?n = ?lim" using max by simp
        have d2: "wbuf d2 = wbuf d" "dpos d2 = dpos d + did" "dsrc d2 = dsrc d" using 2(2,6,7) by (simp_all add: filled_def)
        show ?thesis
        proof (rule recurse [OF 2(1,2)])
          show "2 * length (rdata (dsrc d2)) + length (wbuf d2) - dpos d2 < 2 * length (rdata (dsrc d)) + ?n - dpos d"
            unfolding d2 using \<open>did \<noteq> 0\<close> p1 by linarith
          show "length (wbuf d2) - dpos d2 \<le> w \<longrightarrow> length (wbuf d2) = ?lim" unfolding d2 using lim by blast
          show "\<not> deof d2 \<or> length (wbuf d2) - dpos d2 \<le> w" unfolding d2 using le by blast
        qed
      next
        case (3 d2)
        have x: "wbuf d2 @ rdata (dsrc d2) = ?xs" "dpos d2 = dpos d + did" using 3(2) by (simp_all add: filled_def)
        have "length (wbuf d2) + length (rdata (dsrc d2)) = ?n + length (rdata (dsrc d))"
          using arg_cong [OF x(1), of length] by simp
        then have "2 * length (rdata (dsrc d2)) + length (wbuf d2) - dpos d2 < 2 * length (rdata (dsrc d)) + ?n - dpos d"
          using 3(5) x(2) p1 by simp
        moreover have "w < length (wbuf d2) - dpos d2" using 3(4) x(2) eq by simp
        ultimately show ?thesis using 3(6) by (intro recurse [OF 3(1,2)]) linarith+
      qed
    qed
  qed
qed

lemma window_next_ok:
  assumes cfg: "win_cfg_ok cfg w" and inv: "win_inv cfg d"
  shows "drv_rest d = [] \<longrightarrow> (\<exists>d'. window_next cfg w hash scan d = Some (d', AtEOF) \<and> win_inv cfg d' \<and> drv_rest d' = [])"
    and "drv_rest d \<noteq> [] \<longrightarrow> (\<exists>d'. window_next cfg w hash scan d
      = Some (d', Piece (take (window_cut hash cfg w (drv_rest d)) (drv_rest d)))
      \<and> win_inv cfg d' \<and> drv_rest d' = drop (window_cut hash cfg w (drv_rest d)) (drv_rest d))"
proof -
  let ?c = "compact d"
  have dinv: "drv_inv cfg d" using inv by (simp add: win_inv_def)
  note c = compact_ok [OF dinv]
  have ceof: "deof ?c \<longrightarrow> wbuf ?c = []" using inv by (auto simp: win_inv_def compact_def)
  have min: "0 < minSize cfg" "minSize cfg + int w + 1 \<le> maxSize cfg" using cfg by (simp_all add: win_cfg_ok_def)
  have "(drv_rest d = [] \<longrightarrow> (\<exists>d'. window_next cfg w hash scan d = Some (d', AtEOF) \<and> win_inv cfg d' \<and> drv_rest d' = []))
    \<and> (drv_rest d \<noteq> [] \<longrightarrow> (\<exists>d'. window_next cfg w hash scan d = Some (d', Piece (take (window_cut hash cfg w (drv_rest d)) (drv_rest d)))
      \<and> win_inv cfg d' \<and> drv_rest d' = drop (window_cut hash cfg w (drv_rest d)) (drv_rest d)))"
  proof (cases "ddone ?c")
    case True
    then have e: "wbuf ?c = []" "deof ?c" "rdata (dsrc ?c) = []" using c(1,2) by (auto simp: drv_inv_def drv_base_def)
    have "window_next cfg w hash scan d = Some (?c, AtEOF)" using True at_end_ok [OF c(1) e(1,2)] by (simp add: window_next_def)
    then show ?thesis using c e by (auto simp: win_inv_def)
  next
    case False
    have base: "drv_base cfg ?c" using c(1) by (simp add: drv_inv_def)
    let ?need = "minSize cfg + int w + 1"
    obtain d1 where d1: "fillTo cfg ?need ?c = Some (d1, Inr ())" "filled cfg ?c d1" "?need \<le> int (length (wbuf d1)) \<or> deof d1"
      "deof d1 \<longrightarrow> deof ?c \<or> int (length (wbuf d1)) < ?need"
      using fillTo_ok [OF base min(2)] by auto
    have f1: "drv_inv cfg d1" "pending d1 = 0" "\<not> ddone d1" "drv_rest d1 = drv_rest d"
      using filled_inv [OF d1(2) c(1,2) False] c(3) by auto
    have r1: "drv_rest d = wbuf d1 @ rdata (dsrc d1)" using f1(2,4) by (simp add: drv_rest_def)
    show ?thesis
    proof (cases "deof d1")
      case True
      have rd: "drv_rest d = wbuf d1" using r1 True f1(1) by (simp add: drv_inv_def drv_base_def)
      have "deof ?c \<longrightarrow> drv_rest d = []" using ceof base c(5) by (simp add: drv_base_def)
      then have short: "int (length (wbuf d1)) < ?need" using d1(4) True rd min by auto
      let ?d2 = "d1\<lparr>ddone := True\<rparr>"
      have nx: "window_next cfg w hash scan d = Some (if wbuf d1 = [] then at_end ?d2 else emit_step (length (wbuf d1)) ?d2)"
        using False d1(1) True by (simp add: window_next_def win_need [OF cfg] Let_def)
      show ?thesis
      proof (cases "wbuf d1 = []")
        case e: True
        then have i2: "drv_inv cfg ?d2" using f1 True by (simp add: drv_inv_def drv_base_def)
        moreover from at_end_ok [OF i2] have "at_end ?d2 = (?d2, AtEOF)" using e True by simp
        moreover have "drv_rest ?d2 = []" using rd e f1(4) by (simp add: drv_rest_def)
        ultimately show ?thesis using nx e rd f1(2) by (auto simp: win_inv_def)
      next
        case ne: False
        have "window_cut hash cfg w (drv_rest d) = length (wbuf d1)" using rd short by (simp add: window_cut_def)
        moreover have "\<exists>d'. emit_step (length (wbuf d1)) ?d2 = (d', Piece (wbuf d1)) \<and> win_inv cfg d' \<and> drv_rest d' = []"
          using f1 True by (auto simp: emit_step_def emit_def win_inv_def drv_inv_def drv_base_def drv_rest_def)
        ultimately show ?thesis using nx ne rd by auto
      qed
    next
      case ne: False
      with d1(3) have len: "?need \<le> int (length (wbuf d1))" by simp
      let ?s = "d1\<lparr>dpos := nat (minSize cfg)\<rparr>"
      have b: "drv_base cfg ?s" "dpos ?s + w \<le> length (wbuf ?s)" "w < length (wbuf ?s) - dpos ?s"
        using f1(1) len min by (auto simp: drv_inv_def drv_base_def)
      from winLoop_ok [OF b(1,2)] b(3) ne obtain d2 where d2: "winLoop cfg w scan ?s (hash (slice (nat (minSize cfg)) w (wbuf d1))) = Some (d2, Inr ())"
        "filled cfg ?s (d2\<lparr>dpos := nat (minSize cfg)\<rparr>)" "dpos d2 + w \<le> length (wbuf d2)" "deof d2 \<longrightarrow> length (wbuf d2) - dpos d2 \<le> w"
        "(if length (wbuf d2) - dpos d2 \<le> w then length (wbuf d2) else dpos d2) = find_win hash cfg w (drv_rest d) (nat (minSize cfg))"
        using r1 by auto
      let ?k = "if length (wbuf d2) - dpos d2 \<le> w then length (wbuf d2) else dpos d2"
      let ?d3 = "if length (wbuf d2) - dpos d2 \<le> w then d2\<lparr>dpos := length (wbuf d2)\<rparr> else d2"
      have "drv_inv cfg ?s" "pending ?s = 0" "\<not> ddone ?s" using f1 by (simp_all add: drv_inv_def drv_base_def)
      from filled_inv [OF d2(2) this] have f2: "drv_inv cfg ?d3" "pending ?d3 = 0" "\<not> ddone ?d3" "drv_rest ?d3 = drv_rest d"
        using f1(4) by (auto simp: drv_inv_def drv_base_def drv_rest_def)
      have k: "?k = window_cut hash cfg w (drv_rest d)" using d2(5) len by (simp add: window_cut_def r1)
      have "window_next cfg w hash scan d = Some (emit_step (dpos ?d3) ?d3)"
        using False d1(1) ne d2(1) min len by (simp add: window_next_def win_need [OF cfg] Let_def)
      moreover have "dpos ?d3 = ?k" by simp
      moreover have "?k \<le> length (wbuf ?d3)" "deof ?d3 \<longrightarrow> ?k = length (wbuf ?d3)" using d2(3,4) by auto
      note emit_win [OF f2(1,2) this]
      moreover have "drv_rest d \<noteq> []" using len min r1 by auto
      ultimately show ?thesis using f2(3,4) k by auto
    qed
  qed
  then show "drv_rest d = [] \<longrightarrow> (\<exists>d'. window_next cfg w hash scan d = Some (d', AtEOF) \<and> win_inv cfg d' \<and> drv_rest d' = [])"
    and "drv_rest d \<noteq> [] \<longrightarrow> (\<exists>d'. window_next cfg w hash scan d
      = Some (d', Piece (take (window_cut hash cfg w (drv_rest d)) (drv_rest d)))
      \<and> win_inv cfg d' \<and> drv_rest d' = drop (window_cut hash cfg w (drv_rest d)) (drv_rest d))" by blast+
qed

end


section \<open>The cyclic polynomial\<close>

lemma rotl_rotl: "word_rotl m (word_rotl n x) = word_rotl (m + n) x"
  by (simp add: word_rotl_rev word_rotr_word_rotr_eq)

lemma rotl_0: "word_rotl 0 x = x"
  by (rule bit_word_eqI) (simp add: bit_word_rotl_iff)

lemma rotl_mod: "word_rotl (n mod LENGTH('a)) x = word_rotl n x" for x :: "'a :: len word"
  by (simp add: word_rotl_eq_word_rotr)

lemma rotl_xor: "word_rotl n (x XOR y) = word_rotl n x XOR word_rotl n y"
  by (simp add: word_rot_logs)

text \<open>A \<open>[256]uint64\<close> or \<open>[256]uint32\<close> array that is indexed by a byte is a function from bytes.
  The hash of a window from scratch, with rotations modulo the word size, for a table of
  either width.\<close>

definition bz_hash :: "(byte \<Rightarrow> 'a :: len word) \<Rightarrow> bytes \<Rightarrow> 'a word" where
  "bz_hash table win =
     (if win = [] then 0
      else foldl (\<lambda>s i. s XOR word_rotl (i mod LENGTH('a)) (table (win ! (length win - 1 - i)))) 0 (rev [1..<length win])
        XOR table (win ! (length win - 1)))"

definition horner :: "(byte \<Rightarrow> 'a :: len word) \<Rightarrow> 'a word \<Rightarrow> bytes \<Rightarrow> 'a word" where
  "horner table = foldl (\<lambda>s b. word_rotl 1 s XOR table b)"

lemma horner_acc: "horner table s win = word_rotl (length win) s XOR horner table 0 win"
proof (induction win arbitrary: s rule: rev_induct)
  case Nil
  then show ?case by (simp add: horner_def rotl_0)
next
  case (snoc b win)
  have "horner table s (win @ [b]) = word_rotl 1 (horner table s win) XOR table b" for s
    by (simp add: horner_def)
  then show ?case using snoc [of s] by (simp add: rotl_xor rotl_rotl xor.assoc)
qed

lemma xor_fold_acc: "foldl (\<lambda>s i. s XOR f i) a is = a XOR foldl (\<lambda>s i. s XOR f i) (0 :: 'a :: len word) is"
proof (induction "is" arbitrary: a)
  case (Cons i "is")
  show ?case using Cons [of "a XOR f i"] Cons [of "f i"] by (simp add: xor.assoc)
qed simp

lemma bz_hash_Cons:
  assumes "win \<noteq> []"
  shows "bz_hash table (b # win) = word_rotl (length win) (table b) XOR bz_hash table win"
proof -
  let ?f = "\<lambda>s i. s XOR word_rotl (i mod LENGTH('a)) (table (win ! (length win - 1 - i)))"
  let ?g = "\<lambda>s i. s XOR word_rotl (i mod LENGTH('a)) (table ((b # win) ! (length (b # win) - 1 - i)))"
  have up: "[1..<length (b # win)] = [1..<length win] @ [length win]" using assms by (cases win) auto
  have "?g = (\<lambda>s i. s XOR word_rotl (i mod LENGTH('a)) (table ((b # win) ! (length win - i))))" by simp
  have eq: "foldl ?g a is = foldl ?f a is" if "\<forall>i\<in>set is. i < length win" for a "is"
    using that
  proof (induction "is" arbitrary: a)
    case (Cons i "is")
    then have "i < length win" by simp
    then have "length win - i = Suc (length win - 1 - i)" by linarith
    then have "(b # win) ! (length (b # win) - 1 - i) = win ! (length win - 1 - i)" by simp
    with Cons show ?case by simp
  qed simp
  have "foldl ?g 0 (rev [1..<length (b # win)]) = foldl ?g (word_rotl (length win) (table b)) (rev [1..<length win])"
    unfolding up by (simp add: rotl_mod)
  also have "\<dots> = foldl ?f (word_rotl (length win) (table b)) (rev [1..<length win])" by (rule eq) auto
  also have "\<dots> = word_rotl (length win) (table b) XOR foldl ?f 0 (rev [1..<length win])" by (rule xor_fold_acc)
  finally show ?thesis using assms by (simp add: bz_hash_def xor.assoc nth_Cons')
qed

lemma bz_hash_horner: "bz_hash table win = horner table 0 win"
proof (induction win)
  case Nil
  then show ?case by (simp add: bz_hash_def horner_def)
next
  case (Cons b win)
  show ?case
  proof (cases "win = []")
    case True
    then show ?thesis by (simp add: bz_hash_def horner_def)
  next
    case False
    have "horner table 0 (b # win) = horner table (table b) win" by (simp add: horner_def)
    then show ?thesis using Cons bz_hash_Cons [OF False, of table b] horner_acc [of table "table b" win] by simp
  qed
qed

text \<open>One step of the rolling hash: the byte \<open>a\<close> leaves the window and \<open>b\<close> enters it.\<close>

lemma bz_hash_roll:
  "bz_hash table (win @ [b]) = (word_rotl 1 (bz_hash table (a # win)) XOR word_rotl (Suc (length win)) (table a)) XOR table b"
proof -
  have a: "bz_hash table (a # win) = word_rotl (length win) (table a) XOR horner table 0 win"
    using horner_acc [of table "table a" win] by (simp add: bz_hash_horner horner_def)
  have "bz_hash table (win @ [b]) = word_rotl 1 (horner table 0 win) XOR table b"
    by (simp add: bz_hash_horner horner_def)
  moreover have "word_rotl 1 (bz_hash table (a # win)) = word_rotl (Suc (length win)) (table a) XOR word_rotl 1 (horner table 0 win)"
    unfolding a by (simp add: rotl_xor rotl_rotl)
  ultimately show ?thesis by (simp add: xor.assoc xor.commute xor.left_commute)
qed


section \<open>Buzhash64\<close>

record buzhash64 =
  b64_cfg :: config
  b64_table :: "byte \<Rightarrow> uint64"
  b64_tableRot :: "byte \<Rightarrow> uint64"
  b64_window :: nat
  b64_d :: driver

definition newBuzhash64 :: "(bytes \<Rightarrow> nat \<Rightarrow> byte) \<Rightarrow> params \<Rightarrow> bytes \<Rightarrow> reader \<Rightarrow> chunk_error + buzhash64" where
  "newBuzhash64 aes_ctr p key r =
     bind_res (newConfig p False) (\<lambda>cfg.
       if WindowSize p \<le> 0 then Inl WindowNotPositive
       else bind_res (buzhash64Table aes_ctr key) (\<lambda>entries. let table = (\<lambda>b. entries ! unat b) in
         bind_res (initWindow cfg (WindowSize p) r) (\<lambda>d.
           Inr \<lparr>b64_cfg = cfg, b64_table = table, b64_tableRot = (\<lambda>b. word_rotl (nat (WindowSize p) mod 64) (table b)),
             b64_window = nat (WindowSize p), b64_d = d\<rparr>)))"

definition buzhash64_Reset :: "buzhash64 \<Rightarrow> reader \<Rightarrow> buzhash64" where
  "buzhash64_Reset c r = c\<lparr>b64_d := driver_reset (b64_d c) r\<rparr>"

definition hashWindow64 :: "(byte \<Rightarrow> uint64) \<Rightarrow> bytes \<Rightarrow> uint64" where
  "hashWindow64 table window = bz_hash table window"

fun bz64_scan :: "(byte \<Rightarrow> uint64) \<Rightarrow> (byte \<Rightarrow> uint64) \<Rightarrow> nat \<Rightarrow> bytes \<Rightarrow> nat \<Rightarrow> uint64 \<Rightarrow> uint64 \<Rightarrow> nat \<times> uint64" where
  "bz64_scan t tr w p 0 s m = (0, s)"
| "bz64_scan t tr w p (Suc n) s m =
     (if s AND m = 0 then (0, s)
      else case bz64_scan t tr w (drop 1 p) n ((word_rotl 1 s XOR tr (p ! 0)) XOR t (p ! w)) m of
        (did, s') \<Rightarrow> (Suc did, s'))"

definition buzhash64_step :: "buzhash64 \<Rightarrow> (buzhash64 \<times> step) option" where
  "buzhash64_step c = map_option (map_prod (\<lambda>d. c\<lparr>b64_d := d\<rparr>) id)
     (window_next (b64_cfg c) (b64_window c) (hashWindow64 (b64_table c))
       (bz64_scan (b64_table c) (b64_tableRot c) (b64_window c)) (b64_d c))"

definition buzhash64_Next :: "buzhash64 \<Rightarrow> (buzhash64 \<times> next_result) option" where
  "buzhash64_Next = chunk_next buzhash64_step"

section \<open>Buzhash, 32 bits\<close>

record buzhash =
  bz_cfg :: config
  bz_table :: "byte \<Rightarrow> uint32"
  bz_window :: nat
  bz_d :: driver

definition newBuzhash :: "(byte \<Rightarrow> uint32) \<Rightarrow> params \<Rightarrow> uint32 \<Rightarrow> reader \<Rightarrow> chunk_error + buzhash" where
  "newBuzhash buzhashTableBase p seed r =
     (if NCLevel p \<noteq> 0 then Inl BuzhashHasNoNC
      else bind_res (newConfig p False) (\<lambda>cfg.
        if WindowSize p \<le> 0 then Inl WindowNotPositive
        else bind_res (initWindow cfg (WindowSize p) r) (\<lambda>d.
          Inr \<lparr>bz_cfg = cfg, bz_table = (\<lambda>b. buzhashTableBase b XOR seed), bz_window = nat (WindowSize p), bz_d = d\<rparr>)))"

definition buzhash_Reset :: "buzhash \<Rightarrow> reader \<Rightarrow> buzhash" where
  "buzhash_Reset c r = c\<lparr>bz_d := driver_reset (bz_d c) r\<rparr>"

definition hashWindow32 :: "(byte \<Rightarrow> uint32) \<Rightarrow> bytes \<Rightarrow> uint64" where
  "hashWindow32 table window = ucast (bz_hash table window)"

fun bz32_loop :: "(byte \<Rightarrow> uint32) \<Rightarrow> nat \<Rightarrow> bytes \<Rightarrow> nat \<Rightarrow> uint32 \<Rightarrow> uint32 \<Rightarrow> nat \<times> uint32" where
  "bz32_loop t w p 0 s m = (0, s)"
| "bz32_loop t w p (Suc n) s m =
     (if s AND m = 0 then (0, s)
      else case bz32_loop t w (drop 1 p) n
          ((word_rotl 1 s XOR word_rotl (w mod 32) (t (p ! 0))) XOR t (p ! w)) m of
        (did, s') \<Rightarrow> (Suc did, s'))"

definition bz32_scan :: "(byte \<Rightarrow> uint32) \<Rightarrow> nat \<Rightarrow> window_scan" where
  "bz32_scan t w p n s m = (case bz32_loop t w p n (ucast s) (ucast m) of (did, s') \<Rightarrow> (did, ucast s'))"

definition buzhash_step :: "buzhash \<Rightarrow> (buzhash \<times> step) option" where
  "buzhash_step c = map_option (map_prod (\<lambda>d. c\<lparr>bz_d := d\<rparr>) id)
     (window_next (bz_cfg c) (bz_window c) (hashWindow32 (bz_table c)) (bz32_scan (bz_table c) (bz_window c)) (bz_d c))"

definition buzhash_Next :: "buzhash \<Rightarrow> (buzhash \<times> next_result) option" where
  "buzhash_Next = chunk_next buzhash_step"


section \<open>The scanners roll the window hash\<close>

lemma roll_window:
  assumes "w < length p"
  shows "(word_rotl 1 (bz_hash t (take w p)) XOR word_rotl w (t (p ! 0))) XOR t (p ! w) = bz_hash t (take w (drop 1 p))"
proof (cases w)
  case 0
  then show ?thesis using assms by (cases p) (simp_all add: bz_hash_def rotl_0)
next
  case (Suc k)
  obtain a q where p: "p = a # q" using assms by (cases p) auto
  have "take w (drop 1 p) = take k q @ [p ! w]" using assms by (simp add: p Suc take_Suc_conv_app_nth)
  moreover have "take w p = a # take k q" by (simp add: p Suc)
  moreover have "length (take k q) = k" using assms by (simp add: p Suc)
  ultimately show ?thesis using bz_hash_roll [of t "take k q" "p ! w" a] by (simp add: p Suc)
qed

text \<open>The law of \<open>window_scanner\<close>, from one that steps a hash \<open>h\<close> and stops when it matches.\<close>

definition rolled :: "(bytes \<Rightarrow> 'a :: len word) \<Rightarrow> nat \<Rightarrow> bytes \<Rightarrow> nat \<Rightarrow> 'a word \<Rightarrow> nat \<times> 'a word \<Rightarrow> bool" where
  "rolled h w p n m r \<longleftrightarrow> fst r \<le> n \<and> snd r = h (slice (fst r) w p) \<and> (\<forall>j<fst r. h (slice j w p) AND m \<noteq> 0)
     \<and> (fst r < n \<longrightarrow> snd r AND m = 0)"

lemma rolled_Suc:
  assumes "rolled h w (drop 1 p) n m (did, s)" "h (take w p) AND m \<noteq> 0"
  shows "rolled h w p (Suc n) m (Suc did, s)"
proof -
  have sl: "slice (Suc j) w p = slice j w (drop 1 p)" for j by (simp add: slice_def)
  have "h (slice j w p) AND m \<noteq> 0" if "j < Suc did" for j
    using that assms sl by (cases j) (auto simp: rolled_def slice_def)
  then show ?thesis using assms(1) sl [of did] by (auto simp: rolled_def simp del: slice_def)
qed

lemma bz64_rolled:
  "n + w \<le> length p \<Longrightarrow> rolled (bz_hash t) w p n m (bz64_scan t (\<lambda>b. word_rotl (w mod 64) (t b)) w p n (bz_hash t (take w p)) m)"
proof (induction n arbitrary: p)
  case 0
  then show ?case by (simp add: rolled_def slice_def)
next
  case (Suc n)
  let ?s = "bz_hash t (take w p)"
  show ?case
  proof (cases "?s AND m = 0")
    case True
    then show ?thesis by (simp add: rolled_def slice_def)
  next
    case False
    have "word_rotl (w mod 64) x = word_rotl w x" for x :: uint64 using rotl_mod [of w x] by simp
    then have "(word_rotl 1 ?s XOR word_rotl (w mod 64) (t (p ! 0))) XOR t (p ! w) = bz_hash t (take w (drop 1 p))"
      using roll_window [of w p t] Suc.prems by simp
    moreover have "n + w \<le> length (drop 1 p)" using Suc.prems by simp
    note Suc.IH [OF this]
    ultimately show ?thesis using False by (auto simp: rolled_Suc split: prod.split)
  qed
qed

lemma bz32_rolled:
  "n + w \<le> length p \<Longrightarrow> rolled (bz_hash t) w p n m (bz32_loop t w p n (bz_hash t (take w p)) m)"
proof (induction n arbitrary: p)
  case 0
  then show ?case by (simp add: rolled_def slice_def)
next
  case (Suc n)
  let ?s = "bz_hash t (take w p)"
  show ?case
  proof (cases "?s AND m = 0")
    case True
    then show ?thesis by (simp add: rolled_def slice_def)
  next
    case False
    have "word_rotl (w mod 32) x = word_rotl w x" for x :: uint32 using rotl_mod [of w x] by simp
    then have "(word_rotl 1 ?s XOR word_rotl (w mod 32) (t (p ! 0))) XOR t (p ! w) = bz_hash t (take w (drop 1 p))"
      using roll_window [of w p t] Suc.prems by simp
    moreover have "n + w \<le> length (drop 1 p)" using Suc.prems by simp
    note Suc.IH [OF this]
    ultimately show ?thesis using False by (auto simp: rolled_Suc split: prod.split)
  qed
qed

interpretation bz64: window_scanner "bz64_scan t (\<lambda>b. word_rotl (w mod 64) (t b)) w" "hashWindow64 t" w for t w
proof unfold_locales
  fix n p m did s'
  assume "n + w \<le> length p" "bz64_scan t (\<lambda>b. word_rotl (w mod 64) (t b)) w p n (hashWindow64 t (take w p)) m = (did, s')"
  then show "did \<le> n \<and> s' = hashWindow64 t (slice did w p) \<and> (\<forall>j<did. hashWindow64 t (slice j w p) AND m \<noteq> 0) \<and> (did < n \<longrightarrow> s' AND m = 0)"
    using bz64_rolled [of n w p t m] by (auto simp: rolled_def hashWindow64_def)
qed

lemma ucast_and_zero: "ucast (x :: uint32) AND (m :: uint64) = 0 \<longleftrightarrow> x AND ucast m = 0"
proof -
  have "ucast x AND m = ucast (x AND ucast m)" by (rule bit_word_eqI) (auto simp: bit_simps dest: bit_imp_le_length)
  moreover have "(ucast y :: uint64) = 0 \<longleftrightarrow> y = 0" for y :: uint32
  proof -
    have "(ucast (ucast y :: uint64) :: uint32) = y" by (rule bit_word_eqI) (auto simp: bit_simps)
    then show ?thesis by (metis unsigned_0)
  qed
  ultimately show ?thesis by simp
qed

interpretation bz32: window_scanner "bz32_scan t w" "hashWindow32 t" w for t w
proof unfold_locales
  fix n p m did s'
  assume len: "n + w \<le> length p" and sc: "bz32_scan t w p n (hashWindow32 t (take w p)) m = (did, s')"
  have "ucast (ucast x :: uint64) = x" for x :: uint32 by (rule bit_word_eqI) (auto simp: bit_simps)
  then obtain s where s: "bz32_loop t w p n (bz_hash t (take w p)) (ucast m) = (did, s)" "s' = ucast s"
    using sc by (auto simp: bz32_scan_def hashWindow32_def split: prod.splits)
  with bz32_rolled [OF len, of t "ucast m"]
  show "did \<le> n \<and> s' = hashWindow32 t (slice did w p) \<and> (\<forall>j<did. hashWindow32 t (slice j w p) AND m \<noteq> 0) \<and> (did < n \<longrightarrow> s' AND m = 0)"
    by (auto simp: rolled_def hashWindow32_def ucast_and_zero)
qed


section \<open>The chunkers as sources of pieces\<close>

text \<open>A source that is one component of a larger state.\<close>

context piece_source
begin

lemma lifted:
  assumes "\<And>c. P c \<Longrightarrow> st c = map_option (map_prod (put c) id) (nxt (get c))" "\<And>c s. get (put c s) = s"
    "\<And>c s. P c \<Longrightarrow> P (put c s)"
  shows "piece_source st (\<lambda>c. P c \<and> inv (get c)) (\<lambda>c. rest (get c)) cutf"
proof unfold_locales
  fix c
  assume c: "P c \<and> inv (get c)"
  show "\<exists>c'. st c = Some (c', AtEOF) \<and> (P c' \<and> inv (get c')) \<and> rest (get c') = []" if "rest (get c) = []"
    using next_end [of "get c"] c that assms by auto
  show "\<exists>c'. st c = Some (c', Piece (take (cutf (rest (get c))) (rest (get c)))) \<and> (P c' \<and> inv (get c'))
      \<and> rest (get c') = drop (cutf (rest (get c))) (rest (get c))" if "rest (get c) \<noteq> []"
    using next_piece [of "get c"] c that assms by auto
  show "0 < cutf (rest (get c))" if "rest (get c) \<noteq> []" using c cut_pos that by blast
qed

end

context window_scanner
begin

lemma window_source:
  "piece_source (window_next cfg w hash scan) (\<lambda>d. win_cfg_ok cfg w \<and> win_inv cfg d) drv_rest (window_cut hash cfg w)"
  using window_next_ok [of cfg] window_cut_bounds(1) [of cfg w] by unfold_locales blast+

end

definition buzhash64_inv :: "config \<Rightarrow> (byte \<Rightarrow> uint64) \<Rightarrow> nat \<Rightarrow> buzhash64 \<Rightarrow> bool" where
  "buzhash64_inv cfg t w c \<longleftrightarrow> (b64_cfg c = cfg \<and> b64_table c = t \<and> b64_tableRot c = (\<lambda>b. word_rotl (w mod 64) (t b)) \<and> b64_window c = w)
     \<and> win_cfg_ok cfg w \<and> win_inv cfg (b64_d c)"

interpretation buzhash64: piece_source buzhash64_step "buzhash64_inv cfg t w" "\<lambda>c. drv_rest (b64_d c)"
  "window_cut (bz_hash t) cfg w" for cfg t w
  using piece_source.lifted [OF bz64.window_source [of cfg w t], of
      "\<lambda>c. b64_cfg c = cfg \<and> b64_table c = t \<and> b64_tableRot c = (\<lambda>b. word_rotl (w mod 64) (t b)) \<and> b64_window c = w"
      buzhash64_step "\<lambda>c d. c\<lparr>b64_d := d\<rparr>" b64_d]
  by (auto simp: buzhash64_step_def buzhash64_inv_def [abs_def] hashWindow64_def [abs_def])

definition buzhash_inv :: "config \<Rightarrow> (byte \<Rightarrow> uint32) \<Rightarrow> nat \<Rightarrow> buzhash \<Rightarrow> bool" where
  "buzhash_inv cfg t w c \<longleftrightarrow> (bz_cfg c = cfg \<and> bz_table c = t \<and> bz_window c = w) \<and> win_cfg_ok cfg w \<and> win_inv cfg (bz_d c)"

interpretation buzhash: piece_source buzhash_step "buzhash_inv cfg t w" "\<lambda>c. drv_rest (bz_d c)"
  "window_cut (hashWindow32 t) cfg w" for cfg t w
  using piece_source.lifted [OF bz32.window_source [of cfg w t], of
      "\<lambda>c. bz_cfg c = cfg \<and> bz_table c = t \<and> bz_window c = w" buzhash_step "\<lambda>c d. c\<lparr>bz_d := d\<rparr>" bz_d]
  by (auto simp: buzhash_step_def buzhash_inv_def [abs_def])

lemma window_sizes:
  assumes cfg: "win_cfg_ok cfg w" and cs: "cs = map classify (ref_pieces (window_cut hash cfg w) xs)"
  shows "\<forall>ch\<in>set cs. 0 < Size ch \<and> int (Size ch) \<le> maxSize cfg" "\<forall>ch\<in>set (butlast cs). minSize cfg \<le> int (Size ch)"
proof -
  let ?cut = "window_cut hash cfg w"
  have "0 < length b \<and> int (length b) \<le> maxSize cfg" if b: "b \<in> set (ref_pieces ?cut xs)" for b
  proof -
    obtain ys where "ys \<noteq> []" "b = take (?cut ys) ys" using ref_pieces_set [OF b] by blast
    then show ?thesis using window_cut_bounds [OF cfg \<open>ys \<noteq> []\<close>, of hash] by simp
  qed
  then show "\<forall>ch\<in>set cs. 0 < Size ch \<and> int (Size ch) \<le> maxSize cfg" unfolding cs by auto
  have "minSize cfg \<le> int (length (take (?cut ys) ys))" if "?cut ys < length ys" for ys
  proof -
    have "ys \<noteq> []" using that by auto
    then show ?thesis using that window_cut_bounds(4) [OF cfg, of ys hash] by simp
  qed
  from ref_pieces_butlast [of ?cut "\<lambda>b. minSize cfg \<le> int (length b)" xs, OF this]
  show "\<forall>ch\<in>set (butlast cs). minSize cfg \<le> int (Size ch)" unfolding cs by (simp add: map_butlast [symmetric])
qed

lemma win_cfg:
  assumes "newConfig p high = Inr cfg" "ChunkMinExp p \<le> 62" "0 < WindowSize p" "WindowSize p \<le> 2 ^ 62"
    "initWindow cfg (WindowSize p) r = Inr d" "\<not> rfails r"
  shows "win_cfg_ok cfg (nat (WindowSize p))" "win_inv cfg d" "drv_rest d = rdata r"
proof -
  note c = newConfig_ok [OF assms(1,2)]
  then have b: "0 < minSize cfg" "minSize cfg < maxSize cfg" "maxSize cfg \<le> 2 ^ 31" by (simp_all add: cfg_ok_def)
  then have "wrap64 (WindowSize p + minSize cfg + 1) = WindowSize p + minSize cfg + 1"
    using assms(3,4) by (auto simp: wrap64_def intro!: signed_take_bit_int_eq_self)
  then have i: "WindowSize p + minSize cfg + 1 \<le> maxSize cfg" "d = driver_init r"
    using assms(5) by (auto simp: initWindow_def split: if_splits)
  then show "win_cfg_ok cfg (nat (WindowSize p))" using b assms(3) by (simp add: win_cfg_ok_def)
  show "win_inv cfg d" "drv_rest d = rdata r"
    using i(2) driver_init_inv [OF assms(6)] by (simp_all add: win_inv_def) (simp add: driver_init_def)
qed

lemma newBuzhash64_inv:
  assumes "newBuzhash64 aes_ctr p key r = Inr c" "ChunkMinExp p \<le> 62" "WindowSize p \<le> 2 ^ 62" "\<not> rfails r"
  shows "buzhash64_inv (b64_cfg c) (b64_table c) (b64_window c) c" "drv_rest (b64_d c) = rdata r"
  using assms win_cfg [of p False "b64_cfg c" r "b64_d c"]
  by (auto simp: newBuzhash64_def bind_res_Inr buzhash64_inv_def Let_def split: if_splits)

lemma newBuzhash_inv:
  assumes "newBuzhash base p seed r = Inr c" "ChunkMinExp p \<le> 62" "WindowSize p \<le> 2 ^ 62" "\<not> rfails r"
  shows "buzhash_inv (bz_cfg c) (bz_table c) (bz_window c) c" "drv_rest (bz_d c) = rdata r"
  using assms win_cfg [of p False "bz_cfg c" r "bz_d c"]
  by (auto simp: newBuzhash_def bind_res_Inr buzhash_inv_def split: if_splits)

text \<open>C13. Buzhash64 cuts a stream completely and reproducibly: calling \<open>Next\<close> until it reports the end
  returns, the chunks put together are the stream, and they are the ones a reference cut
  function selects that hashes every window from scratch instead of rolling the hash. Every chunk
  is at most the maximum size, and every one but the last is at least the minimum size.\<close>

theorem buzhash64_chunks:
  assumes new: "newBuzhash64 aes_ctr p key r = Inr c" "ChunkMinExp p \<le> 62" "WindowSize p \<le> 2 ^ 62" "\<not> rfails r"
  shows "\<exists>cs. allChunks buzhash64_Next c = Some (Inr cs) \<and> concat (map chunk_bytes cs) = rdata r
    \<and> cs = map classify (ref_pieces (window_cut (hashWindow64 (b64_table c)) (b64_cfg c) (b64_window c)) (rdata r))
    \<and> (\<forall>ch\<in>set cs. 0 < Size ch \<and> int (Size ch) \<le> maxSize (b64_cfg c))
    \<and> (\<forall>ch\<in>set (butlast cs). minSize (b64_cfg c) \<le> int (Size ch))"
proof -
  note inv = newBuzhash64_inv [OF new]
  let ?bs = "ref_pieces (window_cut (hashWindow64 (b64_table c)) (b64_cfg c) (b64_window c)) (rdata r)"
  have "hashWindow64 t = bz_hash t" for t by (simp add: hashWindow64_def fun_eq_iff)
  then have "allChunks buzhash64_Next c = Some (Inr (map classify ?bs))" "concat ?bs = rdata r"
    using buzhash64.all_chunks [OF inv(1)] inv(2) by (simp_all add: buzhash64_Next_def)
  moreover have "map chunk_bytes (map classify ?bs) = ?bs" by (simp add: comp_def map_idI)
  moreover have "win_cfg_ok (b64_cfg c) (b64_window c)" using inv(1) by (simp add: buzhash64_inv_def)
  note window_sizes [OF this, of "map classify ?bs" "hashWindow64 (b64_table c)" "rdata r"]
  ultimately show ?thesis by (intro exI [of _ "map classify ?bs"]) simp
qed

text \<open>C14. The 32-bit Buzhash of borg 1.x makes the same promise, also where the mask has more bits than
  the hash: the driver compares 64-bit values and the scanner 32-bit ones, and they agree.\<close>

theorem buzhash_chunks:
  assumes new: "newBuzhash base p seed r = Inr c" "ChunkMinExp p \<le> 62" "WindowSize p \<le> 2 ^ 62" "\<not> rfails r"
  shows "\<exists>cs. allChunks buzhash_Next c = Some (Inr cs) \<and> concat (map chunk_bytes cs) = rdata r
    \<and> cs = map classify (ref_pieces (window_cut (hashWindow32 (bz_table c)) (bz_cfg c) (bz_window c)) (rdata r))
    \<and> (\<forall>ch\<in>set cs. 0 < Size ch \<and> int (Size ch) \<le> maxSize (bz_cfg c))
    \<and> (\<forall>ch\<in>set (butlast cs). minSize (bz_cfg c) \<le> int (Size ch))"
proof -
  note inv = newBuzhash_inv [OF new]
  let ?bs = "ref_pieces (window_cut (hashWindow32 (bz_table c)) (bz_cfg c) (bz_window c)) (rdata r)"
  have "allChunks buzhash_Next c = Some (Inr (map classify ?bs))" "concat ?bs = rdata r"
    using buzhash.all_chunks [OF inv(1)] inv(2) by (simp_all add: buzhash_Next_def)
  moreover have "map chunk_bytes (map classify ?bs) = ?bs" by (simp add: comp_def map_idI)
  moreover have "win_cfg_ok (bz_cfg c) (bz_window c)" using inv(1) by (simp add: buzhash_inv_def)
  note window_sizes [OF this, of "map classify ?bs" "hashWindow32 (bz_table c)" "rdata r"]
  ultimately show ?thesis by (intro exI [of _ "map classify ?bs"]) simp
qed

text \<open>Small parameters for the two chunkers.\<close>

definition small_params :: params where
  "small_params = no_params\<lparr>ChunkMinExp := 1, ChunkMaxExp := 4, HashMaskBits := 2, WindowSize := 3\<rparr>"

lemma small_config: "\<exists>cfg. newConfig small_params high = Inr cfg \<and> minSize cfg = 2 \<and> maxSize cfg = 16"
  by (simp add: newConfig_def small_params_def no_params_def shl1_def wrap64_def signed_take_bit_int_eq_self Let_def)

lemma small_window: "newConfig small_params high = Inr cfg \<Longrightarrow> initWindow cfg (WindowSize small_params) r = Inr (driver_init r)"
  using small_config [of high] by (auto simp: initWindow_def small_params_def no_params_def wrap64_def signed_take_bit_int_eq_self)

lemma small_ok: "ChunkMinExp small_params \<le> 62" "WindowSize small_params \<le> 2 ^ 62" "\<not> WindowSize small_params \<le> 0" "NCLevel small_params = 0"
  by (simp_all add: small_params_def no_params_def)

theorem buzhash64_chunks_witness:
  "\<exists>c cs. newBuzhash64 (\<lambda>k i. word_of_nat i) small_params (replicate 32 7) \<lparr>rdata = [3, 1, 4, 1, 5, 9, 2, 6], rfails = False\<rparr> = Inr c
    \<and> allChunks buzhash64_Next c = Some (Inr cs) \<and> concat (map chunk_bytes cs) = [3, 1, 4, 1, 5, 9, 2, 6]"
proof -
  let ?r = "\<lparr>rdata = [3, 1, 4, 1, 5, 9, 2, 6], rfails = False\<rparr>"
  obtain t where t: "buzhash64Table (\<lambda>k i. word_of_nat i) (replicate 32 7) = Inr t"
    using buzhash64Table_ok [of "replicate 32 7"] by fastforce
  obtain cfg where "newConfig small_params False = Inr cfg" using small_config by blast
  with t small_window [OF this] obtain c where c: "newBuzhash64 (\<lambda>k i. word_of_nat i) small_params (replicate 32 7) ?r = Inr c"
    by (auto simp: newBuzhash64_def small_ok Let_def)
  from buzhash64_chunks [OF c small_ok(1,2)] c show ?thesis by auto
qed

theorem buzhash_chunks_witness:
  "\<exists>c cs. newBuzhash (\<lambda>b. ucast b * 2654435761) small_params 5 \<lparr>rdata = [3, 1, 4, 1, 5, 9, 2, 6], rfails = False\<rparr> = Inr c
    \<and> allChunks buzhash_Next c = Some (Inr cs) \<and> concat (map chunk_bytes cs) = [3, 1, 4, 1, 5, 9, 2, 6]"
proof -
  let ?r = "\<lparr>rdata = [3, 1, 4, 1, 5, 9, 2, 6], rfails = False\<rparr>"
  obtain cfg where "newConfig small_params False = Inr cfg" using small_config by blast
  with small_window [OF this] obtain c where c: "newBuzhash (\<lambda>b. ucast b * 2654435761) small_params 5 ?r = Inr c"
    by (auto simp: newBuzhash_def small_ok)
  from buzhash_chunks [OF c small_ok(1,2)] c show ?thesis by auto
qed


section \<open>Fixed\<close>

record fixed =
  blockSize :: nat
  headerSize :: nat
  fx_r :: reader
  headerDone :: bool
  fx_done :: bool

definition newFixed :: "params \<Rightarrow> reader \<Rightarrow> chunk_error + fixed" where
  "newFixed p r =
     (if BlockSize p \<le> 0 then Inl BlockSizeNotPositive
      else if HeaderSize p < 0 then Inl NegativeHeaderSize
      else Inr \<lparr>blockSize = nat (BlockSize p), headerSize = nat (HeaderSize p), fx_r = r, headerDone = False, fx_done = False\<rparr>)"

definition fixed_Reset :: "fixed \<Rightarrow> reader \<Rightarrow> fixed" where
  "fixed_Reset c r = c\<lparr>fx_r := r, headerDone := False, fx_done := False\<rparr>"

definition fixed_step :: "fixed \<Rightarrow> (fixed \<times> step) option" where
  "fixed_step c =
     (if fx_done c then Some (c, AtEOF)
      else let want = (if \<not> headerDone c \<and> headerSize c > 0 then headerSize c else blockSize c);
               (got, failed, r) = ReadFull (fx_r c) want;
               c' = c\<lparr>headerDone := True, fx_r := r\<rparr> in
        if failed then Some (c', Failed ReadError)
        else if got = [] then Some (c'\<lparr>fx_done := True\<rparr>, AtEOF)
        else Some (if length got < want then c'\<lparr>fx_done := True\<rparr> else c', Piece got))"

definition fixed_Next :: "fixed \<Rightarrow> (fixed \<times> next_result) option" where
  "fixed_Next = chunk_next fixed_step"

text \<open>Behind the header every piece has the block size.\<close>

definition fixed_inv :: "nat \<Rightarrow> fixed \<Rightarrow> bool" where
  "fixed_inv b c \<longleftrightarrow> blockSize c = b \<and> 0 < b \<and> \<not> rfails (fx_r c) \<and> (fx_done c \<longrightarrow> rdata (fx_r c) = [])
     \<and> (headerDone c \<or> headerSize c = 0)"

interpretation fixed: piece_source fixed_step "fixed_inv b" "\<lambda>c. rdata (fx_r c)" "\<lambda>_. b" for b
  by unfold_locales (auto simp: fixed_inv_def fixed_step_def ReadFull_def Let_def)

lemma fixed_header:
  assumes "headerSize c > 0" "\<not> headerDone c" "\<not> fx_done c" "blockSize c > 0" "\<not> rfails (fx_r c)" "rdata (fx_r c) \<noteq> []"
  shows "\<exists>c'. fixed_step c = Some (c', Piece (take (headerSize c) (rdata (fx_r c)))) \<and> fixed_inv (blockSize c) c'
    \<and> rdata (fx_r c') = drop (headerSize c) (rdata (fx_r c))"
  using assms by (auto simp: fixed_step_def fixed_inv_def ReadFull_def Let_def)

text \<open>C19. The fixed chunker cuts off a header of its own size, if it has one, and then blocks of the
  block size, the last one possibly shorter: all the pieces together are the stream.\<close>

theorem fixed_chunks:
  assumes new: "newFixed p r = Inr c" "\<not> rfails r"
  shows "allChunks fixed_Next c = Some (Inr (map classify
      ((if headerSize c = 0 \<or> rdata r = [] then [] else [take (headerSize c) (rdata r)])
        @ ref_pieces (\<lambda>_. blockSize c) (drop (headerSize c) (rdata r)))))
    \<and> concat (ref_pieces (\<lambda>_. blockSize c) (drop (headerSize c) (rdata r))) = drop (headerSize c) (rdata r)"
proof -
  have c: "fx_r c = r" "\<not> headerDone c" "\<not> fx_done c" "blockSize c > 0" using new(1) by (auto simp: newFixed_def split: if_splits)
  show ?thesis
  proof (cases "headerSize c = 0 \<or> rdata r = []")
    case hd: True
    show ?thesis
    proof (cases "headerSize c = 0")
      case True
      then have "fixed_inv (blockSize c) c" using c new(2) by (simp add: fixed_inv_def)
      from fixed.all_chunks [OF this] True c show ?thesis by (simp add: fixed_Next_def)
    next
      case False
      then have e: "rdata r = []" using hd by simp
      then have "fixed_step c = Some (c\<lparr>headerDone := True, fx_r := r\<lparr>rdata := []\<rparr>, fx_done := True\<rparr>, AtEOF)"
        using c new(2) by (simp add: fixed_step_def ReadFull_def Let_def)
      then show ?thesis using e by (subst allChunks.simps) (simp add: fixed_Next_def chunk_next_def ref_pieces.simps)
    qed
  next
    case False
    then obtain c' where c': "fixed_step c = Some (c', Piece (take (headerSize c) (rdata r)))" "fixed_inv (blockSize c) c'"
        "rdata (fx_r c') = drop (headerSize c) (rdata r)"
      using fixed_header [of c] c new(2) by auto
    from fixed.all_chunks [OF c'(2)] c'(1,3) False show ?thesis
      by (subst allChunks.simps) (simp add: fixed_Next_def chunk_next_def)
  qed
qed

theorem fixed_chunks_witness:
  "\<exists>c. newFixed (no_params\<lparr>BlockSize := 2, HeaderSize := 3\<rparr>) \<lparr>rdata = [1, 2, 3, 0, 0, 6], rfails = False\<rparr> = Inr c
    \<and> allChunks fixed_Next c = Some (Inr (map classify [[1, 2, 3], [0, 0], [6]]))"
proof -
  let ?r = "\<lparr>rdata = [1, 2, 3, 0, 0, 6], rfails = False\<rparr>"
  obtain c where c: "newFixed (no_params\<lparr>BlockSize := 2, HeaderSize := 3\<rparr>) ?r = Inr c" "blockSize c = 2" "headerSize c = 3"
    by (simp add: newFixed_def no_params_def)
  have "ref_pieces (\<lambda>_. 2) ([0, 0, 6] :: bytes) = [[0, 0], [6]]" by (simp add: ref_pieces.simps)
  then show ?thesis using fixed_chunks [OF c(1)] c by auto
qed

end
