(* ===== verification/Chunker_New.thy ===== *)
theory Chunker_New
  imports Buzhash Go_Strings
begin

text \<open>
  Choosing a chunker: \<open>New\<close> and \<open>ParseParams\<close> of \<^verbatim>\<open>src/internal/chunker/chunker.go\<close>, and the interface
  \<open>Chunker\<close> as the sum of its four implementations.
\<close>

datatype chunker = ChFastCDC fastcdc | ChBuzhash64 buzhash64 | ChBuzhash buzhash | ChFixed fixed

datatype new_error = Config chunk_error | NotImplemented | UnknownAlgorithm

definition lift_new :: "('a \<Rightarrow> chunker) \<Rightarrow> chunk_error + 'a \<Rightarrow> new_error + chunker" where
  "lift_new f r = (case r of Inl e \<Rightarrow> Inl (Config e) | Inr c \<Rightarrow> Inr (f c))"

definition New_chunker :: "(bytes \<Rightarrow> nat \<Rightarrow> byte) \<Rightarrow> (byte \<Rightarrow> uint32) \<Rightarrow> params \<Rightarrow> bytes \<Rightarrow> uint32 \<Rightarrow> reader \<Rightarrow> new_error + chunker" where
  "New_chunker aes_ctr buzhashTableBase p key seed r =
     (if Algorithm p = AlgoFastCDC then lift_new ChFastCDC (newFastCDC aes_ctr p key r)
      else if Algorithm p = AlgoBuzhash64 then lift_new ChBuzhash64 (newBuzhash64 aes_ctr p key r)
      else if Algorithm p = AlgoBuzhash then lift_new ChBuzhash (newBuzhash buzhashTableBase p seed r)
      else if Algorithm p = AlgoFixed then lift_new ChFixed (newFixed p r)
      else if Algorithm p \<in> {''rabin-aes'', ''goldilocks-aes'', ''toeplitz-aes''} then Inl NotImplemented
      else Inl UnknownAlgorithm)"

fun chunker_Algorithm :: "chunker \<Rightarrow> string" where
  "chunker_Algorithm (ChFastCDC _) = AlgoFastCDC"
| "chunker_Algorithm (ChBuzhash64 _) = AlgoBuzhash64"
| "chunker_Algorithm (ChBuzhash _) = AlgoBuzhash"
| "chunker_Algorithm (ChFixed _) = AlgoFixed"

fun chunker_Next :: "chunker \<Rightarrow> (chunker \<times> next_result) option" where
  "chunker_Next (ChFastCDC c) = map_option (map_prod ChFastCDC (\<lambda>x. x)) (fastcdc_Next c)"
| "chunker_Next (ChBuzhash64 c) = map_option (map_prod ChBuzhash64 (\<lambda>x. x)) (buzhash64_Next c)"
| "chunker_Next (ChBuzhash c) = map_option (map_prod ChBuzhash (\<lambda>x. x)) (buzhash_Next c)"
| "chunker_Next (ChFixed c) = map_option (map_prod ChFixed (\<lambda>x. x)) (fixed_Next c)"

fun chunker_Reset :: "chunker \<Rightarrow> reader \<Rightarrow> chunker" where
  "chunker_Reset (ChFastCDC c) r = ChFastCDC (fastcdc_Reset c r)"
| "chunker_Reset (ChBuzhash64 c) r = ChBuzhash64 (buzhash64_Reset c r)"
| "chunker_Reset (ChBuzhash c) r = ChBuzhash (buzhash_Reset c r)"
| "chunker_Reset (ChFixed c) r = ChFixed (fixed_Reset c r)"

section \<open>Parsing the parameters\<close>

datatype params_error = EmptyParams | NotANumber string | WrongCount nat | UnknownChunker string

fun parseNums :: "string list \<Rightarrow> params_error + int list" where
  "parseNums [] = Inr []"
| "parseNums (f # fs) =
     (case Atoi (TrimSpace f) of
        None \<Rightarrow> Inl (NotANumber f)
      | Some n \<Rightarrow> bind_res (parseNums fs) (\<lambda>ns. Inr (n # ns)))"

definition ParseParams :: "string \<Rightarrow> params_error + params" where
  "ParseParams spec =
     (let fields = Split CHR '','' spec in
      if hd fields = [] then Inl EmptyParams
      else if hd fields = ''default'' \<and> length fields = 1 then Inr DefaultParams
      else bind_res (parseNums (tl fields)) (\<lambda>nums.
        if hd fields = AlgoFastCDC then
          (if length nums \<noteq> 4 then Inl (WrongCount (length nums))
           else Inr (no_params\<lparr>Algorithm := AlgoFastCDC, ChunkMinExp := nums ! 0, ChunkMaxExp := nums ! 1,
             HashMaskBits := nums ! 2, NCLevel := nums ! 3\<rparr>))
        else if hd fields = AlgoBuzhash64 then
          (if length nums \<noteq> 5 then Inl (WrongCount (length nums))
           else Inr (no_params\<lparr>Algorithm := AlgoBuzhash64, ChunkMinExp := nums ! 0, ChunkMaxExp := nums ! 1,
             HashMaskBits := nums ! 2, WindowSize := nums ! 3, NCLevel := nums ! 4\<rparr>))
        else if hd fields = AlgoBuzhash then
          (if length nums \<noteq> 4 then Inl (WrongCount (length nums))
           else Inr (no_params\<lparr>Algorithm := AlgoBuzhash, ChunkMinExp := nums ! 0, ChunkMaxExp := nums ! 1,
             HashMaskBits := nums ! 2, WindowSize := nums ! 3\<rparr>))
        else if hd fields = AlgoFixed then
          (if length nums \<noteq> 1 \<and> length nums \<noteq> 2 then Inl (WrongCount (length nums))
           else Inr (no_params\<lparr>Algorithm := AlgoFixed, BlockSize := nums ! 0,
             HeaderSize := (if length nums = 2 then nums ! 1 else 0)\<rparr>))
        else Inl (UnknownChunker (hd fields))))"

lemma parseNums_Itoa: "\<forall>n\<in>set ns. - (2 ^ 63) \<le> n \<and> n < 2 ^ 63 \<Longrightarrow> parseNums (map Itoa ns) = Inr ns"
  by (induction ns) (simp_all add: TrimSpace_Itoa Atoi_Itoa)

definition render :: "string \<Rightarrow> int list \<Rightarrow> string" where
  "render algo ns = Join CHR '','' (algo # map Itoa ns)"

lemma ParseParams_render:
  assumes "\<forall>n\<in>set ns. - (2 ^ 63) \<le> n \<and> n < 2 ^ 63" "CHR '','' \<notin> set algo"
  shows "Split CHR '','' (render algo ns) = algo # map Itoa ns" "parseNums (map Itoa ns) = Inr ns"
  using assms parseNums_Itoa Itoa_no_comma unfolding render_def by (auto intro!: Split_Join)



text \<open>\<open>New\<close> returns the chunker the parameters name, or an error.\<close>

lemma New_chunker_names: "New_chunker aes_ctr base p key seed r = Inr ch \<Longrightarrow> chunker_Algorithm ch = Algorithm p"
  by (auto simp: New_chunker_def lift_new_def split: if_splits sum.splits)

end
