(* ===== verification/Chunk_Source.thy ===== *)
theory Chunk_Source
  imports Chunker_New
begin

text \<open>
  The interface \<open>Chunker\<close> of \<^verbatim>\<open>src/internal/chunker/chunker.go\<close> as its clients use it: whatever the
  algorithm, calling \<open>Next\<close> until the end of the stream hands out the stream in non-empty pieces.
\<close>

locale byte_source =
  fixes nxt :: "'s \<Rightarrow> ('s \<times> step) option"
    and inv :: "'s \<Rightarrow> bool"
    and rest :: "'s \<Rightarrow> bytes"
  assumes source_end: "inv s \<Longrightarrow> rest s = [] \<Longrightarrow> \<exists>s'. nxt s = Some (s', AtEOF) \<and> inv s'"
    and source_piece: "inv s \<Longrightarrow> rest s \<noteq> [] \<Longrightarrow> \<exists>s' d. nxt s = Some (s', Piece d) \<and> inv s' \<and> d \<noteq> [] \<and> rest s = d @ rest s'"
begin

lemma source_chunks: "inv s \<Longrightarrow> \<exists>bs. allChunks (chunk_next nxt) s = Some (Inr (map classify bs)) \<and> concat bs = rest s \<and> [] \<notin> set bs"
proof (induction "length (rest s)" arbitrary: s rule: less_induct)
  case less
  show ?case
  proof (cases "rest s = []")
    case True
    then obtain s' where "nxt s = Some (s', AtEOF)" using source_end [OF less.prems] by blast
    then show ?thesis using True by (intro exI [of _ "[]"]) (simp add: allChunks.simps chunk_next_def)
  next
    case False
    then obtain s' d where n: "nxt s = Some (s', Piece d)" "inv s'" "d \<noteq> []" "rest s = d @ rest s'" using source_piece [OF less.prems] by blast
    then have "length (rest s') < length (rest s)" by simp
    from less.hyps [OF this n(2)] obtain bs where "allChunks (chunk_next nxt) s' = Some (Inr (map classify bs))" "concat bs = rest s'" "[] \<notin> set bs" by blast
    then show ?thesis using n by (intro exI [of _ "d # bs"]) (subst allChunks.simps, simp add: chunk_next_def)
  qed
qed

end

text \<open>A chunker that cuts by content is such a source.\<close>

sublocale piece_source \<subseteq> src: byte_source nxt inv rest
proof
  show "\<exists>s'. nxt s = Some (s', AtEOF) \<and> inv s'" if "inv s" "rest s = []" for s using next_end [OF that] by blast
  show "\<exists>s' d. nxt s = Some (s', Piece d) \<and> inv s' \<and> d \<noteq> [] \<and> rest s = d @ rest s'" if "inv s" "rest s \<noteq> []" for s
  proof -
    from next_piece [OF that] obtain s' where n: "nxt s = Some (s', Piece (take (cutf (rest s)) (rest s)))" "inv s'" "rest s' = drop (cutf (rest s)) (rest s)" by blast
    then show ?thesis using cut_pos [OF that] that(2) by (intro exI [of _ s'] exI [of _ "take (cutf (rest s)) (rest s)"]) simp
  qed
qed

section \<open>The four chunkers\<close>

fun chunker_step :: "chunker \<Rightarrow> (chunker \<times> step) option" where
  "chunker_step (ChFastCDC c) = map_option (map_prod ChFastCDC id) (fastcdc_step c)"
| "chunker_step (ChBuzhash64 c) = map_option (map_prod ChBuzhash64 id) (buzhash64_step c)"
| "chunker_step (ChBuzhash c) = map_option (map_prod ChBuzhash id) (buzhash_step c)"
| "chunker_step (ChFixed c) = map_option (map_prod ChFixed id) (fixed_step c)"

lemma chunker_Next_step: "chunker_Next = chunk_next chunker_step"
proof
  show "chunker_Next ch = chunk_next chunker_step ch" for ch
    by (cases ch) (simp_all add: chunk_next_def fastcdc_Next_def buzhash64_Next_def buzhash_Next_def fixed_Next_def option.map_comp comp_def prod.map_comp id_def)
qed

text \<open>A configuration that \<open>New\<close> accepted, and the state of a chunker on a stream that does not fail.\<close>

fun chunker_ready :: "chunker \<Rightarrow> bool" where
  "chunker_ready (ChFastCDC c) \<longleftrightarrow> cfg_ok (fc_cfg c)"
| "chunker_ready (ChBuzhash64 c) \<longleftrightarrow> win_cfg_ok (b64_cfg c) (b64_window c) \<and> b64_tableRot c = (\<lambda>b. word_rotl (b64_window c mod 64) (b64_table c b))"
| "chunker_ready (ChBuzhash c) \<longleftrightarrow> win_cfg_ok (bz_cfg c) (bz_window c)"
| "chunker_ready (ChFixed c) \<longleftrightarrow> 0 < blockSize c"

fun chunker_inv :: "chunker \<Rightarrow> bool" where
  "chunker_inv (ChFastCDC c) \<longleftrightarrow> fastcdc_inv (fc_cfg c) (fc_gear c) c"
| "chunker_inv (ChBuzhash64 c) \<longleftrightarrow> buzhash64_inv (b64_cfg c) (b64_table c) (b64_window c) c"
| "chunker_inv (ChBuzhash c) \<longleftrightarrow> buzhash_inv (bz_cfg c) (bz_table c) (bz_window c) c"
| "chunker_inv (ChFixed c) \<longleftrightarrow> 0 < blockSize c \<and> \<not> rfails (fx_r c) \<and> (fx_done c \<longrightarrow> rdata (fx_r c) = [])"

fun chunker_rest :: "chunker \<Rightarrow> bytes" where
  "chunker_rest (ChFastCDC c) = drv_rest (fc_d c)"
| "chunker_rest (ChBuzhash64 c) = drv_rest (b64_d c)"
| "chunker_rest (ChBuzhash c) = drv_rest (bz_d c)"
| "chunker_rest (ChFixed c) = rdata (fx_r c)"

lemma chunker_inv_ready: "chunker_inv ch \<Longrightarrow> chunker_ready ch"
  by (cases ch) (simp_all add: fastcdc_inv_def buzhash64_inv_def buzhash_inv_def)

lemma chunker_Reset_inv:
  assumes "chunker_ready ch" "\<not> rfails r"
  shows "chunker_inv (chunker_Reset ch r) \<and> chunker_rest (chunker_Reset ch r) = rdata r"
proof -
  have "drv_inv cfg (driver_init r)" "win_inv cfg (driver_init r)" for cfg
    using driver_init_inv [OF assms(2)] by (simp_all add: win_inv_def) (simp add: driver_init_def)
  then show ?thesis using assms
    by (cases ch) (simp_all add: fastcdc_Reset_def buzhash64_Reset_def buzhash_Reset_def fixed_Reset_def driver_reset_init
      fastcdc_inv_def buzhash64_inv_def buzhash_inv_def)
qed

lemma New_chunker_inv:
  assumes "New_chunker aes base p key seed r = Inr ch" "ChunkMinExp p \<le> 62" "WindowSize p \<le> 2 ^ 62" "\<not> rfails r"
  shows "chunker_inv ch \<and> chunker_rest ch = rdata r"
proof -
  have "chunker_inv (ChFixed c) \<and> chunker_rest (ChFixed c) = rdata r" if "newFixed p r = Inr c" for c
    using that assms(4) by (auto simp: newFixed_def split: if_splits)
  then show ?thesis
    using assms newFastCDC_inv [of aes p key r] newBuzhash64_inv [of aes p key r] newBuzhash_inv [of base p seed r]
    by (auto simp: New_chunker_def lift_new_def split: if_splits sum.splits)
qed

interpretation chunkers: byte_source chunker_step chunker_inv chunker_rest
proof
  fix ch
  assume inv: "chunker_inv ch"
  show "\<exists>s'. chunker_step ch = Some (s', AtEOF) \<and> chunker_inv s'" if e: "chunker_rest ch = []"
  proof (cases ch)
    case (ChFastCDC c)
    then show ?thesis using inv e fastcdc.src.source_end [of "fc_cfg c" "fc_gear c" c] by (fastforce simp: fastcdc_inv_def)
  next
    case (ChBuzhash64 c)
    then show ?thesis using inv e buzhash64.src.source_end [of "b64_cfg c" "b64_table c" "b64_window c" c] by (fastforce simp: buzhash64_inv_def)
  next
    case (ChBuzhash c)
    then show ?thesis using inv e buzhash.src.source_end [of "bz_cfg c" "bz_table c" "bz_window c" c] by (fastforce simp: buzhash_inv_def)
  next
    case (ChFixed c)
    then show ?thesis using inv e by (auto simp: fixed_step_def ReadFull_def Let_def)
  qed
  show "\<exists>s' d. chunker_step ch = Some (s', Piece d) \<and> chunker_inv s' \<and> d \<noteq> [] \<and> chunker_rest ch = d @ chunker_rest s'" if e: "chunker_rest ch \<noteq> []"
  proof (cases ch)
    case (ChFastCDC c)
    then obtain s' d where "fastcdc_step c = Some (s', Piece d)" "fastcdc_inv (fc_cfg c) (fc_gear c) s'" "d \<noteq> []" "drv_rest (fc_d c) = d @ drv_rest (fc_d s')"
      using inv e fastcdc.src.source_piece [of "fc_cfg c" "fc_gear c" c] by auto
    then show ?thesis using ChFastCDC by (intro exI [of _ "ChFastCDC s'"] exI [of _ d]) (simp add: fastcdc_inv_def)
  next
    case (ChBuzhash64 c)
    then obtain s' d where "buzhash64_step c = Some (s', Piece d)" "buzhash64_inv (b64_cfg c) (b64_table c) (b64_window c) s'" "d \<noteq> []" "drv_rest (b64_d c) = d @ drv_rest (b64_d s')"
      using inv e buzhash64.src.source_piece [of "b64_cfg c" "b64_table c" "b64_window c" c] by auto
    then show ?thesis using ChBuzhash64 by (intro exI [of _ "ChBuzhash64 s'"] exI [of _ d]) (simp add: buzhash64_inv_def)
  next
    case (ChBuzhash c)
    then obtain s' d where "buzhash_step c = Some (s', Piece d)" "buzhash_inv (bz_cfg c) (bz_table c) (bz_window c) s'" "d \<noteq> []" "drv_rest (bz_d c) = d @ drv_rest (bz_d s')"
      using inv e buzhash.src.source_piece [of "bz_cfg c" "bz_table c" "bz_window c" c] by auto
    then show ?thesis using ChBuzhash by (intro exI [of _ "ChBuzhash s'"] exI [of _ d]) (simp add: buzhash_inv_def)
  next
    case (ChFixed c)
    then show ?thesis using inv e by (auto simp: fixed_step_def ReadFull_def Let_def)
  qed
qed

end
