(* ===== verification/Comp_Spec.thy ===== *)
theory Comp_Spec
  imports Compress
begin

text \<open>
  Compression specifications, \<^verbatim>\<open>src/internal/compress/spec.go\<close>: parsing a \<open>--compression\<close> argument,
  rendering it back, and the compressor it describes.
\<close>

datatype spec = Spec (sp_Name: string) (sp_Level: int) (sp_Inner: "spec option") (hasLevel: bool)

datatype spec_error = EmptySpec | TakesNoLevel | LevelNotNumber | LevelOutOfRange | TooManyArguments | NeedsInner | LegacyFormat | Unsupported

definition DefaultZlibLevel :: int where "DefaultZlibLevel = 6"
definition DefaultZstdLevel :: int where "DefaultZstdLevel = 3"

text \<open>A level in the second field, if there is one.\<close>

definition parseLevel :: "string list \<Rightarrow> int \<Rightarrow> (int \<Rightarrow> bool) \<Rightarrow> spec_error + int \<times> bool" where
  "parseLevel vs def ok =
     (if length vs = 1 then Inr (def, False)
      else if length vs = 2 then
        (case Atoi (vs ! 1) of
           None \<Rightarrow> Inl LevelNotNumber
         | Some n \<Rightarrow> if ok n then Inr (n, True) else Inl LevelOutOfRange)
      else Inl TooManyArguments)"

function parseSpec :: "string list \<Rightarrow> spec_error + spec" where
  "parseSpec vs =
     (let name = hd vs; count = length vs in
      if name = ''none'' \<or> name = ''lz4'' then
        (if count \<noteq> 1 then Inl TakesNoLevel else Inr (Spec name UnknownLevel None False))
      else if name = ''zlib'' \<or> name = ''lzma'' then
        bind_res (parseLevel vs DefaultZlibLevel (\<lambda>n. 0 \<le> n \<and> n \<le> 9)) (\<lambda>(l, h). Inr (Spec name l None h))
      else if name = ''zstd'' then
        bind_res (parseLevel vs DefaultZstdLevel (\<lambda>n. - 128 \<le> n \<and> n \<le> 22)) (\<lambda>(l, h). Inr (Spec name l None h))
      else if name = ''auto'' then
        (if count < 2 \<or> count > 3 then Inl NeedsInner
         else case parseSpec (drop 1 vs) of Inl e \<Rightarrow> Inl e | Inr inner \<Rightarrow> Inr (Spec name UnknownLevel (Some inner) False))
      else if name = ''obfuscate'' then
        (if count < 3 \<or> count > 5 then Inl NeedsInner
         else case Atoi (vs ! 1) of
           None \<Rightarrow> Inl LevelNotNumber
         | Some n \<Rightarrow>
             if \<not> obf_level_ok n then Inl LevelOutOfRange
             else case parseSpec (drop 2 vs) of Inl e \<Rightarrow> Inl e | Inr inner \<Rightarrow> Inr (Spec name n (Some inner) False))
      else if name = ''zlib_legacy'' then Inl LegacyFormat
      else Inl Unsupported)"
  by pat_completeness auto
termination by (relation "measure length") auto

declare parseSpec.simps [simp del]

definition ParseSpec :: "string \<Rightarrow> spec_error + spec" where
  "ParseSpec s = (let vs = Split CHR '','' s in if hd vs = [] then Inl EmptySpec else parseSpec vs)"

function spec_String :: "spec \<Rightarrow> string" where
  "spec_String (Spec name level inner h) =
     (if name = ''none'' \<or> name = ''lz4'' then name
      else if name = ''auto'' then ''auto,'' @ (case inner of None \<Rightarrow> [] | Some i \<Rightarrow> spec_String i)
      else if name = ''obfuscate'' then ''obfuscate,'' @ Itoa level @ '','' @ (case inner of None \<Rightarrow> [] | Some i \<Rightarrow> spec_String i)
      else name @ '','' @ Itoa level)"
  by pat_completeness auto
termination by (relation "measure size") auto

text \<open>The constructors check the level again.\<close>

definition NewZlib :: "int \<Rightarrow> comp_error + compressor" where
  "NewZlib level = (if level < 0 \<or> level > 9 then Inl BadLevel else Inr (CZlib level))"

definition NewLZMA :: "int \<Rightarrow> comp_error + compressor" where
  "NewLZMA level = (if level < 0 \<or> level > 9 then Inl BadLevel else Inr (CLZMA level))"

definition NewZstd :: "int \<Rightarrow> comp_error + compressor" where
  "NewZstd level = (if level < - 128 \<or> level > 22 then Inl BadLevel else Inr (CZstd level))"

definition NewObfuscateSize :: "int \<Rightarrow> compressor \<Rightarrow> comp_error + compressor" where
  "NewObfuscateSize level inner = (if \<not> obf_level_ok level then Inl BadLevel else Inr (CObfuscate level inner))"

function spec_Compressor :: "spec \<Rightarrow> comp_error + compressor" where
  "spec_Compressor (Spec name level inner h) =
     (if name = ''none'' then Inr CNone
      else if name = ''lz4'' then Inr CLZ4
      else if name = ''zlib'' then NewZlib level
      else if name = ''lzma'' then NewLZMA level
      else if name = ''zstd'' then NewZstd level
      else if name = ''auto'' then
        (case inner of None \<Rightarrow> Inl NoInner | Some i \<Rightarrow>
           (case spec_Compressor i of Inl e \<Rightarrow> Inl e | Inr c \<Rightarrow> Inr (CAuto c)))
      else if name = ''obfuscate'' then
        (case inner of None \<Rightarrow> Inl NoInner | Some i \<Rightarrow>
           (case spec_Compressor i of Inl e \<Rightarrow> Inl e | Inr c \<Rightarrow> NewObfuscateSize level c))
      else Inl NoDecompressor)"
  by pat_completeness auto
termination by (relation "measure size") auto

declare spec_String.simps [simp del] spec_Compressor.simps [simp del]


section \<open>Parsed specifications\<close>

fun valid :: "spec \<Rightarrow> bool" where
  "valid (Spec name l inner h) \<longleftrightarrow>
     ((name = ''none'' \<or> name = ''lz4'') \<and> l = UnknownLevel \<and> inner = None \<and> \<not> h)
   \<or> ((name = ''zlib'' \<or> name = ''lzma'') \<and> 0 \<le> l \<and> l \<le> 9 \<and> inner = None)
   \<or> (name = ''zstd'' \<and> - 128 \<le> l \<and> l \<le> 22 \<and> inner = None)
   \<or> (name = ''auto'' \<and> l = UnknownLevel \<and> \<not> h \<and> (case inner of None \<Rightarrow> False | Some i \<Rightarrow> valid i))
   \<or> (name = ''obfuscate'' \<and> obf_level_ok l \<and> \<not> h \<and> (case inner of None \<Rightarrow> False | Some i \<Rightarrow> valid i))"

lemma parseLevel_Inr: "parseLevel vs d ok = Inr (l, h) \<Longrightarrow> ok d \<Longrightarrow> ok l"
  by (auto simp: parseLevel_def split: if_splits option.splits)

lemma parseSpec_valid: "parseSpec vs = Inr sp \<Longrightarrow> valid sp"
proof (induction vs arbitrary: sp rule: parseSpec.induct)
  case (1 vs)
  let ?n = "hd vs"
  consider "?n = ''none'' \<or> ?n = ''lz4''" | "?n = ''zlib'' \<or> ?n = ''lzma''" | "?n = ''zstd''" | "?n = ''auto''" | "?n = ''obfuscate''"
    | "?n \<notin> {''none'', ''lz4'', ''zlib'', ''lzma'', ''zstd'', ''auto'', ''obfuscate''}" by blast
  then show ?case
  proof cases
    case 1
    then show ?thesis using "1.prems" by (auto simp: parseSpec.simps [of vs] Let_def split: if_splits)
  next
    case 2
    then obtain l h where "parseLevel vs DefaultZlibLevel (\<lambda>n. 0 \<le> n \<and> n \<le> 9) = Inr (l, h)" "sp = Spec ?n l None h"
      using "1.prems" by (auto simp: parseSpec.simps [of vs] Let_def bind_res_Inr)
    then show ?thesis using 2 parseLevel_Inr [of vs DefaultZlibLevel "\<lambda>n. 0 \<le> n \<and> n \<le> 9" l h] by (auto simp: DefaultZlibLevel_def)
  next
    case 3
    then obtain l h where "parseLevel vs DefaultZstdLevel (\<lambda>n. - 128 \<le> n \<and> n \<le> 22) = Inr (l, h)" "sp = Spec ?n l None h"
      using "1.prems" by (auto simp: parseSpec.simps [of vs] Let_def bind_res_Inr)
    then show ?thesis using 3 parseLevel_Inr [of vs DefaultZstdLevel "\<lambda>n. - 128 \<le> n \<and> n \<le> 22" l h] by (auto simp: DefaultZstdLevel_def)
  next
    case 4
    then obtain i where i: "parseSpec (drop 1 vs) = Inr i" "sp = Spec ''auto'' UnknownLevel (Some i) False" "\<not> (length vs < 2 \<or> length vs > 3)"
      using "1.prems" by (auto simp: parseSpec.simps [of vs] Let_def split: if_splits sum.splits)
    then show ?thesis using "1.IH"(1) [OF refl refl _ _ _ _ i(3) i(1)] 4 by simp
  next
    case 5
    then obtain n i where i: "Atoi (vs ! 1) = Some n" "obf_level_ok n" "parseSpec (drop 2 vs) = Inr i" "sp = Spec ''obfuscate'' n (Some i) False"
      "\<not> (length vs < 3 \<or> length vs > 5)"
      using "1.prems" by (auto simp: parseSpec.simps [of vs] Let_def split: if_splits sum.splits option.splits)
    then have "valid i" using "1.IH"(2) [OF refl refl _ _ _ _ _ i(5) i(1) _ i(3)] 5 by simp
    then show ?thesis using i by simp
  next
    case 6
    then show ?thesis using "1.prems" by (auto simp: parseSpec.simps [of vs] Let_def split: if_splits)
  qed
qed

lemma valid_Compressor: "valid sp \<Longrightarrow> \<exists>c. spec_Compressor sp = Inr c"
proof (induction sp rule: spec_Compressor.induct)
  case (1 name l inner h)
  show ?case
  proof (cases inner)
    case None
    then consider "name = ''none''" | "name = ''lz4''" | "name = ''zlib''" "0 \<le> l" "l \<le> 9" | "name = ''lzma''" "0 \<le> l" "l \<le> 9"
      | "name = ''zstd''" "- 128 \<le> l" "l \<le> 22" using 1(3) by auto
    then show ?thesis by cases (simp_all add: spec_Compressor.simps NewZlib_def NewLZMA_def NewZstd_def)
  next
    case (Some i)
    then have "(name = ''auto'' \<or> name = ''obfuscate'' \<and> obf_level_ok l) \<and> valid i" using 1(3) by auto
    moreover from this have "\<exists>c. spec_Compressor i = Inr c" using 1(1,2) Some by auto
    ultimately show ?thesis using Some by (auto simp: spec_Compressor.simps [of name] NewObfuscateSize_def)
  qed
qed

section \<open>Rendering\<close>

function fields :: "spec \<Rightarrow> string list" where
  "fields (Spec name l inner h) =
     (if name = ''none'' \<or> name = ''lz4'' then [name]
      else if name = ''auto'' then name # (case inner of None \<Rightarrow> [] | Some i \<Rightarrow> fields i)
      else if name = ''obfuscate'' then name # Itoa l # (case inner of None \<Rightarrow> [] | Some i \<Rightarrow> fields i)
      else [name, Itoa l])"
  by pat_completeness auto
termination by (relation "measure size") auto

text \<open>The form a rendered specification parses to: an explicit level.\<close>

fun norm :: "spec \<Rightarrow> spec" where
  "norm (Spec name l inner h) = Spec name l (map_option norm inner) (name = ''zlib'' \<or> name = ''lzma'' \<or> name = ''zstd'')"

text \<open>The nestings whose rendering the argument counts of \<open>parseSpec\<close> admit.\<close>

fun flat :: "spec \<Rightarrow> bool" where
  "flat (Spec name l inner h) = (case inner of None \<Rightarrow> True | Some i \<Rightarrow> sp_Inner i = None \<or>
     (name = ''obfuscate'' \<and> sp_Name i = ''auto'' \<and> (case sp_Inner i of None \<Rightarrow> True | Some j \<Rightarrow> sp_Inner j = None)))"

declare fields.simps [simp del]

lemma fields_ne [simp]: "fields sp \<noteq> []"
  by (cases sp) (simp add: fields.simps)

lemma Join_Cons: "fs \<noteq> [] \<Longrightarrow> Join c (f # fs) = f @ c # Join c fs"
  by (cases fs) simp_all

lemma String_fields: "valid sp \<Longrightarrow> spec_String sp = Join CHR '','' (fields sp)"
proof (induction sp rule: spec_String.induct)
  case (1 name l inner h)
  show ?case
  proof (cases inner)
    case None
    then show ?thesis using 1(3) by (auto simp: spec_String.simps fields.simps)
  next
    case (Some i)
    then have "(name = ''auto'' \<or> name = ''obfuscate'') \<and> valid i" using 1(3) by auto
    moreover from this have "spec_String i = Join CHR '','' (fields i)" using 1(1,2) Some by auto
    ultimately show ?thesis using Some by (auto simp: spec_String.simps [of name] fields.simps [of name] Join_Cons)
  qed
qed

lemma fields_plain: "valid sp \<Longrightarrow> f \<in> set (fields sp) \<Longrightarrow> CHR '','' \<notin> set f"
proof (induction sp rule: spec_String.induct)
  case (1 name l inner h)
  show ?case
  proof (cases inner)
    case None
    then show ?thesis using 1(3,4) Itoa_no_comma by (auto simp: fields.simps)
  next
    case (Some i)
    then have "(name = ''auto'' \<or> name = ''obfuscate'') \<and> valid i" using 1(3) by auto
    moreover from this have "f \<in> set (fields i) \<Longrightarrow> CHR '','' \<notin> set f" using 1(1,2) Some by auto
    ultimately show ?thesis using Some 1(4) Itoa_no_comma by (auto simp: fields.simps [of name])
  qed
qed

lemma parse_leaf:
  assumes "valid sp" "sp_Inner sp = None"
  shows "parseSpec (fields sp) = Inr (norm sp)" "length (fields sp) \<le> 2" "sp_Name sp \<noteq> ''auto''" "sp_Name sp \<noteq> ''obfuscate''"
proof -
  obtain name l h where sp: "sp = Spec name l None h" using assms(2) by (cases sp) auto
  show "sp_Name sp \<noteq> ''auto''" "sp_Name sp \<noteq> ''obfuscate''" using assms(1) by (auto simp: sp)
  show "length (fields sp) \<le> 2" using assms(1) by (auto simp: sp fields.simps)
  have "Atoi (Itoa l) = Some l" if "- 128 \<le> l" "l \<le> 22" using that by (simp add: Atoi_Itoa)
  then show "parseSpec (fields sp) = Inr (norm sp)"
    using assms(1) by (auto simp: sp fields.simps parseSpec.simps parseLevel_def)
qed

lemma obf_Atoi: "obf_level_ok l \<Longrightarrow> Atoi (Itoa l) = Some l"
  by (auto simp: obf_level_ok_def intro!: Atoi_Itoa)

lemma parse_auto:
  assumes "valid (Spec ''auto'' l (Some i) h)" "sp_Inner i = None"
  shows "parseSpec (fields (Spec ''auto'' l (Some i) h)) = Inr (norm (Spec ''auto'' l (Some i) h))" "length (fields (Spec ''auto'' l (Some i) h)) \<le> 3"
proof -
  have v: "valid i" "l = UnknownLevel" "\<not> h" using assms(1) by auto
  note p = parse_leaf [OF v(1) assms(2)]
  then show "length (fields (Spec ''auto'' l (Some i) h)) \<le> 3" by (simp add: fields.simps [of "''auto''"])
  have "1 \<le> length (fields i)" by (simp add: Suc_leI)
  then show "parseSpec (fields (Spec ''auto'' l (Some i) h)) = Inr (norm (Spec ''auto'' l (Some i) h))"
    using p v by (subst parseSpec.simps) (simp add: fields.simps [of "''auto''"] Let_def)
qed

lemma parse_fields:
  assumes "valid sp" "flat sp"
  shows "parseSpec (fields sp) = Inr (norm sp)"
proof -
  obtain name l inner h where sp: "sp = Spec name l inner h" by (cases sp)
  show ?thesis
  proof (cases inner)
    case None
    then show ?thesis using parse_leaf(1) [OF assms(1)] sp by simp
  next
    case (Some i)
    consider "name = ''auto''" | "name = ''obfuscate''" using assms(1) Some by (auto simp: sp)
    then show ?thesis
    proof cases
      case 1
      then show ?thesis using parse_auto(1) [of l i h] assms Some by (simp add: sp)
    next
      case 2
      have v: "valid i" "obf_level_ok l" "\<not> h" using assms(1) Some 2 by (auto simp: sp)
      have "parseSpec (fields i) = Inr (norm i) \<and> length (fields i) \<le> 3"
      proof (cases "sp_Inner i")
        case None
        then show ?thesis using parse_leaf [OF v(1)] by auto
      next
        case (Some j)
        then obtain l' h' where "i = Spec ''auto'' l' (Some j) h'" "sp_Inner j = None"
          using assms(2) \<open>inner = Some i\<close> 2 by (cases i) (auto simp: sp)
        then show ?thesis using parse_auto [of l' j h'] v(1) by simp
      qed
      moreover have "1 \<le> length (fields i)" by (simp add: Suc_leI)
      ultimately show ?thesis using v 2 Some obf_Atoi [of l]
        by (subst parseSpec.simps) (simp add: sp fields.simps [of "''obfuscate''"] Let_def)
    qed
  qed
qed

lemma norm_String: "spec_String (norm sp) = spec_String sp"
proof (induction sp rule: spec_String.induct)
  case (1 name l inner h)
  then show ?case by (cases inner) (auto simp: spec_String.simps)
qed

lemma norm_Compressor: "spec_Compressor (norm sp) = spec_Compressor sp"
proof (induction sp rule: spec_Compressor.induct)
  case (1 name l inner h)
  then show ?case by (cases inner) (auto simp: spec_Compressor.simps)
qed

text \<open>C27. Every specification the parser accepts describes a compressor, and rendering it gives a
  specification that parses to the same rendering and the same compressor, for all specifications
  with at most one \<open>auto\<close>, one \<open>obfuscate\<close>, or an \<open>auto\<close> inside an \<open>obfuscate\<close>.\<close>

theorem spec_roundtrip:
  assumes "ParseSpec s = Inr sp" "flat sp"
  shows "\<exists>sp' c. ParseSpec (spec_String sp) = Inr sp' \<and> spec_String sp' = spec_String sp
    \<and> spec_Compressor sp = Inr c \<and> spec_Compressor sp' = Inr c"
proof -
  have v: "valid sp" using assms(1) parseSpec_valid by (auto simp: ParseSpec_def Let_def split: if_splits)
  have "Split CHR '','' (spec_String sp) = fields sp"
    unfolding String_fields [OF v] by (rule Split_Join) (use fields_plain [OF v] in auto)
  moreover have "hd (fields sp) \<noteq> []" using v by (cases sp) (auto simp: fields.simps)
  ultimately have "ParseSpec (spec_String sp) = Inr (norm sp)" using parse_fields [OF v assms(2)] by (simp add: ParseSpec_def)
  then show ?thesis using valid_Compressor [OF v] norm_String norm_Compressor by auto
qed

theorem spec_roundtrip_witness:
  "\<exists>sp sp'. ParseSpec ''obfuscate,110,auto,zstd'' = Inr sp \<and> ParseSpec (spec_String sp) = Inr sp' \<and> spec_Compressor sp' = Inr (CObfuscate 110 (CAuto (CZstd 3)))"
proof -
  have "Atoi ''110'' = Some 110" by (simp add: Atoi_def digit_val_def Let_def)
  then have p: "ParseSpec ''obfuscate,110,auto,zstd'' = Inr (Spec ''obfuscate'' 110 (Some (Spec ''auto'' 255 (Some (Spec ''zstd'' 3 None False)) False)) False)"
    by (simp add: ParseSpec_def parseSpec.simps parseLevel_def obf_level_ok_def UnknownLevel_def DefaultZstdLevel_def)
  from spec_roundtrip [OF p] show ?thesis using p
    by (auto simp: spec_Compressor.simps NewZstd_def NewObfuscateSize_def obf_level_ok_def)
qed

text \<open>A default level that is left out of a nested specification is written out when it is rendered,
  and the longer form can exceed the argument count: \<open>auto,auto,zstd\<close> is accepted and rendered as
  \<open>auto,auto,zstd,3\<close>, which is refused. Obfuscation inside obfuscation is accepted as well.\<close>

theorem spec_roundtrip_fails:
  "(\<exists>sp. ParseSpec ''auto,auto,zstd'' = Inr sp \<and> spec_String sp = ''auto,auto,zstd,3'' \<and> ParseSpec ''auto,auto,zstd,3'' = Inl NeedsInner)
   \<and> (\<exists>sp. ParseSpec ''obfuscate,110,obfuscate,110,none'' = Inr sp \<and> spec_Compressor sp = Inr (CObfuscate 110 (CObfuscate 110 CNone)))"
proof -
  have "Atoi ''110'' = Some 110" by (simp add: Atoi_def digit_val_def Let_def)
  then have "\<exists>sp. ParseSpec ''obfuscate,110,obfuscate,110,none'' = Inr sp \<and> spec_Compressor sp = Inr (CObfuscate 110 (CObfuscate 110 CNone))"
    by (simp add: ParseSpec_def parseSpec.simps obf_level_ok_def spec_Compressor.simps NewObfuscateSize_def Let_def)
  moreover have "Itoa 3 = ''3''" by (simp add: Itoa_def nat_str.simps digit_def char_of_def bit_iff_odd)
  then have "\<exists>sp. ParseSpec ''auto,auto,zstd'' = Inr sp \<and> spec_String sp = ''auto,auto,zstd,3''"
    by (simp add: ParseSpec_def parseSpec.simps parseLevel_def spec_String.simps DefaultZstdLevel_def Let_def)
  moreover have "ParseSpec ''auto,auto,zstd,3'' = Inl NeedsInner" by (simp add: ParseSpec_def parseSpec.simps)
  ultimately show ?thesis by blast
qed

end
