(* ===== verification/Builder.thy ===== *)
theory Builder
  imports Repository Chunk_Source Comp_Spec "HOL-Library.Sublist"
begin

text \<open>
  Writing an archive, \<^verbatim>\<open>src/internal/archive/builder.go\<close> and \<^verbatim>\<open>pipeline.go\<close>: chunks are deduplicated
  against the index, formatted, put into packs and recorded; files and the stream of items are cut
  into chunks. The builder's index is the one of the repository it writes to. Times spent are not
  modelled.
\<close>

section \<open>The builder\<close>

datatype build_error =
    HashPanic | FormatFailed ro_error | RepoFailed repo_error | ChunkTooLarge nat | AddFailed index_error
  | NoChunker new_error | CutFailed chunk_error | ItemFailed mp_error
  | NoCompressor "spec_error + comp_error" | NoChunkerKey key_error | PointersFailed mp_error

record stats =
  OriginalSize :: int
  DedupedSize :: int
  NFiles :: int
  Chunks :: int
  NewChunks :: int

record chunk_list_entry =
  cle_ID :: bytes
  cle_Size :: int

record item_stream =
  is_params :: params
  is_key :: bytes
  is_buf :: bytes
  is_chunks :: "bytes list"
  is_chunker :: "chunker option"

record 'k builder =
  b_repo :: repository
  b_ro :: "'k repo_obj"
  chunkerParams :: params
  chunkerKey :: bytes
  chunkSeed :: uint32
  chunkerCache :: "(chunker \<times> params \<times> uint32) option"
  countItemStreamSize :: bool
  b_items :: item_stream
  b_stats :: stats

text \<open>What the builder calls and does not own: the key, the codecs, the obfuscator's random numbers, the
  hash that names packs, the store's failures, the functions behind the chunkers' tables, and the
  key's \<open>DeriveIDKey\<close>.\<close>

record 'k tools =
  t_ops :: "'k key_ops"
  t_codecs :: codecs
  t_rnd :: "int \<Rightarrow> nat \<Rightarrow> int"
  t_sha :: "bytes \<Rightarrow> bytes"
  t_fails :: "nat \<Rightarrow> bool"
  t_aes :: "bytes \<Rightarrow> nat \<Rightarrow> byte"
  t_base :: "byte \<Rightarrow> uint32"
  t_derive :: "'k \<Rightarrow> bytes \<Rightarrow> nat \<Rightarrow> key_error + bytes"

abbreviation b_index :: "'k builder \<Rightarrow> chunk_index" where
  "b_index b \<equiv> pw_index (r_pw (b_repo b))"

record builder_options =
  bo_ChunkerParams :: params
  bo_ChunkSeed :: uint32
  bo_Compressor :: "compressor option"
  bo_CountItemStreamSize :: bool

definition FromSpec :: "string \<Rightarrow> (spec_error + comp_error) + compressor" where
  "FromSpec s = (case ParseSpec s of Inl e \<Rightarrow> Inl (Inl e) | Inr sp \<Rightarrow> map_sum Inr id (spec_Compressor sp))"

definition chunkerKeyDomain :: "string \<Rightarrow> bytes option" where
  "chunkerKeyDomain algo = (if algo = AlgoFastCDC then Some (str ''fastcdc'') else if algo = AlgoBuzhash64 then Some (str ''buzhash64'') else None)"

definition deriveChunkerKey :: "'k tools \<Rightarrow> 'k \<Rightarrow> string \<Rightarrow> key_error + bytes" where
  "deriveChunkerKey t k algo = (case chunkerKeyDomain algo of None \<Rightarrow> Inr [] | Some domain \<Rightarrow> t_derive t k domain 32)"

definition NewBuilder :: "'k tools \<Rightarrow> repository \<Rightarrow> 'k repo_obj \<Rightarrow> builder_options \<Rightarrow> build_error + 'k builder" where
  "NewBuilder t r ro opts =
     bind_res (case bo_Compressor opts of None \<Rightarrow> map_sum NoCompressor id (FromSpec ''lz4'') | Some c \<Rightarrow> Inr c) (\<lambda>compressor.
       let ro1 = SetCompressor ro compressor;
           p = (if Algorithm (bo_ChunkerParams opts) = [] then DefaultParams else bo_ChunkerParams opts) in
       bind_res (map_sum NoChunkerKey id (deriveChunkerKey t (ro_key ro1) (Algorithm p))) (\<lambda>key.
       bind_res (map_sum NoChunkerKey id (deriveChunkerKey t (ro_key ro1) (Algorithm ItemsParams))) (\<lambda>itemsKey.
         Inr \<lparr>b_repo = r, b_ro = ro1, chunkerParams = p, chunkerKey = key, chunkSeed = bo_ChunkSeed opts, chunkerCache = None,
           countItemStreamSize = bo_CountItemStreamSize opts,
           b_items = \<lparr>is_params = ItemsParams, is_key = itemsKey, is_buf = [], is_chunks = [], is_chunker = None\<rparr>,
           b_stats = \<lparr>OriginalSize = 0, DedupedSize = 0, NFiles = 0, Chunks = 0, NewChunks = 0\<rparr>\<rparr>)))"

definition set_index :: "chunk_index \<Rightarrow> 'k builder \<Rightarrow> 'k builder" where
  "set_index c b = b\<lparr>b_repo := (b_repo b)\<lparr>r_pw := (r_pw (b_repo b))\<lparr>pw_index := c\<rparr>\<rparr>\<rparr>"

definition count_chunk :: "bool \<Rightarrow> int \<Rightarrow> stats \<Rightarrow> stats" where
  "count_chunk counted sz s = s\<lparr>Chunks := Chunks s + 1, OriginalSize := OriginalSize s + (if counted then sz else 0)\<rparr>"

definition count_new :: "int \<Rightarrow> stats \<Rightarrow> stats" where
  "count_new sz s = s\<lparr>NewChunks := NewChunks s + 1, DedupedSize := DedupedSize s + sz\<rparr>"

text \<open>The end of \<open>AddChunk\<close> and of \<open>AddCompressedChunk\<close>: put the object, record its size, apply the
  results of the packs that were written.\<close>

definition storeChunk :: "'k tools \<Rightarrow> 'k builder \<Rightarrow> bytes \<Rightarrow> bytes \<Rightarrow> nat \<Rightarrow> ((build_error + chunk_list_entry) \<times> 'k builder) option" where
  "storeChunk t b cid obj sz =
     Option.bind (repo_Put (t_sha t) (t_fails t) (b_repo b) cid obj) (\<lambda>(res, r). let b1 = b\<lparr>b_repo := r\<rparr> in
       case res of
         Inl e \<Rightarrow> Some (Inl (RepoFailed e), b1)
       | Inr results \<Rightarrow>
           if sz \<ge> 2 ^ 32 then Some (Inl (ChunkTooLarge sz), b1)
           else Option.bind (index_Add (b_index b1) cid (word_of_nat sz)) (\<lambda>(c, res2). let b2 = set_index c b1 in
             case res2 of
               Inl e \<Rightarrow> Some (Inl (AddFailed e), b2)
             | Inr _ \<Rightarrow> Option.bind (UpdatePackInfo (b_index b2) results) (\<lambda>(c3, res3). let b3 = set_index c3 b2 in
                 case res3 of
                   Inl e \<Rightarrow> Some (Inl (AddFailed e), b3)
                 | Inr _ \<Rightarrow> Some (Inr \<lparr>cle_ID = cid, cle_Size = int sz\<rparr>, b3\<lparr>b_stats := count_new (int sz) (b_stats b3)\<rparr>))))"

definition AddChunk :: "'k tools \<Rightarrow> 'k builder \<Rightarrow> bytes \<Rightarrow> string \<Rightarrow> ((build_error + chunk_list_entry) \<times> 'k builder) option" where
  "AddChunk t b data roType =
     (case key_IDHash (t_ops t) (ro_key (b_ro b)) data of
        None \<Rightarrow> Some (Inl HashPanic, b)
      | Some cid \<Rightarrow>
          (let sz = length data; b1 = b\<lparr>b_stats := count_chunk (roType \<noteq> TypeArchiveStream \<or> countItemStreamSize b) (int sz) (b_stats b)\<rparr> in
           Option.bind (index_Get (b_index b1) cid) (\<lambda>seen.
             if seen \<noteq> None then Some (Inr \<lparr>cle_ID = cid, cle_Size = int sz\<rparr>, b1)
             else case Format (t_ops t) (t_codecs t) (t_rnd t) (b_ro b1) cid (Some \<lparr>rm_comp = new_meta [], rm_Type = roType\<rparr>) data of
               (Inl e, ro) \<Rightarrow> Some (Inl (FormatFailed e), b1\<lparr>b_ro := ro\<rparr>)
             | (Inr (obj, _), ro) \<Rightarrow> storeChunk t (b1\<lparr>b_ro := ro\<rparr>) cid obj sz)))"

definition ReuseChunk :: "'k builder \<Rightarrow> bytes \<Rightarrow> int \<Rightarrow> (chunk_list_entry option \<times> 'k builder) option" where
  "ReuseChunk b cid sz = Option.bind (index_Get (b_index b) cid) (\<lambda>seen.
     if seen = None then Some (None, b)
     else Some (Some \<lparr>cle_ID = cid, cle_Size = sz\<rparr>, b\<lparr>b_stats := count_chunk True sz (b_stats b)\<rparr>))"

definition AddCompressedChunk :: "'k tools \<Rightarrow> 'k builder \<Rightarrow> bytes \<Rightarrow> rmeta \<Rightarrow> bytes \<Rightarrow> nat \<Rightarrow> ((build_error + chunk_list_entry) \<times> 'k builder) option" where
  "AddCompressedChunk t b cid meta compressed sz =
     (let b1 = b\<lparr>b_stats := count_chunk True (int sz) (b_stats b)\<rparr> in
      Option.bind (index_Get (b_index b1) cid) (\<lambda>seen.
        if seen \<noteq> None then Some (Inr \<lparr>cle_ID = cid, cle_Size = int sz\<rparr>, b1)
        else case FormatCompressed (t_ops t) (b_ro b1) cid (Some meta) compressed of
          (Inl e, ro) \<Rightarrow> Some (Inl (FormatFailed e), b1\<lparr>b_ro := ro\<rparr>)
        | (Inr obj, ro) \<Rightarrow> storeChunk t (b1\<lparr>b_ro := ro\<rparr>) cid obj sz))"

section \<open>Files\<close>

definition chunkData :: "chunk \<Rightarrow> bytes" where
  "chunkData c = (if Allocation c = AllocData then (case Data c of Some d \<Rightarrow> d | None \<Rightarrow> []) else replicate (Size c) 0)"

text \<open>The cached chunker is the one that is used, so its state is put back when a file is done.\<close>

definition contentChunker :: "'k tools \<Rightarrow> 'k builder \<Rightarrow> params \<Rightarrow> uint32 \<Rightarrow> reader \<Rightarrow> build_error + chunker" where
  "contentChunker t b p seed r =
     (case chunkerCache b of
        Some (ch, p', seed') \<Rightarrow>
          if p' = p \<and> seed' = seed then Inr (chunker_Reset ch r)
          else map_sum NoChunker id (New_chunker (t_aes t) (t_base t) p (chunkerKey b) seed r)
      | None \<Rightarrow> map_sum NoChunker id (New_chunker (t_aes t) (t_base t) p (chunkerKey b) seed r))"

partial_function (option) chunkLoop :: "'k tools \<Rightarrow> chunker \<Rightarrow> 'k builder \<Rightarrow> chunk_list_entry list
    \<Rightarrow> ((build_error + chunk_list_entry list) \<times> chunker \<times> 'k builder) option" where
  "chunkLoop t ch b out = Option.bind (chunker_Next ch) (\<lambda>(ch', r).
     case r of
       EndOfStream \<Rightarrow> Some (Inr out, ch', b)
     | NextError e \<Rightarrow> Some (Inl (CutFailed e), ch', b)
     | Got c \<Rightarrow> Option.bind (AddChunk t b (chunkData c) TypeFileStream) (\<lambda>(res, b').
         case res of
           Inl e \<Rightarrow> Some (Inl e, ch', b')
         | Inr e \<Rightarrow> chunkLoop t ch' b' (out @ [e])))"

definition chunkFileSerial :: "'k tools \<Rightarrow> 'k builder \<Rightarrow> reader \<Rightarrow> ((build_error + chunk_list_entry list) \<times> 'k builder) option" where
  "chunkFileSerial t b r =
     (case contentChunker t b (chunkerParams b) (chunkSeed b) r of
        Inl e \<Rightarrow> Some (Inl e, b)
      | Inr ch \<Rightarrow> Option.bind (chunkLoop t ch b []) (\<lambda>(res, ch', b').
          Some (res, b'\<lparr>chunkerCache := Some (ch', chunkerParams b, chunkSeed b)\<rparr>)))"

section \<open>What was stored is read back\<close>

lemma pw_inv_sizes: "pw_inv Z sha n added w \<Longrightarrow> Z' \<subseteq> Z \<Longrightarrow> pw_inv Z' sha n added w"
  unfolding pw_inv_def pw_ok_def by (auto intro: in_step_sizes)

lemma pw_inv_absent: "pw_inv Z sha n added w \<Longrightarrow> ci_map (pw_index w) i = None \<Longrightarrow> pw_inv (insert i Z) sha n added w"
  unfolding pw_inv_def pw_ok_def by (auto intro: in_step_sizes)

lemma pw_inv_room: "pw_inv Z sha (n + m) added w \<Longrightarrow> pw_inv Z sha n added w"
  unfolding pw_inv_def pw_ok_def by (auto simp: tbl_room_def)

text \<open>An index with two more free places takes a new object and its size; afterwards the id is in the
  index, whether its pack was written or not.\<close>

lemma storeChunk_correct:
  assumes sha: "\<forall>b. length (t_sha t b) = 32" and inv: "pw_inv {} (t_sha t) (Suc (Suc n)) added (r_pw (b_repo b))"
    and cid: "length cid = 32" "ci_map (b_index b) cid = None" and sz: "sz < 2 ^ 32" and r: "r_opened (b_repo b)"
  shows "\<exists>res w' s. storeChunk t b cid obj sz = Some (res, b\<lparr>b_repo := (b_repo b)\<lparr>r_pw := w'\<rparr>, b_stats := s\<rparr>)
    \<and> pw_inv {} (t_sha t) n (insert (cid, obj) added) w'
    \<and> (no_failed (r_pw (b_repo b)) \<and> (\<forall>m. \<not> t_fails t m) \<and> length obj \<le> MaxDataSize \<longrightarrow> no_failed w' \<and> (\<exists>e. res = Inr e))
    \<and> (case res of Inl _ \<Rightarrow> True | Inr e \<Rightarrow> e = \<lparr>cle_ID = cid, cle_Size = int sz\<rparr> \<and> s = count_new (int sz) (b_stats b)
         \<and> dom (ci_map (pw_index w')) = insert cid (dom (ci_map (b_index b))))"
proof (cases "length obj > MaxDataSize")
  case True
  then have "storeChunk t b cid obj sz = Some (Inl (RepoFailed (ObjectTooLarge (length obj))), b)" using r by (simp add: storeChunk_def repo_Put_def)
  moreover have "pw_inv {} (t_sha t) n (insert (cid, obj) added) (r_pw (b_repo b))"
    using pw_inv_room [of "{}" "t_sha t" n 2 added] inv pw_ok_weaken [of "{}" "t_sha t" n added _ "insert (cid, obj) added"] by (auto simp: pw_inv_def)
  ultimately show ?thesis by (intro exI [of _ "Inl (RepoFailed (ObjectTooLarge (length obj)))"] exI [of _ "r_pw (b_repo b)"] exI [of _ "b_stats b"]) (use True in simp)
next
  case False
  let ?w = "r_pw (b_repo b)" and ?added = "insert (cid, obj) added"
  have "length obj < 2 ^ 31" using False by (simp add: MaxDataSize_def)
  from Add_correct [OF sha pw_inv_absent [OF inv cid(2)] cid(1) _ this, of "t_fails t"] obtain res w1 where
    a: "pack_Add (t_sha t) (t_fails t) ?w cid obj = Some (res, w1)" "pw_inv {cid} (t_sha t) (Suc n) ?added w1"
      "case res of Inl _ \<Rightarrow> True | Inr rs \<Rightarrow> dom (ci_map (pw_index w1)) = insert cid (dom (ci_map (pw_index ?w)))
         \<and> results_ok (foundc (t_sha t) ?added (pw_log w1)) (dom (ci_map (pw_index w1))) rs \<and> (cid \<in> waiting w1 \<or> cid \<in> prChunkID ` set rs)"
      "no_failed ?w \<and> (\<forall>m. \<not> t_fails t m) \<longrightarrow> no_failed w1 \<and> (\<exists>rs. res = Inr rs)" by blast
  show ?thesis
  proof (cases res)
    case (Inl e)
    then have "storeChunk t b cid obj sz = Some (Inl (RepoFailed (WriterFailed e)), b\<lparr>b_repo := (b_repo b)\<lparr>r_pw := w1\<rparr>\<rparr>)"
      using a(1) r False by (simp add: storeChunk_def repo_Put_def)
    moreover have "pw_inv {} (t_sha t) n ?added w1" using pw_inv_room [of "{}" _ n 1] pw_inv_sizes [OF a(2)] by simp
    ultimately show ?thesis by (intro exI [of _ "Inl (RepoFailed (WriterFailed e))"] exI [of _ w1] exI [of _ "b_stats b"]) (use a(4) Inl in simp)
  next
    case (Inr rs)
    let ?Q = "foundc (t_sha t) ?added (pw_log w1)"
    have st: "in_step {cid} ?Q (pw_index w1) (waiting w1)" "ci_room (Suc n) (pw_index w1)" using a(2) by (simp_all add: pw_inv_def pw_ok_def)
    have q: "results_ok ?Q (dom (ci_map (pw_index w1))) rs" "cid \<in> waiting w1 \<or> cid \<in> prChunkID ` set rs"
      "dom (ci_map (pw_index w1)) = insert cid (dom (ci_map (pw_index ?w)))" using a(3) Inr by auto
    have st0: "in_step {} ?Q (pw_index w1) (waiting w1)" using in_step_sizes [OF st(1), of "{}"] by simp
    have "\<not> size_conflict (ci_map (pw_index w1) cid) (word_of_nat sz)" using no_size_conflict [OF st(1)] by blast
    from in_step_add [OF st0 st(2) cid(1) this] obtain c2 where c2: "index_Add (pw_index w1) cid (word_of_nat sz) = Some (c2, Inr ())" "ci_room n c2"
      "in_step {} ?Q c2 (insert cid (waiting w1))" "dom (ci_map c2) = insert cid (dom (ci_map (pw_index w1)))" by blast
    have ids: "prChunkID ` set rs \<subseteq> dom (ci_map c2)" and good: "\<forall>r\<in>set rs. good_result ?Q r" using q(1) unfolding c2(4) results_ok_def by auto
    have "insert cid (waiting w1) - prChunkID ` set rs \<subseteq> waiting w1" using q(2) by blast
    from in_step_update [OF c2(3,2) ids good this subset_insertI] obtain c3 where c3: "UpdatePackInfo c2 rs = Some (c3, Inr ())" "ci_room n c3" "in_step {} ?Q c3 (waiting w1)" "dom (ci_map c3) = dom (ci_map c2)" by blast
    let ?w3 = "w1\<lparr>pw_index := c3\<rparr>" and ?s = "count_new (int sz) (b_stats b)"
    have "storeChunk t b cid obj sz = Some (Inr \<lparr>cle_ID = cid, cle_Size = int sz\<rparr>, b\<lparr>b_repo := (b_repo b)\<lparr>r_pw := ?w3\<rparr>, b_stats := ?s\<rparr>)"
      using a(1) Inr r False sz c2(1) c3(1) by (simp add: storeChunk_def repo_Put_def set_index_def)
    moreover have "pw_inv {} (t_sha t) n ?added ?w3" using a(2) c3 by (simp add: pw_inv_def pw_ok_def waiting_def)
    moreover have "dom (ci_map (pw_index ?w3)) = insert cid (dom (ci_map (b_index b)))" using c3(4) c2(4) q(3) by simp
    moreover have "no_failed ?w3 = no_failed w1" by (simp add: no_failed_def)
    ultimately show ?thesis using a(4) by (intro exI [of _ "Inr \<lparr>cle_ID = cid, cle_Size = int sz\<rparr>"] exI [of _ ?w3] exI [of _ ?s]) simp
  qed
qed

section \<open>Chunks\<close>

text \<open>An object that every reader with the same key reads as given data of a given type.\<close>

definition reads_as :: "'k key_ops \<Rightarrow> codecs \<Rightarrow> ('k \<Rightarrow> bool) \<Rightarrow> ('k \<Rightarrow> 'k \<Rightarrow> bool) \<Rightarrow> 'k \<Rightarrow> bytes \<Rightarrow> bytes \<Rightarrow> bytes \<Rightarrow> string \<Rightarrow> bool" where
  "reads_as ops cd good same k cid obj d ty \<longleftrightarrow> (\<forall>r want opts. good (ro_key r) \<and> same k (ro_key r) \<and> (want = TypeDontCare \<or> want = ty)
     \<and> \<not> WantCompressed opts \<and> \<not> SkipDecompress opts \<longrightarrow>
     (\<exists>m r'. Parse ops cd r cid obj want opts = Some (Inr (m, d), r') \<and> rm_Type m = ty \<and> good (ro_key r') \<and> same k (ro_key r')))"

definition bld_inv :: "'k tools \<Rightarrow> ('k \<Rightarrow> bool) \<Rightarrow> ('k \<Rightarrow> 'k \<Rightarrow> bool) \<Rightarrow> 'k \<Rightarrow> (bytes \<times> string) set \<Rightarrow> nat \<Rightarrow> 'k builder \<Rightarrow> bool" where
  "bld_inv t good same k H n b \<longleftrightarrow> r_opened (b_repo b) \<and> r_cache (b_repo b) = newPackCache 3 \<and> wf_comp (ro_compressor (b_ro b))
     \<and> good (ro_key (b_ro b)) \<and> same k (ro_key (b_ro b))
     \<and> (\<exists>added. pw_inv {} (t_sha t) n added (r_pw (b_repo b))
         \<and> (\<forall>(i, obj)\<in>added. \<exists>(d, ty)\<in>H. key_IDHash (t_ops t) k d = Some i \<and> reads_as (t_ops t) (t_codecs t) good same k i obj d ty))"

lemma bld_inv_mono: "bld_inv t good same k H (n + m) b \<Longrightarrow> H \<subseteq> H' \<Longrightarrow> bld_inv t good same k H' n b"
  unfolding bld_inv_def by (auto intro: pw_inv_room) (blast intro: pw_inv_room)

definition setup_ok :: "'k builder \<Rightarrow> bool" where
  "setup_ok b \<longleftrightarrow> ChunkMinExp (chunkerParams b) \<le> 62 \<and> WindowSize (chunkerParams b) \<le> 2 ^ 62
     \<and> (\<forall>ch p s. chunkerCache b = Some (ch, p, s) \<longrightarrow> chunker_ready ch)"

context repo_key
begin

lemma assemble_keeps:
  assumes "inv (ro_key r)" "assemble (ops_of enc dec idhash auth) r cid mt c = (res, r')"
  shows "inv (ro_key r') \<and> same (ro_key r) (ro_key r') \<and> r' = r\<lparr>ro_key := ro_key r'\<rparr>"
proof -
  obtain e1 k1 where e1: "enc (ro_key r) cid c (headerAAD cid @ dataAADTag) = (e1, k1)" by fastforce
  have k1: "inv k1" "same (ro_key r) k1" using enc_keeps [OF assms(1) e1] by auto
  consider "ro_key r' = k1" "r' = r\<lparr>ro_key := k1\<rparr>"
    | mp e2 where "r' = r\<lparr>ro_key := ro_key r'\<rparr>" "enc k1 cid mp (headerAAD cid @ metaAADTag) = (e2, ro_key r')"
    using assms(2) e1 by (auto simp: assemble_def ops_of_def Let_def split: sum.splits prod.splits)
  then show ?thesis
  proof cases
    case 2
    then have "inv (ro_key r')" "same k1 (ro_key r')" using enc_keeps [OF k1(1)] by auto
    then show ?thesis using 2(1) k1(2) same_trans by blast
  qed (use k1 in simp)
qed

lemma Format_reads:
  assumes cd: "codecs_ok cd" "wf_comp (ro_compressor r)" and k: "inv (ro_key r)" "same k (ro_key r)"
    and cid: "length cid = 32" "idhash k data = Some cid" and ty: "length ty < 32"
    and f: "Format (ops_of enc dec idhash auth) cd rnd r cid (Some \<lparr>rm_comp = new_meta [], rm_Type = ty\<rparr>) data = (res, r')"
  shows "inv (ro_key r') \<and> same k (ro_key r') \<and> r' = r\<lparr>ro_key := ro_key r'\<rparr>
    \<and> (\<forall>obj m. res = Inr (obj, m) \<longrightarrow> length data \<le> MaxDataSize \<and> reads_as (ops_of enc dec idhash auth) cd inv same k cid obj data ty)"
proof -
  let ?ops = "ops_of enc dec idhash auth" and ?mt = "\<lparr>rm_comp = new_meta [], rm_Type = ty\<rparr>"
  consider "r' = r" "\<forall>x. res \<noteq> Inr x"
    | c m ares where "length data \<le> MaxDataSize" "comp_Compress cd rnd (ro_compressor r) (new_meta []) data = Inr (c, m)"
        "assemble ?ops r cid (?mt\<lparr>rm_comp := m\<rparr>) c = (ares, r')" "res = map_sum id (\<lambda>obj. (obj, ?mt\<lparr>rm_comp := m\<rparr>)) ares"
    using f by (auto simp: Format_def Let_def map_prod_def split: if_splits sum.splits prod.splits)
  then show ?thesis
  proof cases
    case 1
    then show ?thesis using k by simp
  next
    case 2
    define mt where "mt = ?mt\<lparr>rm_comp := m\<rparr>"
    have n: "PSize (new_meta []) = None" "OLevel (new_meta []) = None" by (simp_all add: new_meta_def)
    have b: "meta_in_bounds data c m" using compress_bounds [OF cd(1) n 2(1) cd(2) 2(2)] .
    have fits: "meta_fits mt" using in_bounds_fits [OF b 2(1), of ?mt] ty by (simp add: mt_def)
    have c: "length c \<le> MaxDataSize" using b by (simp add: meta_in_bounds_def)
    have plain: "Decompress cd (rm_comp mt) c = Some (Inr data)" using compress_Decompress [OF cd(1) n(1) cd(2) 2(2)] by (simp add: mt_def)
    note a = 2(3) [folded mt_def]
    have reads: "reads_as ?ops cd inv same k cid obj data ty" if o: "ares = Inr obj" for obj
      unfolding reads_as_def
    proof (intro allI impI, elim conjE)
      fix r2 :: "'k repo_obj" and want and opts :: parse_options
      assume r2: "inv (ro_key r2)" "same k (ro_key r2)" "want = TypeDontCare \<or> want = ty" "\<not> WantCompressed opts" "\<not> SkipDecompress opts"
      have s: "same (ro_key r) (ro_key r2)" using k(2) r2(2) same_sym same_trans by blast
      have i: "cid = ManifestID \<or> idhash (ro_key r2) data = Some cid" using cid(2) same_idhash [OF r2(2)] by simp
      have w: "want = TypeDontCare \<or> want = rm_Type mt" using r2(3) by (simp add: mt_def)
      from Parse_assemble [OF k(1) r2(1) s cid(1) fits c a [unfolded o] w plain i, of opts] r2(4,5)
      show "\<exists>m r3. Parse ?ops cd r2 cid obj want opts = Some (Inr (m, data), r3) \<and> rm_Type m = ty \<and> inv (ro_key r3) \<and> same k (ro_key r3)"
        using same_trans [OF r2(2)] by (auto simp: meta_read_def mt_def)
    qed
    show ?thesis using assemble_keeps [OF k(1) a] same_trans [OF k(2)] reads 2(1,4) by (cases ares) auto
  qed
qed

text \<open>A builder on a new repository.\<close>

lemma NewBuilder_inv:
  assumes w: "NewChunkIndex usable = Some (Inr c)" "usable < 2 ^ 30" "NewPackWriter c mc ms async = Inr w" "0 < ms" "ms \<le> 2 ^ 31"
    and b: "NewBuilder t (open_repository w) ro opts = Inr b" and ro: "inv (ro_key ro)"
    and opts: "pred_option wf_comp (bo_Compressor opts)" "ChunkMinExp (bo_ChunkerParams opts) \<le> 62" "WindowSize (bo_ChunkerParams opts) \<le> 2 ^ 62" and n: "n \<le> 2 ^ 29"
  shows "bld_inv t inv same (ro_key ro) {} n b" "setup_ok b" "no_failed (r_pw (b_repo b))" "ro_key (b_ro b) = ro_key ro" "b_repo b = open_repository w"
proof -
  obtain c' where c': "NewChunkIndex usable = Some (Inr c')" "ci_inv c'" "ci_map c' = Map.empty" "ci_room (2 ^ 29) c'" using NewChunkIndex_correct [OF w(2)] by metis
  have c: "ci_inv c" "ci_map c = Map.empty" "ci_room n c" using c' w(1) n by (simp_all add: tbl_room_def)
  have w': "pw_index w = c" "pw_log w = []" "pw_pieces w = []" "pw_size w = 0" "pw_inflight w = None" "pack_writer.maxSize w = ms" using w(3) by (auto simp: NewPackWriter_def split: if_splits)
  have "FromSpec ''lz4'' = Inr CLZ4" by (simp add: FromSpec_def) code_simp
  then have b': "b_repo b = open_repository w" "wf_comp (ro_compressor (b_ro b))" "ro_key (b_ro b) = ro_key ro" "chunkerCache b = None"
    "chunkerParams b = (if Algorithm (bo_ChunkerParams opts) = [] then DefaultParams else bo_ChunkerParams opts)"
    using b opts(1) by (auto simp: NewBuilder_def bind_res_Inr SetCompressor_def Let_def split: option.splits)
  have "pw_inv {} (t_sha t) n {} w" using w' c w(4,5) by (simp add: pw_inv_def pw_ok_def in_step_def waiting_def)
  then show "bld_inv t inv same (ro_key ro) {} n b" using b' ro same_refl by (simp add: bld_inv_def open_repository_def) (rule exI [of _ "{}"], simp)
  show "setup_ok b" using b'(4,5) opts(2,3) by (simp add: setup_ok_def DefaultParams_def no_params_def)
  show "no_failed (r_pw (b_repo b))" using w'(5) b'(1) by (simp add: no_failed_def open_repository_def)
  show "ro_key (b_ro b) = ro_key ro" "b_repo b = open_repository w" using b' by simp_all
qed

text \<open>Adding a chunk keeps the invariant whatever happens; when it succeeds the id is in the index.\<close>

lemma AddChunk_correct:
  assumes t: "t_ops t = ops_of enc dec idhash auth" "codecs_ok (t_codecs t)" "\<forall>b. length (t_sha t b) = 32"
    and ids: "\<forall>d i. idhash k d = Some i \<longrightarrow> length i = 32" and ty: "length ty < 32"
    and inv: "bld_inv t inv same k H (Suc (Suc n)) b"
  shows "\<exists>res rp ro s b'. AddChunk t b d ty = Some (res, b') \<and> b' = b\<lparr>b_repo := rp, b_ro := ro, b_stats := s\<rparr>
    \<and> bld_inv t inv same k (insert (d, ty) H) n b'
    \<and> (case res of Inl _ \<Rightarrow> True | Inr e \<Rightarrow> idhash k d = Some (cle_ID e) \<and> cle_Size e = int (length d)
         \<and> dom (ci_map (b_index b')) = insert (cle_ID e) (dom (ci_map (b_index b))))
    \<and> (no_failed (r_pw (b_repo b)) \<and> (\<forall>m. \<not> t_fails t m)
         \<and> (\<exists>cid obj m ro'. idhash k d = Some cid \<and> length obj \<le> MaxDataSize
             \<and> Format (t_ops t) (t_codecs t) (t_rnd t) (b_ro b) cid (Some \<lparr>rm_comp = new_meta [], rm_Type = ty\<rparr>) d = (Inr (obj, m), ro'))
         \<longrightarrow> no_failed (r_pw (b_repo b')) \<and> (\<exists>e. res = Inr e))"
proof -
  obtain added where b: "r_opened (b_repo b)" "r_cache (b_repo b) = newPackCache 3" "wf_comp (ro_compressor (b_ro b))" "inv (ro_key (b_ro b))" "same k (ro_key (b_ro b))"
      "pw_inv {} (t_sha t) (Suc (Suc n)) added (r_pw (b_repo b))"
      "\<forall>(i, obj)\<in>added. \<exists>(d, ty)\<in>H. idhash k d = Some i \<and> reads_as (t_ops t) (t_codecs t) inv same k i obj d ty"
    using inv by (auto simp: bld_inv_def t(1) ops_of_def)
  have w: "bld_inv t inv same k (insert (d, ty) H) n b" using bld_inv_mono [of t inv same k H n 2 b] inv by auto
  have same_h: "idhash (ro_key (b_ro b)) d = idhash k d" using same_idhash [OF b(5)] by simp
  have ops: "key_IDHash (t_ops t) = idhash" by (simp add: t(1) ops_of_def)
  show ?thesis
  proof (cases "idhash k d")
    case None
    then show ?thesis using w by (intro exI [of _ "Inl HashPanic"] exI [of _ "b_repo b"] exI [of _ "b_ro b"] exI [of _ "b_stats b"] exI [of _ b])
      (simp add: AddChunk_def ops same_h None)
  next
    case (Some cid)
    have cid: "length cid = 32" using ids Some by blast
    define s1 where "s1 = count_chunk (ty \<noteq> TypeArchiveStream \<or> countItemStreamSize b) (int (length d)) (b_stats b)"
    define b1 where "b1 = b\<lparr>b_stats := s1\<rparr>"
    have inv1: "bld_inv t inv same k (insert (d, ty) H) n b1" using w by (simp add: bld_inv_def b1_def)
    have "ci_inv (b_index b)" using b(6) by (simp add: pw_inv_def pw_ok_def in_step_def)
    then have g: "index_Get (b_index b) cid = Some (map_option hideSystemFlags (ci_map (b_index b) cid))"
      using index_Get_correct [of "b_index b" cid] cid by (simp add: ChunkIDSize_def)
    show ?thesis
    proof (cases "ci_map (b_index b) cid")
      case seen: (Some e)
      let ?e = "\<lparr>cle_ID = cid, cle_Size = int (length d)\<rparr>"
      have "AddChunk t b d ty = Some (Inr ?e, b1)"
        using g seen Some by (simp add: AddChunk_def ops same_h Let_def b1_def s1_def)
      moreover have "dom (ci_map (b_index b1)) = insert cid (dom (ci_map (b_index b)))" using seen by (auto simp: b1_def)
      ultimately show ?thesis using inv1 Some
        by (intro exI [of _ "Inr ?e"] exI [of _ "b_repo b"] exI [of _ "b_ro b"] exI [of _ s1] exI [of _ b1]) (simp add: b1_def)
    next
      case new: None
      obtain fres ro where f: "Format (t_ops t) (t_codecs t) (t_rnd t) (b_ro b) cid (Some \<lparr>rm_comp = new_meta [], rm_Type = ty\<rparr>) d = (fres, ro)" by fastforce
      note fr = Format_reads [OF t(2) b(3,4,5) cid Some ty f [unfolded t(1)]]
      then have ro: "inv (ro_key ro)" "same k (ro_key ro)" "ro = (b_ro b)\<lparr>ro_key := ro_key ro\<rparr>" by blast+
      have comp: "wf_comp (ro_compressor ro)" using b(3) by (subst ro(3)) simp
      let ?b2 = "b1\<lparr>b_ro := ro\<rparr>"
      have add: "AddChunk t b d ty = (case fres of Inl e \<Rightarrow> Some (Inl (FormatFailed e), ?b2) | Inr (obj, m) \<Rightarrow> storeChunk t ?b2 cid obj (length d))"
        using g new Some f by (simp add: AddChunk_def ops same_h Let_def b1_def s1_def split: sum.split prod.split)
      have inv2: "bld_inv t inv same k (insert (d, ty) H) n ?b2" using inv1 ro comp by (simp add: bld_inv_def)
      show ?thesis
      proof (cases fres)
        case (Inl e)
        then show ?thesis using add inv2
          by (intro exI [of _ "Inl (FormatFailed e)"] exI [of _ "b_repo b"] exI [of _ ro] exI [of _ s1] exI [of _ ?b2]) (use Some f in \<open>simp add: b1_def\<close>)
      next
        case (Inr x)
        obtain obj m where x: "x = (obj, m)" by fastforce
        have rd: "length d \<le> MaxDataSize" "reads_as (t_ops t) (t_codecs t) inv same k cid obj d ty" using fr Inr x t(1) by auto
        have "pw_inv {} (t_sha t) (Suc (Suc n)) added (r_pw (b_repo ?b2))" "ci_map (b_index ?b2) cid = None" "length d < 2 ^ 32" "r_opened (b_repo ?b2)"
          using b(1,6) new rd(1) by (simp_all add: b1_def MaxDataSize_def)
        from storeChunk_correct [OF t(3) this(1) cid this(2-4), of obj] obtain res w' s where
          st: "storeChunk t ?b2 cid obj (length d) = Some (res, ?b2\<lparr>b_repo := (b_repo ?b2)\<lparr>r_pw := w'\<rparr>, b_stats := s\<rparr>)"
            "pw_inv {} (t_sha t) n (insert (cid, obj) added) w'"
            "case res of Inl _ \<Rightarrow> True | Inr e \<Rightarrow> e = \<lparr>cle_ID = cid, cle_Size = int (length d)\<rparr> \<and> s = count_new (int (length d)) (b_stats ?b2)
               \<and> dom (ci_map (pw_index w')) = insert cid (dom (ci_map (b_index ?b2)))"
            "no_failed (r_pw (b_repo ?b2)) \<and> (\<forall>m. \<not> t_fails t m) \<and> length obj \<le> MaxDataSize \<longrightarrow> no_failed w' \<and> (\<exists>e. res = Inr e)" by blast
        let ?rp = "(b_repo b)\<lparr>r_pw := w'\<rparr>"
        let ?b' = "b\<lparr>b_repo := ?rp, b_ro := ro, b_stats := s\<rparr>"
        have good: "\<forall>(i, ob)\<in>insert (cid, obj) added. \<exists>(d', ty')\<in>insert (d, ty) H. key_IDHash (t_ops t) k d' = Some i
            \<and> reads_as (t_ops t) (t_codecs t) inv same k i ob d' ty'"
          using b(7) rd(2) Some ops by fastforce
        have "bld_inv t inv same k (insert (d, ty) H) n ?b'"
          using b(1,2) ro(1,2) comp st(2) good by (auto simp: bld_inv_def intro!: exI [of _ "insert (cid, obj) added"])
        moreover have "AddChunk t b d ty = Some (res, ?b')" using add Inr x st(1) by (simp add: b1_def)
        moreover have "case res of Inl _ \<Rightarrow> True | Inr e \<Rightarrow> idhash k d = Some (cle_ID e) \<and> cle_Size e = int (length d)
            \<and> dom (ci_map (b_index ?b')) = insert (cle_ID e) (dom (ci_map (b_index b)))"
          using st(3) Some by (cases res) (auto simp: b1_def)
        moreover have "no_failed (r_pw (b_repo ?b')) \<and> (\<exists>e. res = Inr e)"
          if "no_failed (r_pw (b_repo b))" "\<forall>m. \<not> t_fails t m" "idhash k d = Some cid'" "length obj' \<le> MaxDataSize"
            "Format (t_ops t) (t_codecs t) (t_rnd t) (b_ro b) cid' (Some \<lparr>rm_comp = new_meta [], rm_Type = ty\<rparr>) d = (Inr (obj', m'), ro')" for cid' obj' m' ro'
          using that st(4) f Inr x Some by (simp add: b1_def)
        ultimately show ?thesis by (intro exI [of _ res] exI [of _ ?rp] exI [of _ ro] exI [of _ s] exI [of _ ?b']) blast
      qed
    qed
  qed
qed

end

section \<open>Backups\<close>

lemma chunkData_classify [simp]: "chunkData (classify d) = d"
  using classify_bytes [of d] by (auto simp: chunkData_def classify_def chunk_bytes_def)

lemma chunker_Next_ready: "chunker_ready ch \<Longrightarrow> chunker_Next ch = Some (ch', x) \<Longrightarrow> chunker_ready ch'"
  by (cases ch) (auto simp: fastcdc_Next_def buzhash64_Next_def buzhash_Next_def fixed_Next_def chunk_next_def fastcdc_step_def buzhash64_step_def
    buzhash_step_def fixed_step_def Let_def split: if_splits prod.splits)

text \<open>What a run of the builder may write: a file contributes pieces of its content.\<close>

datatype build_op = BFile reader | BChunk bytes string | BFlush

fun build_step :: "'k tools \<Rightarrow> 'k builder \<Rightarrow> build_op \<Rightarrow> ((build_error + chunk_list_entry list) \<times> 'k builder) option" where
  "build_step t b (BFile r) = chunkFileSerial t b r"
| "build_step t b (BChunk d ty) = Option.bind (AddChunk t b d ty) (\<lambda>(res, b'). Some (map_sum id (\<lambda>e. [e]) res, b'))"
| "build_step t b BFlush = Option.bind (repo_Flush (t_sha t) (t_fails t) (b_repo b)) (\<lambda>(res, r). Some (map_sum RepoFailed (\<lambda>_. []) res, b\<lparr>b_repo := r\<rparr>))"

fun build_run :: "'k tools \<Rightarrow> 'k builder \<Rightarrow> build_op list \<Rightarrow> ((build_error + chunk_list_entry list) list \<times> 'k builder) option" where
  "build_run t b [] = Some ([], b)"
| "build_run t b (x # xs) = Option.bind (build_step t b x) (\<lambda>(res, b'). Option.bind (build_run t b' xs) (\<lambda>(rs, b''). Some (res # rs, b'')))"

fun op_content :: "build_op \<Rightarrow> bytes" where
  "op_content (BFile r) = rdata r"
| "op_content (BChunk d ty) = d"
| "op_content BFlush = []"

fun op_writes :: "build_op \<Rightarrow> (bytes \<times> string) set" where
  "op_writes (BFile r) = {(d, TypeFileStream) |d. sublist d (rdata r)}"
| "op_writes (BChunk d ty) = {(d, ty)}"
| "op_writes BFlush = {}"

fun op_room :: "build_op \<Rightarrow> nat" where
  "op_room (BFile r) = 2 * length (rdata r)"
| "op_room (BChunk d ty) = 2"
| "op_room BFlush = 0"

fun build_op_ok :: "build_op \<Rightarrow> bool" where
  "build_op_ok (BFile r) \<longleftrightarrow> \<not> rfails r"
| "build_op_ok (BChunk d ty) \<longleftrightarrow> length ty < 32"
| "build_op_ok BFlush \<longleftrightarrow> True"

definition entries_for :: "(bytes \<Rightarrow> bytes option) \<Rightarrow> bytes set \<Rightarrow> (bytes \<times> string) set \<Rightarrow> string \<Rightarrow> bytes \<Rightarrow> chunk_list_entry list \<Rightarrow> bool" where
  "entries_for h D H ty content es \<longleftrightarrow> (\<exists>bs. concat bs = content \<and> (\<forall>d\<in>set bs. (d, ty) \<in> H)
     \<and> list_all2 (\<lambda>d e. h d = Some (cle_ID e) \<and> cle_Size e = int (length d) \<and> cle_ID e \<in> D) bs es)"

lemma entries_for_mono: "entries_for h D H ty content es \<Longrightarrow> D \<subseteq> D' \<Longrightarrow> H \<subseteq> H' \<Longrightarrow> entries_for h D' H' ty content es"
  unfolding entries_for_def by (blast intro: list_all2_mono)

lemma entries_for_snoc:
  assumes "entries_for h D H ty c es" "h d = Some (cle_ID e)" "cle_Size e = int (length d)"
  shows "entries_for h (insert (cle_ID e) D) (insert (d, ty) H) ty (c @ d) (es @ [e])"
proof -
  have "entries_for h (insert (cle_ID e) D) (insert (d, ty) H) ty c es" using assms(1) by (rule entries_for_mono) auto
  then obtain bs where "concat bs = c" "\<forall>x\<in>set bs. (x, ty) \<in> insert (d, ty) H"
    "list_all2 (\<lambda>d' e'. h d' = Some (cle_ID e') \<and> cle_Size e' = int (length d') \<and> cle_ID e' \<in> insert (cle_ID e) D) bs es" unfolding entries_for_def by blast
  then show ?thesis using assms(2,3) unfolding entries_for_def by (intro exI [of _ "bs @ [d]"]) (simp add: list_all2_appendI)
qed

definition same_setup :: "'k builder \<Rightarrow> 'k builder \<Rightarrow> bool" where
  "same_setup b b' \<longleftrightarrow> chunkerParams b' = chunkerParams b \<and> chunkerKey b' = chunkerKey b \<and> chunkSeed b' = chunkSeed b \<and> chunkerCache b' = chunkerCache b"

definition step_result :: "(bytes \<Rightarrow> bytes option) \<Rightarrow> bytes set \<Rightarrow> (bytes \<times> string) set \<Rightarrow> build_op \<Rightarrow> (build_error + chunk_list_entry list) \<Rightarrow> bool" where
  "step_result h D H x res \<longleftrightarrow> (case res of Inl _ \<Rightarrow> False | Inr es \<Rightarrow> (case x of BFile r \<Rightarrow> entries_for h D H TypeFileStream (rdata r) es
     | BChunk d ty \<Rightarrow> entries_for h D H ty d es | BFlush \<Rightarrow> True))"

lemma step_result_mono: "step_result h D H x res \<Longrightarrow> D \<subseteq> D' \<Longrightarrow> H \<subseteq> H' \<Longrightarrow> step_result h D' H' x res"
  by (auto simp: step_result_def intro: entries_for_mono split: sum.splits build_op.splits)

context repo_key
begin

lemma chunkLoop_correct:
  assumes t: "t_ops t = ops_of enc dec idhash auth" "codecs_ok (t_codecs t)" "\<forall>b. length (t_sha t b) = 32"
    and ids: "\<forall>d i. idhash k d = Some i \<longrightarrow> length i = 32"
  shows "chunker_inv ch \<Longrightarrow> bld_inv t inv same k H (n + 2 * length (chunker_rest ch)) b \<Longrightarrow>
      entries_for (idhash k) (dom (ci_map (b_index b))) H TypeFileStream pre out \<Longrightarrow>
    \<exists>res ch' b'. chunkLoop t ch b out = Some (res, ch', b') \<and> chunker_ready ch' \<and> same_setup b b'
      \<and> bld_inv t inv same k (H \<union> {(d, TypeFileStream) |d. sublist d (chunker_rest ch)}) n b'
      \<and> (case res of Inl _ \<Rightarrow> True | Inr es \<Rightarrow> dom (ci_map (b_index b)) \<subseteq> dom (ci_map (b_index b'))
           \<and> entries_for (idhash k) (dom (ci_map (b_index b'))) (H \<union> {(d, TypeFileStream) |d. sublist d (chunker_rest ch)}) TypeFileStream (pre @ chunker_rest ch) es)"
proof (induction "length (chunker_rest ch)" arbitrary: ch H b pre out rule: less_induct)
  case less
  have ready: "chunker_ready ch'" if "chunker_Next ch = Some (ch', x)" for ch' x
    using chunker_Next_ready [OF chunker_inv_ready [OF less.prems(1)] that] .
  show ?case
  proof (cases "chunker_rest ch = []")
    case True
    then obtain ch' where "chunker_step ch = Some (ch', AtEOF)" using chunkers.source_end [OF less.prems(1)] by blast
    then have e: "chunker_Next ch = Some (ch', EndOfStream)" by (simp add: chunker_Next_step chunk_next_def)
    let ?H = "H \<union> {(d, TypeFileStream) |d. sublist d (chunker_rest ch)}"
    have "bld_inv t inv same k ?H n b" using bld_inv_mono [OF less.prems(2)] by blast
    moreover have "entries_for (idhash k) (dom (ci_map (b_index b))) ?H TypeFileStream pre out" by (rule entries_for_mono [OF less.prems(3)]) auto
    then have "entries_for (idhash k) (dom (ci_map (b_index b))) ?H TypeFileStream (pre @ chunker_rest ch) out" using True by simp
    ultimately show ?thesis using e ready [OF e]
      by (intro exI [of _ "Inr out"] exI [of _ ch'] exI [of _ b]) (subst chunkLoop.simps, simp add: same_setup_def)
  next
    case False
    then obtain ch' d where st: "chunker_step ch = Some (ch', Piece d)" "chunker_inv ch'" "d \<noteq> []" "chunker_rest ch = d @ chunker_rest ch'"
      using chunkers.source_piece [OF less.prems(1)] by blast
    then have e: "chunker_Next ch = Some (ch', Got (classify d))" by (simp add: chunker_Next_step chunk_next_def)
    let ?R = "chunker_rest ch'" and ?F = "\<lambda>x. {(d, TypeFileStream) |d. sublist d x}"
    define m where "m = n + 2 * length ?R"
    have tyF: "length TypeFileStream < 32" by (simp add: TypeFileStream_def)
    have len: "length (chunker_rest ch) = length d + length ?R" "0 < length d" using st(3,4) by simp_all
    then have "n + 2 * length (chunker_rest ch) = Suc (Suc m) + (2 * length d - 2)" unfolding m_def by linarith
    then obtain j where "n + 2 * length (chunker_rest ch) = Suc (Suc m) + j" by blast
    then have "bld_inv t inv same k H (Suc (Suc m)) b" using bld_inv_mono [of t inv same k H "Suc (Suc m)" j b H] less.prems(2) by simp
    from AddChunk_correct [OF t ids tyF this, of d] obtain res rp ro s b1 where
      a: "AddChunk t b d TypeFileStream = Some (res, b1)" "b1 = b\<lparr>b_repo := rp, b_ro := ro, b_stats := s\<rparr>" "bld_inv t inv same k (insert (d, TypeFileStream) H) m b1"
        "case res of Inl _ \<Rightarrow> True | Inr e \<Rightarrow> idhash k d = Some (cle_ID e) \<and> cle_Size e = int (length d)
         \<and> dom (ci_map (b_index b1)) = insert (cle_ID e) (dom (ci_map (b_index b)))" by blast
    have stp: "same_setup b b1" using a(2) by (simp add: same_setup_def)
    have sub: "insert (d, TypeFileStream) H \<union> ?F ?R \<subseteq> H \<union> ?F (chunker_rest ch)" using st(4) by (auto intro: sublist_order.order.trans [OF _ sublist_append_leftI])
    show ?thesis
    proof (cases res)
      case (Inl err)
      have "bld_inv t inv same k (H \<union> ?F (chunker_rest ch)) n b1"
        using bld_inv_mono [OF a(3) [unfolded m_def]] sub by blast
      then show ?thesis using e a(1) Inl ready [OF e] stp
        by (intro exI [of _ "Inl err"] exI [of _ ch'] exI [of _ b1]) (subst chunkLoop.simps, simp)
    next
      case (Inr en)
      then have q: "idhash k d = Some (cle_ID en)" "cle_Size en = int (length d)" "dom (ci_map (b_index b1)) = insert (cle_ID en) (dom (ci_map (b_index b)))"
        using a(4) by auto
      have ent: "entries_for (idhash k) (dom (ci_map (b_index b1))) (insert (d, TypeFileStream) H) TypeFileStream (pre @ d) (out @ [en])"
        unfolding q(3) by (rule entries_for_snoc [OF less.prems(3) q(1,2)])
      have "length ?R < length (chunker_rest ch)" using len by simp
      from less.hyps [OF this st(2) a(3) [unfolded m_def] ent] obtain res2 ch2 b2 where
        i: "chunkLoop t ch' b1 (out @ [en]) = Some (res2, ch2, b2)" "chunker_ready ch2" "same_setup b1 b2"
          "bld_inv t inv same k (insert (d, TypeFileStream) H \<union> ?F ?R) n b2"
          "case res2 of Inl _ \<Rightarrow> True | Inr es \<Rightarrow> dom (ci_map (b_index b1)) \<subseteq> dom (ci_map (b_index b2))
           \<and> entries_for (idhash k) (dom (ci_map (b_index b2))) (insert (d, TypeFileStream) H \<union> ?F ?R) TypeFileStream ((pre @ d) @ ?R) es" by blast
      have "chunkLoop t ch b out = Some (res2, ch2, b2)" using e a(1) Inr i(1) by (subst chunkLoop.simps) simp
      moreover have "bld_inv t inv same k (H \<union> ?F (chunker_rest ch)) n b2" using bld_inv_mono [of t inv same k _ n 0 b2, OF _ sub] i(4) by simp
      moreover have "same_setup b b2" using stp i(3) by (simp add: same_setup_def)
      moreover have "case res2 of Inl _ \<Rightarrow> True | Inr es \<Rightarrow> dom (ci_map (b_index b)) \<subseteq> dom (ci_map (b_index b2))
           \<and> entries_for (idhash k) (dom (ci_map (b_index b2))) (H \<union> ?F (chunker_rest ch)) TypeFileStream (pre @ chunker_rest ch) es"
        using i(5) q(3) st(4) entries_for_mono [OF _ order_refl sub] by (cases res2) auto
      ultimately show ?thesis using i(2) by blast
    qed
  qed
qed

lemma contentChunker_inv:
  assumes "setup_ok b" "contentChunker t b (chunkerParams b) seed r = Inr ch" "\<not> rfails r"
  shows "chunker_inv ch \<and> chunker_rest ch = rdata r"
proof -
  consider ch0 p s where "chunkerCache b = Some (ch0, p, s)" "ch = chunker_Reset ch0 r"
    | "New_chunker (t_aes t) (t_base t) (chunkerParams b) (chunkerKey b) seed r = Inr ch"
    using assms(2) by (cases "New_chunker (t_aes t) (t_base t) (chunkerParams b) (chunkerKey b) seed r")
      (auto simp: contentChunker_def split: option.splits if_splits prod.splits)
  then show ?thesis
  proof cases
    case 1
    then have "chunker_ready ch0" using assms(1) by (simp add: setup_ok_def)
    then show ?thesis using chunker_Reset_inv [OF _ assms(3)] 1(2) by simp
  next
    case 2
    then show ?thesis using New_chunker_inv [OF 2 _ _ assms(3)] assms(1) by (simp add: setup_ok_def)
  qed
qed

lemma chunkFileSerial_correct:
  assumes t: "t_ops t = ops_of enc dec idhash auth" "codecs_ok (t_codecs t)" "\<forall>b. length (t_sha t b) = 32"
    and ids: "\<forall>d i. idhash k d = Some i \<longrightarrow> length i = 32" and b: "setup_ok b" "bld_inv t inv same k H (n + 2 * length (rdata r)) b" and r: "\<not> rfails r"
  shows "\<exists>res b'. chunkFileSerial t b r = Some (res, b') \<and> setup_ok b' \<and> bld_inv t inv same k (H \<union> op_writes (BFile r)) n b'
      \<and> (case res of Inl _ \<Rightarrow> True | Inr es \<Rightarrow> dom (ci_map (b_index b)) \<subseteq> dom (ci_map (b_index b'))
           \<and> entries_for (idhash k) (dom (ci_map (b_index b'))) (H \<union> op_writes (BFile r)) TypeFileStream (rdata r) es)"
proof (cases "contentChunker t b (chunkerParams b) (chunkSeed b) r")
  case (Inl e)
  then show ?thesis using b bld_inv_mono [OF b(2), of "H \<union> op_writes (BFile r)"]
    by (intro exI [of _ "Inl e"] exI [of _ b]) (simp add: chunkFileSerial_def)
next
  case (Inr ch)
  have ch: "chunker_inv ch" "chunker_rest ch = rdata r" using contentChunker_inv [OF b(1) Inr r] by auto
  have "entries_for (idhash k) (dom (ci_map (b_index b))) H TypeFileStream [] []" by (simp add: entries_for_def)
  from chunkLoop_correct [OF t ids ch(1) b(2) [folded ch(2)] this, unfolded ch(2) append_Nil, folded op_writes.simps(1)] obtain res ch' b' where
    l: "chunkLoop t ch b [] = Some (res, ch', b')" "chunker_ready ch'" "same_setup b b'" "bld_inv t inv same k (H \<union> op_writes (BFile r)) n b'"
      "case res of Inl _ \<Rightarrow> True | Inr es \<Rightarrow> dom (ci_map (b_index b)) \<subseteq> dom (ci_map (b_index b'))
         \<and> entries_for (idhash k) (dom (ci_map (b_index b'))) (H \<union> op_writes (BFile r)) TypeFileStream (rdata r) es" by blast
  let ?b = "b'\<lparr>chunkerCache := Some (ch', chunkerParams b, chunkSeed b)\<rparr>"
  have "chunkFileSerial t b r = Some (res, ?b)" using Inr l(1) by (simp add: chunkFileSerial_def)
  moreover have "setup_ok ?b" using b(1) l(2,3) by (simp add: setup_ok_def same_setup_def)
  moreover have "bld_inv t inv same k (H \<union> op_writes (BFile r)) n ?b" using l(4) by (simp add: bld_inv_def)
  ultimately show ?thesis using l(5) by (intro exI [of _ res] exI [of _ ?b]) (cases res; simp)
qed

lemma build_step_correct:
  assumes t: "t_ops t = ops_of enc dec idhash auth" "codecs_ok (t_codecs t)" "\<forall>b. length (t_sha t b) = 32"
    and ids: "\<forall>d i. idhash k d = Some i \<longrightarrow> length i = 32" and x: "build_op_ok x" and b: "setup_ok b" "bld_inv t inv same k H (n + op_room x) b"
  shows "\<exists>res b'. build_step t b x = Some (res, b') \<and> setup_ok b' \<and> bld_inv t inv same k (H \<union> op_writes x) n b'
    \<and> ((\<exists>es. res = Inr es) \<longrightarrow> dom (ci_map (b_index b)) \<subseteq> dom (ci_map (b_index b')) \<and> step_result (idhash k) (dom (ci_map (b_index b'))) (H \<union> op_writes x) x res)
    \<and> (x = BFlush \<longrightarrow> waiting (r_pw (b_repo b')) = {})"
proof (cases x)
  case (BFile r)
  then have "\<not> rfails r" "bld_inv t inv same k H (n + 2 * length (rdata r)) b" using x b(2) by simp_all
  from chunkFileSerial_correct [OF t ids b(1) this(2,1)] obtain res b' where
    "chunkFileSerial t b r = Some (res, b')" "setup_ok b'" "bld_inv t inv same k (H \<union> op_writes (BFile r)) n b'"
    "case res of Inl _ \<Rightarrow> True | Inr es \<Rightarrow> dom (ci_map (b_index b)) \<subseteq> dom (ci_map (b_index b'))
       \<and> entries_for (idhash k) (dom (ci_map (b_index b'))) (H \<union> op_writes (BFile r)) TypeFileStream (rdata r) es" by blast
  then show ?thesis unfolding BFile by (intro exI [of _ res] exI [of _ b']) (cases res; simp add: step_result_def)
next
  case (BChunk d ty)
  have "bld_inv t inv same k H (Suc (Suc n)) b" using b(2) BChunk by simp
  moreover have "length ty < 32" using x BChunk by simp
  ultimately obtain res rp ro s b' where
    a: "AddChunk t b d ty = Some (res, b')" "b' = b\<lparr>b_repo := rp, b_ro := ro, b_stats := s\<rparr>" "bld_inv t inv same k (insert (d, ty) H) n b'"
      "case res of Inl _ \<Rightarrow> True | Inr e \<Rightarrow> idhash k d = Some (cle_ID e) \<and> cle_Size e = int (length d)
         \<and> dom (ci_map (b_index b')) = insert (cle_ID e) (dom (ci_map (b_index b)))" using AddChunk_correct [OF t ids, of ty H n b d] by blast
  have "setup_ok b'" using b(1) a(2) by (simp add: setup_ok_def)
  moreover have "dom (ci_map (b_index b)) \<subseteq> dom (ci_map (b_index b')) \<and> step_result (idhash k) (dom (ci_map (b_index b'))) (insert (d, ty) H) x (Inr [e])"
    if e: "res = Inr e" for e
  proof -
    have q: "idhash k d = Some (cle_ID e)" "cle_Size e = int (length d)" "dom (ci_map (b_index b')) = insert (cle_ID e) (dom (ci_map (b_index b)))"
      using a(4) e by auto
    have "entries_for (idhash k) (dom (ci_map (b_index b))) H ty [] []" by (simp add: entries_for_def)
    from entries_for_snoc [OF this q(1,2)] show ?thesis unfolding q(3) by (auto simp: BChunk step_result_def)
  qed
  ultimately show ?thesis using a(1,3) unfolding BChunk by (intro exI [of _ "map_sum id (\<lambda>e. [e]) res"] exI [of _ b']) (cases res; simp)
next
  case BFlush
  let ?w = "r_pw (b_repo b)"
  obtain added where b': "r_opened (b_repo b)" "r_cache (b_repo b) = newPackCache 3" "wf_comp (ro_compressor (b_ro b))" "inv (ro_key (b_ro b))" "same k (ro_key (b_ro b))"
      "pw_inv {} (t_sha t) n added ?w"
      "\<forall>(i, obj)\<in>added. \<exists>(d, ty)\<in>H. key_IDHash (t_ops t) k d = Some i \<and> reads_as (t_ops t) (t_codecs t) inv same k i obj d ty"
    using b(2) BFlush by (auto simp: bld_inv_def)
  have "pw_ok {} (t_sha t) n added ?w" using b'(6) by (simp add: pw_inv_def)
  from Flush_correct [OF t(3) this, of "t_fails t"] obtain r w' where f: "Flush (t_sha t) (t_fails t) ?w = Some (r, w')" "pack_writer.maxSize w' = pack_writer.maxSize ?w"
      "pw_ok {} (t_sha t) n added w'" "pw_inflight w' = None" "pw_pieces w' = []" "pw_size w' = 0"
      "case r of Inl _ \<Rightarrow> True | Inr rs \<Rightarrow> dom (ci_map (pw_index w')) = dom (ci_map (pw_index ?w))
         \<and> results_ok (foundc (t_sha t) added (pw_log w')) (dom (ci_map (pw_index ?w))) rs \<and> buffered ?w \<subseteq> prChunkID ` set rs" by blast
  let ?b = "b\<lparr>b_repo := (b_repo b)\<lparr>r_pw := w'\<rparr>\<rparr>" and ?r = "map_sum RepoFailed (\<lambda>_. []) (map_sum WriterFailed (\<lambda>_. ()) r)"
  have "pw_inv {} (t_sha t) n added w'" using f b'(6) by (simp add: pw_inv_def)
  then have "bld_inv t inv same k H n ?b" using b' by (auto simp: bld_inv_def intro!: exI [of _ added])
  moreover have "waiting w' = {}" using f by (simp add: waiting_def)
  moreover have "setup_ok ?b" using b(1) by (simp add: setup_ok_def)
  ultimately show ?thesis using f(1,7) unfolding BFlush
    by (intro exI [of _ ?r] exI [of _ ?b]) (cases r; simp add: repo_Flush_def step_result_def)
qed

lemma build_run_correct:
  assumes t: "t_ops t = ops_of enc dec idhash auth" "codecs_ok (t_codecs t)" "\<forall>b. length (t_sha t b) = 32"
    and ids: "\<forall>d i. idhash k d = Some i \<longrightarrow> length i = 32"
  shows "\<forall>x\<in>set xs. build_op_ok x \<Longrightarrow> setup_ok b \<Longrightarrow> bld_inv t inv same k H (n + sum_list (map op_room xs)) b \<Longrightarrow>
    \<exists>rs b'. build_run t b xs = Some (rs, b') \<and> setup_ok b' \<and> bld_inv t inv same k (H \<union> (\<Union>x\<in>set xs. op_writes x)) n b'
    \<and> ((\<forall>r\<in>set rs. \<exists>es. r = Inr es) \<longrightarrow> dom (ci_map (b_index b)) \<subseteq> dom (ci_map (b_index b'))
         \<and> list_all2 (step_result (idhash k) (dom (ci_map (b_index b'))) (H \<union> (\<Union>x\<in>set xs. op_writes x))) xs rs)
    \<and> (xs \<noteq> [] \<and> last xs = BFlush \<longrightarrow> waiting (r_pw (b_repo b')) = {})"
proof (induction xs arbitrary: b H)
  case (Cons x xs)
  let ?n = "n + sum_list (map op_room xs)"
  have "build_op_ok x" "bld_inv t inv same k H (?n + op_room x) b" using Cons.prems(1,3) by (simp_all add: ac_simps)
  from build_step_correct [OF t ids this(1) Cons.prems(2) this(2)] obtain res b1 where
    s: "build_step t b x = Some (res, b1)" "setup_ok b1" "bld_inv t inv same k (H \<union> op_writes x) ?n b1"
      "(\<exists>es. res = Inr es) \<longrightarrow> dom (ci_map (b_index b)) \<subseteq> dom (ci_map (b_index b1)) \<and> step_result (idhash k) (dom (ci_map (b_index b1))) (H \<union> op_writes x) x res"
      "x = BFlush \<longrightarrow> waiting (r_pw (b_repo b1)) = {}" by blast
  have "\<forall>y\<in>set xs. build_op_ok y" using Cons.prems(1) by simp
  from Cons.IH [OF this s(2,3)] obtain rs b' where
    i: "build_run t b1 xs = Some (rs, b')" "setup_ok b'" "bld_inv t inv same k (H \<union> op_writes x \<union> (\<Union>x\<in>set xs. op_writes x)) n b'"
      "(\<forall>r\<in>set rs. \<exists>es. r = Inr es) \<longrightarrow> dom (ci_map (b_index b1)) \<subseteq> dom (ci_map (b_index b'))
         \<and> list_all2 (step_result (idhash k) (dom (ci_map (b_index b'))) (H \<union> op_writes x \<union> (\<Union>x\<in>set xs. op_writes x))) xs rs"
      "xs \<noteq> [] \<and> last xs = BFlush \<longrightarrow> waiting (r_pw (b_repo b')) = {}" by blast
  have H: "H \<union> op_writes x \<union> (\<Union>x\<in>set xs. op_writes x) = H \<union> (\<Union>x\<in>set (x # xs). op_writes x)" by auto
  have "dom (ci_map (b_index b)) \<subseteq> dom (ci_map (b_index b'))
         \<and> list_all2 (step_result (idhash k) (dom (ci_map (b_index b'))) (H \<union> (\<Union>x\<in>set (x # xs). op_writes x))) (x # xs) (res # rs)"
    if ok: "\<forall>r\<in>set (res # rs). \<exists>es. r = Inr es"
  proof -
    have d: "dom (ci_map (b_index b)) \<subseteq> dom (ci_map (b_index b1))" "dom (ci_map (b_index b1)) \<subseteq> dom (ci_map (b_index b'))"
      "step_result (idhash k) (dom (ci_map (b_index b1))) (H \<union> op_writes x) x res" using ok s(4) i(4) by simp_all
    have "step_result (idhash k) (dom (ci_map (b_index b'))) (H \<union> (\<Union>x\<in>set (x # xs). op_writes x)) x res"
      by (rule step_result_mono [OF d(3) d(2)]) auto
    moreover have "list_all2 (step_result (idhash k) (dom (ci_map (b_index b'))) (H \<union> (\<Union>x\<in>set (x # xs). op_writes x))) xs rs" using ok i(4) unfolding H by simp
    ultimately show ?thesis using order_trans [OF d(1,2)] by simp
  qed
  moreover have "last (x # xs) = BFlush \<longrightarrow> waiting (r_pw (b_repo b')) = {}" using s(5) i(1,5) by (cases "xs = []") auto
  moreover have "build_run t b (x # xs) = Some (res # rs, b')" using s(1) i(1) by simp
  ultimately show ?case using i(2,3) unfolding H by blast
qed simp

text \<open>After a flush every id of the index is read, and what is read is one of the chunks written.\<close>

lemma read_chunk:
  assumes t: "t_ops t = ops_of enc dec idhash auth" and b: "bld_inv t inv same k H n b" "waiting (r_pw (b_repo b)) = {}"
    and packs: "inj_on (t_sha t) (snd ` set (pw_log (r_pw (b_repo b))))" and i: "i \<in> dom (ci_map (b_index b))" "length i = 32"
  shows "\<exists>obj d ty. repo_Get (b_repo b) i = Some (Inr obj, b_repo b) \<and> (d, ty) \<in> H \<and> idhash k d = Some i
    \<and> reads_as (t_ops t) (t_codecs t) inv same k i obj d ty"
proof -
  obtain added where b': "r_opened (b_repo b)" "r_cache (b_repo b) = newPackCache 3" "pw_inv {} (t_sha t) n added (r_pw (b_repo b))"
      "\<forall>(i, obj)\<in>added. \<exists>(d, ty)\<in>H. key_IDHash (t_ops t) k d = Some i \<and> reads_as (t_ops t) (t_codecs t) inv same k i obj d ty"
    using b(1) by (auto simp: bld_inv_def)
  obtain e where e: "ci_map (b_index b) i = Some e" using i(1) by blast
  have st: "in_step {} (foundc (t_sha t) added (pw_log (r_pw (b_repo b)))) (b_index b) {}" using b'(3) b(2) by (simp add: pw_inv_def pw_ok_def)
  then have "if Pack.pending e then i \<in> {} else foundc (t_sha t) added (pw_log (r_pw (b_repo b))) i e" using e unfolding in_step_def by blast
  then have np: "\<not> Pack.pending e" "foundc (t_sha t) added (pw_log (r_pw (b_repo b))) i e" by (auto split: if_splits)
  then obtain obj where o: "(i, obj) \<in> added" "locates (pw_log (r_pw (b_repo b))) e obj" using packs by (auto simp: foundc_def found_def)
  have "cache_ok (b_repo b)" using b'(2) by (simp add: cache_ok_def newPackCache_def)
  from Get_resolved [OF _ b'(1) this i(2) e np(1) o(2)] have "repo_Get (b_repo b) i = Some (Inr obj, b_repo b)" using st by (simp add: in_step_def)
  moreover obtain d ty where "(d, ty) \<in> H" "key_IDHash (t_ops t) k d = Some i" "reads_as (t_ops t) (t_codecs t) inv same k i obj d ty"
    using b'(4) o(1) by fastforce
  ultimately show ?thesis by (auto simp: t ops_of_def)
qed

end

end
