(* ===== verification/Extract.thy ===== *)
theory Extract
  imports Builder
begin

text \<open>
  Restoring the content of a file, \<^verbatim>\<open>src/internal/archive/extract.go\<close>: the chunks of an item are read,
  checked and written, runs of zeros as holes where that is asked for. The file is its bytes and
  the position of the next write; failures of the file system are not modelled.
\<close>

datatype extract_error = GetFailed repo_error | ParseFailed ro_error | ChunkSizeWrong nat int | SizeMismatch int nat

definition no_parse_options :: parse_options where
  "no_parse_options = \<lparr>WantCompressed = False, SkipDecompress = False, po_AssertIDPlace = []\<rparr>"

fun fetchChunks :: "'k key_ops \<Rightarrow> codecs \<Rightarrow> (bytes \<Rightarrow> 's \<Rightarrow> extract_error + 's) \<Rightarrow> repository \<Rightarrow> 'k repo_obj \<Rightarrow> chunk_list_entry list \<Rightarrow> 's
    \<Rightarrow> ((extract_error + 's) \<times> repository \<times> 'k repo_obj) option" where
  "fetchChunks ops cd fn r ro [] s = Some (Inr s, r, ro)"
| "fetchChunks ops cd fn r ro (c # cs) s = Option.bind (repo_Get r (cle_ID c)) (\<lambda>(res, r1).
     case res of
       Inl e \<Rightarrow> Some (Inl (GetFailed e), r1, ro)
     | Inr obj \<Rightarrow> Option.bind (Parse ops cd ro (cle_ID c) obj TypeFileStream no_parse_options) (\<lambda>(res2, ro1).
         case res2 of
           Inl e \<Rightarrow> Some (Inl (ParseFailed e), r1, ro1)
         | Inr (_, data) \<Rightarrow>
             if int (length data) \<noteq> cle_Size c then Some (Inl (ChunkSizeWrong (length data) (cle_Size c)), r1, ro1)
             else (case fn data s of Inl e \<Rightarrow> Some (Inl e, r1, ro1) | Inr s' \<Rightarrow> fetchChunks ops cd fn r1 ro1 cs s')))"

definition isAllZero :: "bytes \<Rightarrow> bool" where
  "isAllZero b \<longleftrightarrow> list_all (\<lambda>c. c = 0) b \<and> b \<noteq> []"

record out_file =
  f_data :: bytes
  f_pos :: nat
  written :: nat
  trailingHole :: bool

text \<open>A write behind the end of the file leaves zeros in between.\<close>

definition file_Write :: "bytes \<Rightarrow> out_file \<Rightarrow> out_file" where
  "file_Write d f = f\<lparr>f_data := take (f_pos f) (f_data f @ replicate (f_pos f - length (f_data f)) 0) @ d @ drop (f_pos f + length d) (f_data f),
     f_pos := f_pos f + length d\<rparr>"

definition file_Seek :: "nat \<Rightarrow> out_file \<Rightarrow> out_file" where
  "file_Seek n f = f\<lparr>f_pos := f_pos f + n\<rparr>"

definition file_Truncate :: "nat \<Rightarrow> out_file \<Rightarrow> out_file" where
  "file_Truncate n f = f\<lparr>f_data := take n (f_data f @ replicate (n - length (f_data f)) 0)\<rparr>"

definition writeChunk :: "bool \<Rightarrow> bytes \<Rightarrow> out_file \<Rightarrow> extract_error + out_file" where
  "writeChunk sparse data f =
     (let f1 = (if sparse \<and> isAllZero data then (file_Seek (length data) f)\<lparr>trailingHole := True\<rparr>
                else (file_Write data f)\<lparr>trailingHole := False\<rparr>) in
      Inr (f1\<lparr>written := written f1 + length data\<rparr>))"

definition checkSize :: "int option \<Rightarrow> nat \<Rightarrow> extract_error + unit" where
  "checkSize sz got = (case sz of None \<Rightarrow> Inr () | Some n \<Rightarrow> if n \<noteq> int got then Inl (SizeMismatch n got) else Inr ())"

definition writeFile :: "'k key_ops \<Rightarrow> codecs \<Rightarrow> bool \<Rightarrow> repository \<Rightarrow> 'k repo_obj \<Rightarrow> chunk_list_entry list \<Rightarrow> int option
    \<Rightarrow> ((extract_error + bytes) \<times> repository \<times> 'k repo_obj) option" where
  "writeFile ops cd sparse r ro cs sz =
     Option.bind (fetchChunks ops cd (writeChunk sparse) r ro cs \<lparr>f_data = [], f_pos = 0, written = 0, trailingHole = False\<rparr>) (\<lambda>(res, r1, ro1).
       case res of
         Inl e \<Rightarrow> Some (Inl e, r1, ro1)
       | Inr f \<Rightarrow>
           (let f1 = (if trailingHole f \<or> written f = 0 then file_Truncate (written f) f else f) in
            Some (map_sum id (\<lambda>_. f_data f1) (checkSize sz (written f)), r1, ro1)))"

section \<open>Holes\<close>

text \<open>What has been written so far: the bytes, less a hole at the end.\<close>

definition holds :: "bytes \<Rightarrow> out_file \<Rightarrow> bool" where
  "holds c f \<longleftrightarrow> f_pos f = length c \<and> written f = length c \<and> length (f_data f) \<le> length c
     \<and> f_data f @ replicate (length c - length (f_data f)) 0 = c \<and> (\<not> trailingHole f \<longrightarrow> f_data f = c)"

lemma isAllZero_replicate: "isAllZero d \<Longrightarrow> d = replicate (length d) 0"
  by (simp add: isAllZero_def list_all_iff replicate_length_same)

lemma writeChunk_holds: "holds c f \<Longrightarrow> \<exists>f'. writeChunk sparse d f = Inr f' \<and> holds (c @ d) f'"
proof (cases "sparse \<and> isAllZero d")
  case True
  assume h: "holds c f"
  have d: "d = replicate (length d) 0" using True isAllZero_replicate by blast
  have "f_data f @ replicate (length c + length d - length (f_data f)) 0 = c @ d"
  proof -
    have "length c + length d - length (f_data f) = (length c - length (f_data f)) + length d" using h by (simp add: holds_def)
    then have "replicate (length c + length d - length (f_data f)) (0 :: byte) = replicate (length c - length (f_data f)) 0 @ d"
      by (simp add: replicate_add) (metis d)
    then have "f_data f @ replicate (length c + length d - length (f_data f)) 0 = (f_data f @ replicate (length c - length (f_data f)) 0) @ d" by simp
    then show ?thesis using h unfolding holds_def by metis
  qed
  then show ?thesis using True h by (auto simp: writeChunk_def file_Seek_def holds_def)
next
  case False
  assume h: "holds c f"
  have "take (f_pos f) (f_data f @ replicate (f_pos f - length (f_data f)) 0) = c" using h unfolding holds_def by (metis take_all order_refl)
  moreover have "drop (f_pos f + length d) (f_data f) = []" using h by (simp add: holds_def)
  ultimately show ?thesis using False h by (auto simp: writeChunk_def file_Write_def holds_def)
qed

lemma truncate_holds: "holds c f \<Longrightarrow> f_data (if trailingHole f \<or> written f = 0 then file_Truncate (written f) f else f) = c"
  unfolding holds_def file_Truncate_def by (auto simp: min_def)

section \<open>Restoring a file\<close>

lemma reads_asD:
  assumes "reads_as ops cd good same k cid obj d ty" "good (ro_key r)" "same k (ro_key r)" "want = TypeDontCare \<or> want = ty"
  shows "\<exists>m r'. Parse ops cd r cid obj want no_parse_options = Some (Inr (m, d), r') \<and> rm_Type m = ty \<and> good (ro_key r') \<and> same k (ro_key r')"
proof -
  have "\<not> WantCompressed no_parse_options" "\<not> SkipDecompress no_parse_options" by (simp_all add: no_parse_options_def)
  then show ?thesis using assms unfolding reads_as_def by blast
qed

context repo_key
begin

lemma fetchChunks_restores:
  assumes t: "t_ops t = ops_of enc dec idhash auth" and b: "bld_inv t inv same k H n b" "waiting (r_pw (b_repo b)) = {}"
    and packs: "inj_on (t_sha t) (snd ` set (pw_log (r_pw (b_repo b))))"
    and ids: "\<forall>d i. idhash k d = Some i \<longrightarrow> length i = 32" and inj: "inj_on (idhash k) (fst ` H)"
    and fn: "\<And>c s d. P c s \<Longrightarrow> \<exists>s'. fn d s = Inr s' \<and> P (c @ d) s'"
  shows "list_all2 (\<lambda>d e. idhash k d = Some (cle_ID e) \<and> cle_Size e = int (length d) \<and> cle_ID e \<in> dom (ci_map (b_index b))) bs es \<Longrightarrow>
    \<forall>d\<in>set bs. (d, TypeFileStream) \<in> H \<and> (\<forall>ty. (d, ty) \<in> H \<longrightarrow> ty = TypeFileStream) \<Longrightarrow> P c s \<Longrightarrow> inv (ro_key ro) \<Longrightarrow> same k (ro_key ro) \<Longrightarrow>
    \<exists>s' ro'. fetchChunks (t_ops t) (t_codecs t) fn (b_repo b) ro es s = Some (Inr s', b_repo b, ro') \<and> P (c @ concat bs) s'"
proof (induction bs es arbitrary: c s ro rule: list_all2_induct)
  case Nil
  then show ?case by simp
next
  case (Cons d bs e es)
  have i: "idhash k d = Some (cle_ID e)" "cle_Size e = int (length d)" "cle_ID e \<in> dom (ci_map (b_index b))" using Cons.hyps by auto
  have l: "length (cle_ID e) = 32" using ids i(1) by blast
  from read_chunk [OF t b packs i(3) l] obtain obj d' ty where r: "repo_Get (b_repo b) (cle_ID e) = Some (Inr obj, b_repo b)"
    "(d', ty) \<in> H" "idhash k d' = Some (cle_ID e)" "reads_as (t_ops t) (t_codecs t) inv same k (cle_ID e) obj d' ty" by blast
  have "d \<in> fst ` H" "d' \<in> fst ` H" using Cons.prems(1) r(2) by force+
  then have d': "d' = d" using inj r(3) i(1) by (metis inj_onD)
  then have ty: "TypeFileStream = TypeDontCare \<or> TypeFileStream = ty" using Cons.prems(1) r(2) by auto
  from reads_asD [OF r(4) Cons.prems(3,4) ty] d' obtain m ro1 where p: "Parse (t_ops t) (t_codecs t) ro (cle_ID e) obj TypeFileStream no_parse_options = Some (Inr (m, d), ro1)"
    "inv (ro_key ro1)" "same k (ro_key ro1)" by blast
  from fn [OF Cons.prems(2)] obtain s1 where s1: "fn d s = Inr s1" "P (c @ d) s1" by blast
  from Cons.IH [OF _ s1(2) p(2,3)] Cons.prems(1) obtain s' ro' where
    "fetchChunks (t_ops t) (t_codecs t) fn (b_repo b) ro1 es s1 = Some (Inr s', b_repo b, ro')" "P ((c @ d) @ concat bs) s'" by auto
  then show ?case using r(1) p(1) s1(1) i(2) by simp
qed

lemma writeFile_restores:
  assumes t: "t_ops t = ops_of enc dec idhash auth" and b: "bld_inv t inv same k H n b" "waiting (r_pw (b_repo b)) = {}"
    and packs: "inj_on (t_sha t) (snd ` set (pw_log (r_pw (b_repo b))))"
    and ids: "\<forall>d i. idhash k d = Some i \<longrightarrow> length i = 32" and inj: "inj_on (idhash k) (fst ` H)"
    and es: "entries_for (idhash k) (dom (ci_map (b_index b))) H TypeFileStream content es"
    and ty: "\<forall>d ty. sublist d content \<and> (d, ty) \<in> H \<longrightarrow> ty = TypeFileStream"
    and ro: "inv (ro_key ro)" "same k (ro_key ro)" and sz: "sz = None \<or> sz = Some (int (length content))"
  shows "\<exists>ro'. writeFile (t_ops t) (t_codecs t) sparse (b_repo b) ro es sz = Some (Inr content, b_repo b, ro')"
proof -
  obtain bs where bs: "concat bs = content" "\<forall>d\<in>set bs. (d, TypeFileStream) \<in> H"
      "list_all2 (\<lambda>d e. idhash k d = Some (cle_ID e) \<and> cle_Size e = int (length d) \<and> cle_ID e \<in> dom (ci_map (b_index b))) bs es"
    using es by (auto simp: entries_for_def)
  have "sublist d content" if "d \<in> set bs" for d
    using that bs(1) by (metis concat.simps(2) concat_append split_list sublist_appendI)
  then have ty': "\<forall>d\<in>set bs. (d, TypeFileStream) \<in> H \<and> (\<forall>ty. (d, ty) \<in> H \<longrightarrow> ty = TypeFileStream)" using bs(2) ty by blast
  let ?f = "\<lparr>f_data = [], f_pos = 0, written = 0, trailingHole = False\<rparr>"
  have "holds [] ?f" by (simp add: holds_def)
  from fetchChunks_restores [where fn = "writeChunk sparse" and P = holds, OF t b packs ids inj writeChunk_holds bs(3) ty' this ro] bs(1) obtain f ro' where
    f: "fetchChunks (t_ops t) (t_codecs t) (writeChunk sparse) (b_repo b) ro es ?f = Some (Inr f, b_repo b, ro')" "holds content f" by auto
  have "checkSize sz (written f) = Inr ()" using sz f(2) by (auto simp: checkSize_def holds_def)
  then show ?thesis using f(1) truncate_holds [OF f(2)] by (simp add: writeFile_def Let_def)
qed

end

section \<open>Backup and restore\<close>

text \<open>C1. A backup can be restored. On a new repository with an encrypting key, any sequence of files, chunks of
  other kinds and flushes that ends in a flush runs to its end; if none of its steps reported an
  error, every file is restored from the chunk list its step returned, byte for byte, with holes
  written as zeros or as holes, by any reader that has the key. The whole path is in between: the
  chunker, ids and deduplication, compression, encryption, packs in the background or not, the
  index. What it takes is that ids and pack names do not collide, and that no piece of the file
  was also stored as something other than file content (\<open>dedup_ignores_type\<close> shows why).\<close>

theorem backup_restores_files:
  fixes t :: "aead_key tools"
  defines "packs b \<equiv> snd ` set (pw_log (r_pw (b_repo b)))"
  assumes tools: "t_ops t = aead_ops env" "codecs_ok (t_codecs t)" "\<forall>b. length (t_sha t b) = 32"
    and repo: "NewChunkIndex usable = Some (Inr c)" "usable < 2 ^ 30" "NewPackWriter c mc ms async = Inr w" "0 < ms" "ms \<le> 2 ^ 31"
    and key: "aead_key_inv env (ro_key ro)" "\<forall>d i. ak_IDHash (ro_key ro) d = Some i \<longrightarrow> length i = 32"
    and builder: "NewBuilder t (open_repository w) ro opts = Inr b" "pred_option wf_comp (bo_Compressor opts)"
      "ChunkMinExp (bo_ChunkerParams opts) \<le> 62" "WindowSize (bo_ChunkerParams opts) \<le> 2 ^ 62"
    and ops: "\<forall>x\<in>set xs. build_op_ok x" "sum_list (map op_room xs) \<le> 2 ^ 29" "xs \<noteq> []" "last xs = BFlush"
    and ids: "inj_on (ak_IDHash (ro_key ro)) (fst ` (\<Union>x\<in>set xs. op_writes x))"
  shows "\<exists>rs b'. build_run t b xs = Some (rs, b') \<and> length rs = length xs
    \<and> ((\<forall>r\<in>set rs. \<exists>es. r = Inr es) \<and> inj_on (t_sha t) (packs b') \<longrightarrow>
      (\<forall>r es ro2 sparse. (BFile r, Inr es) \<in> set (zip xs rs)
         \<and> (\<forall>d ty. sublist d (rdata r) \<and> (d, ty) \<in> (\<Union>x\<in>set xs. op_writes x) \<longrightarrow> ty = TypeFileStream)
         \<and> aead_key_inv env (ro_key ro2) \<and> same_aead_key (ro_key ro) (ro_key ro2) \<longrightarrow>
         (\<exists>ro3. writeFile (t_ops t) (t_codecs t) sparse (b_repo b') ro2 es (Some (int (length (rdata r)))) = Some (Inr (rdata r), b_repo b', ro3))))"
proof -
  let ?H = "\<Union>x\<in>set xs. op_writes x"
  note ops_eq = tools(1) [unfolded aead_ops_def]
  note start = aead.NewBuilder_inv [OF repo builder(1) key(1) builder(2-4) ops(2)]
  have "bld_inv t (aead_key_inv env) same_aead_key (ro_key ro) {} (0 + sum_list (map op_room xs)) b" using start(1) by simp
  from aead.build_run_correct [OF ops_eq tools(2,3) key(2) ops(1) start(2) this] obtain rs b' where
    run: "build_run t b xs = Some (rs, b')" "bld_inv t (aead_key_inv env) same_aead_key (ro_key ro) ?H 0 b'"
      "(\<forall>r\<in>set rs. \<exists>es. r = Inr es) \<longrightarrow> list_all2 (step_result (ak_IDHash (ro_key ro)) (dom (ci_map (b_index b'))) ?H) xs rs"
      "waiting (r_pw (b_repo b')) = {}" using ops(3,4) unfolding Un_empty_left by blast
  have len: "build_run t b xs = Some (rs, b') \<Longrightarrow> length rs = length xs" for b rs b'
    by (induction xs arbitrary: b rs) (auto simp: bind_eq_Some_conv)
  have restore: "\<exists>ro3. writeFile (t_ops t) (t_codecs t) sparse (b_repo b') ro2 es (Some (int (length (rdata r)))) = Some (Inr (rdata r), b_repo b', ro3)"
    if ok: "\<forall>r\<in>set rs. \<exists>es. r = Inr es" "inj_on (t_sha t) (packs b')" and bf: "(BFile r, Inr es) \<in> set (zip xs rs)"
      and ty: "\<forall>d ty. sublist d (rdata r) \<and> (d, ty) \<in> ?H \<longrightarrow> ty = TypeFileStream"
      and rd: "aead_key_inv env (ro_key ro2)" "same_aead_key (ro_key ro) (ro_key ro2)" for r es ro2 sparse
  proof -
    have "step_result (ak_IDHash (ro_key ro)) (dom (ci_map (b_index b'))) ?H (BFile r) (Inr es)" using run(3) ok(1) bf by (auto simp: list_all2_iff)
    then have "entries_for (ak_IDHash (ro_key ro)) (dom (ci_map (b_index b'))) ?H TypeFileStream (rdata r) es" by (simp add: step_result_def)
    from aead.writeFile_restores [OF ops_eq run(2,4) ok(2) [unfolded packs_def] key(2) ids this ty rd] show ?thesis by blast
  qed
  show ?thesis
    by (intro exI [of _ rs] exI [of _ b'] conjI impI allI; (elim conjE)?) (rule run(1) len [OF run(1)] restore; assumption)+
qed

text \<open>One small file, to see the hypotheses hold together.\<close>

definition toy_env32 :: crypto_env where
  "toy_env32 = toy_env\<lparr>env_hashes := (env_hashes toy_env)\<lparr>hmac_sha256 := (\<lambda>_. toy_hash)\<rparr>\<rparr>"

definition toy_tools :: "aead_key tools" where
  "toy_tools = \<lparr>t_ops = aead_ops toy_env32, t_codecs = toy_codecs, t_rnd = (\<lambda>_ _. 0), t_sha = toy_hash, t_fails = (\<lambda>_. False), t_aes = (\<lambda>_ _. 0), t_base = (\<lambda>_. 0),
     t_derive = ak_DeriveIDKey (env_hashes toy_env32)\<rparr>"

definition toy_options :: builder_options where
  "toy_options = \<lparr>bo_ChunkerParams = no_params\<lparr>Algorithm := AlgoFixed, BlockSize := 4\<rparr>, bo_ChunkSeed = 0, bo_Compressor = Some CNone, bo_CountItemStreamSize = False\<rparr>"

definition toy_file :: reader where
  "toy_file = \<lparr>rdata = [1, 2, 3], rfails = False\<rparr>"

lemma length_toy_hash: "length (toy_hash b) = 32"
  by (simp add: toy_hash_def)

lemma toy_hash_nth: "length b \<le> 32 \<Longrightarrow> i < 32 \<Longrightarrow> toy_hash b ! i = (if i < length b then b ! i else 0)"
  by (simp add: toy_hash_def nth_append)

lemma toy_env32_ok: "env_ok toy_env32"
  using toy_env_ok(1) by (simp add: env_ok_def toy_env32_def)

context repo_key
begin

lemma assemble_length:
  assumes k: "inv (ro_key r)" and sz: "length cid = 32" "meta_fits mt" "length compressed \<le> MaxDataSize"
    and a: "assemble (ops_of enc dec idhash auth) r cid mt compressed = (Inr obj, r')"
  shows "length obj \<le> length compressed + 4000"
proof -
  have aad: "length (headerAAD cid @ t) \<le> 1000" if "length t = 1" for t using sz(1) that by (simp add: headerAAD_def Magic_def)
  have tags: "length dataAADTag = 1" "length metaAADTag = 1" by (simp_all add: dataAADTag_def metaAADTag_def)
  obtain de k1 mp me k2 where e: "enc (ro_key r) cid compressed (headerAAD cid @ dataAADTag) = (Inr de, k1)" "Marshal (metaToMap mt) = Inr mp"
      "enc k1 cid mp (headerAAD cid @ metaAADTag) = (Inr me, k2)"
      "obj = Magic @ [Version] @ cid @ put_u32_le (word_of_nat (length me)) @ put_u32_le (word_of_nat (length de)) @ me @ de"
    using a by (auto simp: assemble_def ops_of_def Let_def split: prod.splits sum.splits)
  have k1: "inv k1" using enc_keeps [OF k e(1)] by simp
  have mp: "length mp \<le> 1000" using Marshal_meta_small [OF sz(2) e(2)] .
  have "length de \<le> length compressed + 1000" using enc_length [OF k _ aad sz(1) e(1)] sz(3) tags by (simp add: MaxDataSize_def)
  moreover have "length me \<le> length mp + 1000" using enc_length [OF k1 _ aad sz(1) e(3)] mp tags by simp
  ultimately show ?thesis using e(4) mp sz(1) by (simp add: Magic_def)
qed

end

text \<open>A chunk that does not fill a pack waits in the buffer.\<close>

lemma storeChunk_buffers:
  assumes inv: "pw_inv {} (t_sha t) (Suc (Suc n)) added (r_pw (b_repo b))" and cid: "length cid = 32" "ci_map (b_index b) cid = None" and sz: "sz < 2 ^ 32"
    and r: "r_opened (b_repo b)" "length obj \<le> MaxDataSize"
    and w: "maxCount (r_pw (b_repo b)) \<le> 0" "int (pw_size (r_pw (b_repo b)) + length obj) < pack_writer.maxSize (r_pw (b_repo b))"
  shows "\<exists>c. storeChunk t b cid obj sz = Some (Inr \<lparr>cle_ID = cid, cle_Size = int sz\<rparr>, b\<lparr>b_repo := (b_repo b)\<lparr>r_pw := (r_pw (b_repo b))
      \<lparr>pw_index := c, pw_pieces := pw_pieces (r_pw (b_repo b)) @ [\<lparr>pc_chunkID = cid, pc_data = obj\<rparr>], pw_size := pw_size (r_pw (b_repo b)) + length obj\<rparr>\<rparr>,
      b_stats := count_new (int sz) (b_stats b)\<rparr>)"
proof -
  let ?w = "r_pw (b_repo b)" and ?Q = "foundc (t_sha t) added (pw_log (r_pw (b_repo b)))"
  have st: "in_step {cid} ?Q (pw_index ?w) (waiting ?w)" "ci_room (Suc (Suc n)) (pw_index ?w)"
    using pw_inv_absent [OF inv cid(2)] by (simp_all add: pw_inv_def pw_ok_def)
  from in_step_add [OF st cid(1) no_size_conflict [OF st(1)], of 0] obtain c1 where c1: "index_Add (pw_index ?w) cid 0 = Some (c1, Inr ())" "ci_room (Suc n) c1"
    "in_step {cid} ?Q c1 (insert cid (waiting ?w))" by blast
  have "in_step {} ?Q c1 (insert cid (waiting ?w))" using in_step_sizes [OF c1(3), of "{}"] by simp
  from in_step_add [OF this c1(2) cid(1) no_size_conflict [OF c1(3)], of "word_of_nat sz"] obtain c2 where
    "index_Add c1 cid (word_of_nat sz) = Some (c2, Inr ())" by blast
  then show ?thesis using c1(1) cid(1) sz r w
    by (intro exI [of _ c2]) (simp add: storeChunk_def repo_Put_def pack_Add_def pack_full_def set_index_def)
qed

lemma Flush_log:
  assumes "pw_inflight w = None" "Flush sha fails w = Some (r, w')"
  shows "pw_log w' = pw_log w \<or> (\<exists>p. pw_log w' = p # pw_log w)"
proof -
  have ao: "pw_log w2 = pw_log w1" if "applyOutcome w1 pk = Some (r, w2)" for w1 pk r w2
    using that by (cases "in_outcome pk") (auto simp: applyOutcome_def bind_eq_Some_conv)
  have drp: "pw_log w2 = pw_log w1" if "dropBuffered w1 = Some w2" for w1 w2
    using that by (auto simp: dropBuffered_def takePieces_def bind_eq_Some_conv)
  obtain outcome w3 where s: "storePack sha fails (w\<lparr>pw_pieces := [], pw_size := 0\<rparr>) (pw_pieces w) = (outcome, w3)" by fastforce
  then have l: "pw_log w3 = pw_log w \<or> (\<exists>p. pw_log w3 = p # pw_log w)" by (auto simp: storePack_def Let_def split: if_splits)
  show ?thesis
  proof (cases "pw_pieces w = []")
    case True
    then show ?thesis using assms by (simp add: Flush_def JoinInflight_def)
  next
    case False
    let ?pk = "\<lparr>pendingIDs = map pc_chunkID (pw_pieces w), in_outcome = outcome\<rparr>"
    obtain r2 w4 where a: "applyOutcome w3 ?pk = Some (r2, w4)"
      using assms s False by (cases "applyOutcome w3 ?pk") (auto simp: Flush_def JoinInflight_def takePieces_def)
    have d: "case r2 of Inl _ \<Rightarrow> dropBuffered w4 = Some w' | Inr _ \<Rightarrow> w' = w4"
      using assms s False a by (cases r2) (auto simp: Flush_def JoinInflight_def takePieces_def bind_eq_Some_conv)
    then have "pw_log w' = pw_log w3" using ao [OF a] drp by (cases r2) auto
    then show ?thesis using l by simp
  qed
qed

definition toy_ro :: "aead_key \<Rightarrow> aead_key repo_obj" where
  "toy_ro k = \<lparr>ro_key = k, ro_compressor = CLZ4, assertIDPlaces = [], assertIDPlace = PlaceRead\<rparr>"

definition toy_start :: "aead_key \<Rightarrow> chunk_index \<Rightarrow> pack_writer \<Rightarrow> aead_key builder \<Rightarrow> bool" where
  "toy_start k c w b \<longleftrightarrow> NewAESOCB (env_hashes toy_env32) (replicate 64 1) (replicate 32 2) = Inr k \<and> NewChunkIndex 10 = Some (Inr c)
     \<and> NewPackWriter c 0 100000 True = Inr w \<and> NewBuilder toy_tools (open_repository w) (toy_ro k) toy_options = Inr b"

lemma toy_key:
  assumes "toy_start k c w b"
  shows "ak_IDHash k = (\<lambda>d. Some (toy_hash d))" "sound_key toy_env32 k" "\<forall>i<4. rnd_ready toy_env32 (draws k + i)" "aead_key_inv toy_env32 k"
proof -
  have k: "NewAESOCB (env_hashes toy_env32) (replicate 64 1) (replicate 32 2) = Inr k" using assms by (simp add: toy_start_def)
  then show "ak_IDHash k = (\<lambda>d. Some (toy_hash d))" by (auto simp: NewAESOCB_def newAEADKey_def toy_env32_def ak_IDHash_def)
  have s: "sound_key toy_env32 k" "draws k = 0" using NewAESOCB_sound [OF toy_env32_ok k] by auto
  then show "sound_key toy_env32 k" "aead_key_inv toy_env32 k" by (simp_all add: sound_key_def)
  show "\<forall>i<4. rnd_ready toy_env32 (draws k + i)" using s(2) by (simp add: rnd_ready_def toy_env32_def toy_env_def aeadSessionIDSize_def)
qed

lemma toy_tools_simps:
  "t_ops toy_tools = aead_ops toy_env32" "t_codecs toy_tools = toy_codecs" "t_sha toy_tools = toy_hash" "\<not> t_fails toy_tools m"
  "codecs_ok (t_codecs toy_tools)" "length (t_sha toy_tools x) = 32"
  by (simp_all add: toy_tools_def toy_codecs_ok length_toy_hash)

lemma toy_params: "pred_option wf_comp (bo_Compressor toy_options)" "ChunkMinExp (bo_ChunkerParams toy_options) \<le> 62" "WindowSize (bo_ChunkerParams toy_options) \<le> 2 ^ 62"
  by (simp_all add: toy_options_def no_params_def)

lemma toy_keys:
  "deriveChunkerKey toy_tools k AlgoFixed = Inr []" "\<exists>ik. deriveChunkerKey toy_tools k (Algorithm ItemsParams) = Inr ik"
  by (simp_all add: deriveChunkerKey_def chunkerKeyDomain_def toy_tools_def ak_DeriveIDKey_def DeriveKey_def AlgoFixed_def AlgoFastCDC_def AlgoBuzhash64_def ItemsParams_def)

lemma toy_builder:
  assumes "toy_start k c w b"
  shows "chunkerParams b = no_params\<lparr>Algorithm := AlgoFixed, BlockSize := 4\<rparr>" "chunkerCache b = None" "ro_compressor (b_ro b) = CNone" "ro_key (b_ro b) = k"
    "b_repo b = open_repository w"
  using assms toy_keys(1) [of k] by (auto simp: toy_start_def NewBuilder_def toy_options_def SetCompressor_def toy_ro_def AlgoFixed_def bind_res_Inr Let_def)

lemma toy_inv:
  assumes "toy_start k c w b" "n \<le> 2 ^ 29"
  shows "bld_inv toy_tools (aead_key_inv toy_env32) same_aead_key k {} n b" "setup_ok b"
  using aead.NewBuilder_inv [of 10 c 0 100000 True w toy_tools "toy_ro k" toy_options b toy_env32 n] assms toy_key(4) [OF assms(1)] toy_params
  by (simp_all add: toy_start_def toy_ro_def)

lemma toy_writer:
  assumes "toy_start k c w b"
  shows "pw_index w = c" "ci_map c = Map.empty" "pw_log w = []" "pw_size w = 0" "pw_inflight w = None" "maxCount w = 0" "pack_writer.maxSize w = 100000"
proof -
  have w: "NewPackWriter c 0 100000 True = Inr w" "NewChunkIndex 10 = Some (Inr c)" using assms by (simp_all add: toy_start_def)
  show "ci_map c = Map.empty" using NewChunkIndex_correct [of 10] w(2) by auto
  show "pw_index w = c" "pw_log w = []" "pw_size w = 0" "pw_inflight w = None" "maxCount w = 0" "pack_writer.maxSize w = 100000"
    using w(1) by (auto simp: NewPackWriter_def)
qed

lemma toy_start_ex: "\<exists>k c w b. toy_start k c w b"
proof -
  obtain k where "NewAESOCB (env_hashes toy_env32) (replicate 64 1) (replicate 32 2) = Inr k" by (simp add: NewAESOCB_def newAEADKey_def)
  moreover obtain c where "NewChunkIndex 10 = Some (Inr c)" using NewChunkIndex_correct [of 10] by auto
  moreover obtain w where "NewPackWriter c 0 100000 True = Inr w" by (simp add: NewPackWriter_def)
  moreover obtain b where "NewBuilder toy_tools (open_repository w) (toy_ro k) toy_options = Inr b"
    using toy_keys [of k] by (auto simp: NewBuilder_def toy_options_def SetCompressor_def toy_ro_def AlgoFixed_def)
  ultimately show ?thesis unfolding toy_start_def by blast
qed

lemma toy_Format:
  assumes b: "toy_start k c w b" and d: "length d \<le> 1000" and ty: "ty \<noteq> []" "ty \<noteq> TypeDontCare" "length ty < 32"
  shows "\<exists>obj m ro1. Format (aead_ops toy_env32) toy_codecs rnd (b_ro b) (toy_hash d) (Some \<lparr>rm_comp = new_meta [], rm_Type = ty\<rparr>) d = (Inr (obj, m), ro1)
    \<and> length obj \<le> 5000"
proof -
  obtain m1 where m1: "comp_Compress toy_codecs rnd CNone (new_meta []) d = Inr (d, m1)"
    by (simp add: none_Compress_def finish_def encodeLevel_def UnknownLevel_def)
  let ?mt = "\<lparr>rm_comp = m1, rm_Type = ty\<rparr>"
  have n: "PSize (new_meta []) = None" "OLevel (new_meta []) = None" "length d \<le> MaxDataSize" using d by (simp_all add: new_meta_def MaxDataSize_def)
  have "meta_in_bounds d d m1" using compress_bounds [OF toy_codecs_ok n _ m1] by simp
  from in_bounds_fits [OF this n(3), of "\<lparr>rm_comp = new_meta [], rm_Type = ty\<rparr>"] ty(3) have fits: "meta_fits ?mt" by simp
  have "sound_key toy_env32 (ro_key (b_ro b))" "\<forall>i<4. rnd_ready toy_env32 (draws (ro_key (b_ro b)) + i)" "aead_key_inv toy_env32 (ro_key (b_ro b))"
    using toy_key [OF b] toy_builder(4) [OF b] by simp_all
  note k = this
  from aead_assemble_total [OF k(1,2) length_toy_hash fits n(3)] obtain obj r' where a: "assemble (aead_ops toy_env32) (b_ro b) (toy_hash d) ?mt d = (Inr obj, r')" by blast
  have "length obj \<le> 5000" using aead.assemble_length [OF k(3) length_toy_hash fits n(3) a [unfolded aead_ops_def]] d by simp
  then show ?thesis using a m1 toy_builder(3) [OF b] n(3) ty by (auto simp: Format_def length_toy_hash Let_def)
qed

lemma toy_AddChunk:
  assumes b: "toy_start k c w b" and d: "length d \<le> 1000" and ty: "ty \<noteq> []" "ty \<noteq> TypeDontCare" "length ty < 32"
  shows "\<exists>b2. AddChunk toy_tools b d ty = Some (Inr \<lparr>cle_ID = toy_hash d, cle_Size = int (length d)\<rparr>, b2)
    \<and> pw_log (r_pw (b_repo b2)) = [] \<and> pw_inflight (r_pw (b_repo b2)) = None"
proof -
  obtain obj m ro1 where f: "Format (aead_ops toy_env32) toy_codecs (t_rnd toy_tools) (b_ro b) (toy_hash d) (Some \<lparr>rm_comp = new_meta [], rm_Type = ty\<rparr>) d = (Inr (obj, m), ro1)"
    "length obj \<le> 5000" using toy_Format [OF assms, of "t_rnd toy_tools"] by blast
  note wf = toy_writer [OF b] and bf = toy_builder [OF b]
  have inv: "bld_inv toy_tools (aead_key_inv toy_env32) same_aead_key k {} (Suc (Suc 0)) b" by (rule toy_inv(1) [OF b]) simp
  have new: "ci_map (b_index b) (toy_hash d) = None" using wf(1,2) bf(5) by (simp add: open_repository_def)
  have "ci_inv (b_index b)" using inv by (auto simp: bld_inv_def pw_inv_def pw_ok_def in_step_def)
  then have g: "index_Get (b_index b) (toy_hash d) = Some None" using index_Get_correct [of "b_index b" "toy_hash d"] new
    by (simp add: ChunkIDSize_def length_toy_hash)
  define b1 where "b1 = b\<lparr>b_stats := count_chunk (ty \<noteq> TypeArchiveStream \<or> countItemStreamSize b) (int (length d)) (b_stats b), b_ro := ro1\<rparr>"
  have "key_IDHash (aead_ops toy_env32) = ak_IDHash" by (simp add: aead_ops_def ops_of_def)
  then have add: "AddChunk toy_tools b d ty = storeChunk toy_tools b1 (toy_hash d) obj (length d)"
    using g f(1) bf(4) toy_key(1) [OF b] by (simp add: AddChunk_def toy_tools_simps b1_def Let_def)
  obtain added where "pw_inv {} (t_sha toy_tools) (Suc (Suc 0)) added (r_pw (b_repo b1))" using inv by (auto simp: bld_inv_def b1_def)
  from storeChunk_buffers [OF this length_toy_hash, of d "length d" obj] new wf bf(5) f(2) d show ?thesis
    unfolding add by (auto simp: b1_def open_repository_def MaxDataSize_def)
qed

lemma toy_Flush:
  assumes b: "pw_ok {} toy_hash n added (r_pw (b_repo b))" "no_failed (r_pw (b_repo b))"
  shows "\<exists>b'. build_step toy_tools b BFlush = Some (Inr [], b') \<and> (pw_inflight (r_pw (b_repo b)) = None \<and> pw_log (r_pw (b_repo b)) = []
      \<longrightarrow> inj_on toy_hash (snd ` set (pw_log (r_pw (b_repo b')))))"
proof -
  let ?w = "r_pw (b_repo b)"
  from Flush_correct [OF _ b(1), of "\<lambda>_. False"] b(2) length_toy_hash obtain rs w' where fl: "Flush toy_hash (\<lambda>_. False) ?w = Some (Inr rs, w')" by fastforce
  have "t_fails toy_tools = (\<lambda>_. False)" by (simp add: toy_tools_def)
  then have "build_step toy_tools b BFlush = Some (Inr [], b\<lparr>b_repo := (b_repo b)\<lparr>r_pw := w'\<rparr>\<rparr>)" using fl by (simp add: repo_Flush_def toy_tools_simps)
  moreover have "inj_on toy_hash (snd ` set (pw_log w'))" if "pw_inflight ?w = None" "pw_log ?w = []"
    using Flush_log [OF that(1) fl] that(2) by auto
  ultimately show ?thesis by (intro exI [of _ "b\<lparr>b_repo := (b_repo b)\<lparr>r_pw := w'\<rparr>\<rparr>"]) simp
qed

lemma toy_chunkFile:
  assumes b: "toy_start k c w b"
  shows "\<exists>b3. chunkFileSerial toy_tools b toy_file = Some (Inr [\<lparr>cle_ID = toy_hash [1, 2, 3], cle_Size = 3\<rparr>], b3)
    \<and> pw_log (r_pw (b_repo b3)) = [] \<and> pw_inflight (r_pw (b_repo b3)) = None"
proof -
  let ?d = "[1, 2, 3] :: bytes" and ?e = "\<lparr>cle_ID = toy_hash [1, 2, 3], cle_Size = 3\<rparr>"
  define ch where "ch xs dn = ChFixed \<lparr>blockSize = 4, headerSize = 0, fx_r = \<lparr>rdata = xs, rfails = False\<rparr>, headerDone = dn, fx_done = dn\<rparr>" for xs dn
  have nx: "chunker_Next (ch ?d False) = Some (ch [] True, Got (classify ?d))" "chunker_Next (ch [] True) = Some (ch [] True, EndOfStream)"
    by (simp_all add: ch_def fixed_Next_def chunk_next_def fixed_step_def ReadFull_def)
  have cc: "contentChunker toy_tools b (chunkerParams b) (chunkSeed b) toy_file = Inr (ch ?d False)"
    using toy_builder(1,2) [OF b]
    by (simp add: ch_def contentChunker_def New_chunker_def lift_new_def newFixed_def toy_file_def no_params_def AlgoFixed_def AlgoFastCDC_def AlgoBuzhash64_def AlgoBuzhash_def)
  from toy_AddChunk [OF b, of ?d TypeFileStream] obtain b2 where b2: "AddChunk toy_tools b ?d TypeFileStream = Some (Inr ?e, b2)"
    "pw_log (r_pw (b_repo b2)) = []" "pw_inflight (r_pw (b_repo b2)) = None" by (auto simp: TypeFileStream_def TypeDontCare_def)
  have "chunkLoop toy_tools (ch ?d False) b [] = Some (Inr [?e], ch [] True, b2)"
    by (subst chunkLoop.simps, subst chunkLoop.simps) (simp add: nx b2(1))
  then show ?thesis using cc b2 by (simp add: chunkFileSerial_def)
qed

lemma toy_ids_inj: "inj_on (\<lambda>d. Some (toy_hash d)) (fst ` op_writes (BFile toy_file))"
proof (rule inj_on_subset)
  have sub: "d \<in> {[], [1], [2], [3], [1, 2], [2, 3], [1, 2, 3]}" if "sublist d [1, 2, 3]" for d :: bytes using that by (auto simp: sublist_Cons_right prefix_Cons)
  have fst: "sublist d [1, 2, 3]" if "d \<in> fst ` op_writes (BFile toy_file)" for d using that by (auto simp: toy_file_def)
  show "fst ` op_writes (BFile toy_file) \<subseteq> {[], [1], [2], [3], [1, 2], [2, 3], [1, 2, 3]}" by (intro subsetI sub fst)
  have "inj_on ((\<lambda>h. (h ! 0, h ! 1, h ! 2)) \<circ> toy_hash) {[], [1], [2], [3], [1, 2], [2, 3], [1, 2, 3]}" by (simp add: toy_hash_nth)
  then have "inj_on toy_hash {[], [1], [2], [3], [1, 2], [2, 3], [1, 2, 3]}" by (rule inj_on_imageI2)
  then show "inj_on (\<lambda>d. Some (toy_hash d)) {[], [1], [2], [3], [1, 2], [2, 3], [1, 2, 3]}" unfolding inj_on_def by blast
qed

theorem backup_restores_files_witness:
  "\<exists>k c w b es b' ro3. toy_start k c w b \<and> build_run toy_tools b [BFile toy_file, BFlush] = Some ([Inr es, Inr []], b')
    \<and> writeFile (aead_ops toy_env32) toy_codecs True (b_repo b') (toy_ro k) es (Some 3) = Some (Inr [1, 2, 3], b_repo b', ro3)"
proof -
  from toy_start_ex obtain k c w b where b: "toy_start k c w b" by blast
  note p = b [unfolded toy_start_def]
  let ?e = "\<lparr>cle_ID = toy_hash [1, 2, 3], cle_Size = 3\<rparr>" and ?xs = "[BFile toy_file, BFlush]"
  have ro: "ro_key (toy_ro k) = k" by (simp add: toy_ro_def)
  have key: "ak_IDHash (ro_key (toy_ro k)) = (\<lambda>d. Some (toy_hash d))" "aead_key_inv toy_env32 (ro_key (toy_ro k))" using toy_key [OF b] by (simp_all add: ro)
  have ids: "\<forall>d i. ak_IDHash (ro_key (toy_ro k)) d = Some i \<longrightarrow> length i = 32" by (simp add: key length_toy_hash)
  have xs: "\<forall>x\<in>set ?xs. build_op_ok x" "sum_list (map op_room ?xs) \<le> 2 ^ 29" "?xs \<noteq> []" "last ?xs = BFlush" by (simp_all add: toy_file_def)
  have inj: "inj_on (ak_IDHash (ro_key (toy_ro k))) (fst ` (\<Union>x\<in>set ?xs. op_writes x))" using toy_ids_inj by (simp add: key(1))
  from toy_chunkFile [OF b] obtain b3 where b3: "chunkFileSerial toy_tools b toy_file = Some (Inr [?e], b3)" "pw_log (r_pw (b_repo b3)) = []" "pw_inflight (r_pw (b_repo b3)) = None" by blast
  have tl: "codecs_ok (t_codecs toy_tools)" "\<forall>b. length (t_sha toy_tools b) = 32" "\<not> rfails toy_file" by (simp_all add: toy_tools_simps toy_codecs_ok length_toy_hash toy_file_def)
  have "bld_inv toy_tools (aead_key_inv toy_env32) same_aead_key k {} (0 + 2 * length (rdata toy_file)) b" using toy_inv(1) [OF b] by (simp add: toy_file_def)
  from aead.chunkFileSerial_correct [OF toy_tools_simps(1) [unfolded aead_ops_def] tl(1,2) ids [unfolded ro] toy_inv(2) [OF b, of 0] this tl(3)] b3(1)
  obtain added where "pw_ok {} toy_hash 0 added (r_pw (b_repo b3))" by (auto simp: bld_inv_def pw_inv_def toy_tools_simps)
  from toy_Flush [OF this] b3(2,3) obtain b' where f: "build_step toy_tools b3 BFlush = Some (Inr [], b')" "inj_on (t_sha toy_tools) (snd ` set (pw_log (r_pw (b_repo b'))))"
    by (auto simp: no_failed_def toy_tools_simps)
  have run: "build_run toy_tools b ?xs = Some ([Inr [?e], Inr []], b')" using b3(1) by (simp add: f(1) del: build_step.simps(3))
  obtain ro3 where "writeFile (t_ops toy_tools) (t_codecs toy_tools) True (b_repo b') (toy_ro k) [?e] (Some (int (length (rdata toy_file)))) = Some (Inr (rdata toy_file), b_repo b', ro3)"
    using backup_restores_files [OF toy_tools_simps(1) tl(1,2), of 10 c 0 100000 True w "toy_ro k" toy_options b, OF _ _ _ _ _ key(2) ids _ toy_params xs inj] p run f(2) key(2)
      aead.same_refl [of "ro_key (toy_ro k)"] by fastforce
  then have "writeFile (aead_ops toy_env32) toy_codecs True (b_repo b') (toy_ro k) [?e] (Some 3) = Some (Inr [1, 2, 3], b_repo b', ro3)"
    by (simp add: toy_tools_simps toy_file_def)
  then show ?thesis using b run by blast
qed

section \<open>Deduplication and object types\<close>

lemma AddChunk_seen:
  assumes "key_IDHash (t_ops t) (ro_key (b_ro b)) d = Some cid" "length cid = 32" "ci_inv (b_index b)" "cid \<in> dom (ci_map (b_index b))"
  shows "AddChunk t b d ty = Some (Inr \<lparr>cle_ID = cid, cle_Size = int (length d)\<rparr>,
    b\<lparr>b_stats := count_chunk (ty \<noteq> TypeArchiveStream \<or> countItemStreamSize b) (int (length d)) (b_stats b)\<rparr>)"
  using assms index_Get_correct [of "b_index b" cid] by (auto simp: AddChunk_def ChunkIDSize_def Let_def)

lemma Parse_wrong_type:
  assumes "Parse ops cd r cid obj TypeDontCare no_parse_options = Some (Inr (m, d), r')" "rm_Type m \<noteq> want" "want \<noteq> TypeDontCare"
  shows "\<exists>r''. Parse ops cd r cid obj want no_parse_options = Some (Inl WrongType, r'')"
proof -
  from Parse_accepts [OF assms(1)] obtain h mp where h: "parseHeader obj = Inr h" "length obj = Repo_Object.HeaderSize + unat (metaSize h) + unat (dataSize h)"
    "fst (key_Decrypt ops (ro_key r) cid (slice Repo_Object.HeaderSize (unat (metaSize h)) obj) (aadFor (h_version h) obj metaAADTag)) = Inr mp" "metaFromBytes mp = Inr m" by blast
  then obtain k where "key_Decrypt ops (ro_key r) cid (slice Repo_Object.HeaderSize (unat (metaSize h)) obj) (aadFor (h_version h) obj metaAADTag) = (Inr mp, k)" by (metis eq_fst_iff)
  then have "openMeta ops r cid obj h want = (Inl WrongType, r\<lparr>ro_key := k\<rparr>)" using h(4) assms(2,3) by (simp add: openMeta_def)
  then show ?thesis using h(1,2) by (simp add: Parse_def no_parse_options_def)
qed

text \<open>C40. Deduplication ignores the type of an object, reading does not. Data that is in the repository as
  one kind of object is not stored again when it is added as another kind; the entry that is
  returned then names an object that every reader who asks for the second kind refuses. A file of
  the one byte 0x90 is the item list of an archive without items, so whichever of the two is
  backed up second cannot be restored.\<close>

theorem dedup_ignores_type:
  fixes t :: "aead_key tools"
  assumes tools: "t_ops t = aead_ops env" "codecs_ok (t_codecs t)" "\<forall>b. length (t_sha t b) = 32"
    and repo: "NewChunkIndex usable = Some (Inr c)" "usable < 2 ^ 30" "NewPackWriter c mc ms async = Inr w" "0 < ms" "ms \<le> 2 ^ 31"
    and key: "aead_key_inv env (ro_key ro)" "\<forall>d i. ak_IDHash (ro_key ro) d = Some i \<longrightarrow> length i = 32"
    and builder: "NewBuilder t (open_repository w) ro opts = Inr b" "pred_option wf_comp (bo_Compressor opts)"
      "ChunkMinExp (bo_ChunkerParams opts) \<le> 62" "WindowSize (bo_ChunkerParams opts) \<le> 2 ^ 62"
    and first: "AddChunk t b d ty1 = Some (Inr e, b1)" "length ty1 < 32"
    and second: "ty2 \<noteq> ty1" "ty2 \<noteq> TypeDontCare"
  shows "\<exists>b2. AddChunk t b1 d ty2 = Some (Inr e, b2) \<and> b_repo b2 = b_repo b1
    \<and> (\<forall>b3 ro2. build_step t b2 BFlush = Some (Inr [], b3) \<and> inj_on (t_sha t) (snd ` set (pw_log (r_pw (b_repo b3))))
         \<and> aead_key_inv env (ro_key ro2) \<and> same_aead_key (ro_key ro) (ro_key ro2) \<longrightarrow>
        (\<exists>obj ro3. repo_Get (b_repo b3) (cle_ID e) = Some (Inr obj, b_repo b3)
           \<and> Parse (t_ops t) (t_codecs t) ro2 (cle_ID e) obj ty2 no_parse_options = Some (Inl WrongType, ro3)))"
proof -
  let ?k = "ro_key ro" and ?inv = "\<lambda>H n b. bld_inv t (aead_key_inv env) same_aead_key (ro_key ro) H n b"
  note ops = tools(1) [unfolded aead_ops_def]
  note start = aead.NewBuilder_inv [OF repo builder(1) key(1) builder(2-4)]
  have "?inv {} (Suc (Suc 0)) b" by (rule start(1)) simp
  from aead.AddChunk_correct [OF ops tools(2,3) key(2) first(2) this, of d] obtain res rp rob s b' where
    A: "AddChunk t b d ty1 = Some (res, b')" "b' = b\<lparr>b_repo := rp, b_ro := rob, b_stats := s\<rparr>" "?inv {(d, ty1)} 0 b'"
    "case res of Inl _ \<Rightarrow> True | Inr e \<Rightarrow> ak_IDHash ?k d = Some (cle_ID e) \<and> cle_Size e = int (length d)
         \<and> dom (ci_map (b_index b')) = insert (cle_ID e) (dom (ci_map (b_index b)))" by blast
  have eq: "res = Inr e" "b' = b1" using A(1) first(1) by simp_all
  have a: "b1 = b\<lparr>b_repo := rp, b_ro := rob, b_stats := s\<rparr>" "?inv {(d, ty1)} 0 b1" "ak_IDHash ?k d = Some (cle_ID e)" "cle_Size e = int (length d)"
      "dom (ci_map (b_index b1)) = insert (cle_ID e) (dom (ci_map (b_index b)))" using A(2-4) unfolding eq by (auto simp only: sum.case)
  have l: "length (cle_ID e) = 32" using key(2) a(3) by blast
  have i1: "ci_inv (b_index b1)" "same_aead_key ?k (ro_key (b_ro b1))" using a(2) by (auto simp: bld_inv_def pw_inv_def pw_ok_def in_step_def)
  have "key_IDHash (t_ops t) (ro_key (b_ro b1)) d = Some (cle_ID e)" using a(3) aead.same_idhash [OF i1(2)] by (simp add: ops ops_of_def)
  from AddChunk_seen [OF this l i1(1), of ty2] a(4,5) obtain st where
    b2: "AddChunk t b1 d ty2 = Some (Inr e, b1\<lparr>b_stats := st\<rparr>)" by (cases e) auto
  have inv2: "?inv {(d, ty1)} (0 + op_room BFlush) (b1\<lparr>b_stats := st\<rparr>)" "setup_ok (b1\<lparr>b_stats := st\<rparr>)"
    using a(1,2) start(2) [of 0] by (simp_all add: bld_inv_def setup_ok_def)
  have "\<exists>obj ro3. repo_Get (b_repo b3) (cle_ID e) = Some (Inr obj, b_repo b3)
           \<and> Parse (t_ops t) (t_codecs t) ro2 (cle_ID e) obj ty2 no_parse_options = Some (Inl WrongType, ro3)"
    if b3: "build_step t (b1\<lparr>b_stats := st\<rparr>) BFlush = Some (Inr [], b3)" and packs: "inj_on (t_sha t) (snd ` set (pw_log (r_pw (b_repo b3))))"
      and rd: "aead_key_inv env (ro_key ro2)" "same_aead_key ?k (ro_key ro2)" for b3 ro2
  proof -
    have "build_op_ok BFlush" by simp
    from aead.build_step_correct [OF ops tools(2,3) key(2) this inv2(2,1)] b3 have
      f: "?inv {(d, ty1)} 0 b3" "dom (ci_map (b_index b1)) \<subseteq> dom (ci_map (b_index b3))" "waiting (r_pw (b_repo b3)) = {}" by auto
    have "cle_ID e \<in> dom (ci_map (b_index b3))" using f(2) a(5) by blast
    from aead.read_chunk [OF ops f(1,3) packs this l] obtain obj where o: "repo_Get (b_repo b3) (cle_ID e) = Some (Inr obj, b_repo b3)"
      "reads_as (t_ops t) (t_codecs t) (aead_key_inv env) same_aead_key ?k (cle_ID e) obj d ty1" by blast
    from reads_asD [OF o(2) rd, of TypeDontCare] obtain m r' where
      "Parse (t_ops t) (t_codecs t) ro2 (cle_ID e) obj TypeDontCare no_parse_options = Some (Inr (m, d), r')" "rm_Type m = ty1" by blast
    from Parse_wrong_type [OF this(1), of ty2] this(2) second o(1) show ?thesis by simp
  qed
  then show ?thesis using b2 by (intro exI [of _ "b1\<lparr>b_stats := st\<rparr>"]) (simp del: build_step.simps)
qed

theorem dedup_ignores_type_witness:
  "\<exists>k c w b e b1 b2 b3 obj ro3. toy_start k c w b \<and> AddChunk toy_tools b [0x90] TypeFileStream = Some (Inr e, b1)
    \<and> AddChunk toy_tools b1 [0x90] TypeArchiveChunkIDs = Some (Inr e, b2) \<and> build_step toy_tools b2 BFlush = Some (Inr [], b3)
    \<and> repo_Get (b_repo b3) (cle_ID e) = Some (Inr obj, b_repo b3)
    \<and> Parse (aead_ops toy_env32) toy_codecs (toy_ro k) (cle_ID e) obj TypeArchiveChunkIDs no_parse_options = Some (Inl WrongType, ro3)
    \<and> Marshal (VArr []) = Inr [0x90]"
proof -
  from toy_start_ex obtain k c w b where b: "toy_start k c w b" by blast
  note p = b [unfolded toy_start_def]
  from toy_AddChunk [OF b, of "[0x90]" TypeFileStream] obtain b1 where b1: "AddChunk toy_tools b [0x90] TypeFileStream = Some (Inr \<lparr>cle_ID = toy_hash [0x90], cle_Size = 1\<rparr>, b1)"
    "pw_log (r_pw (b_repo b1)) = []" "pw_inflight (r_pw (b_repo b1)) = None" by (auto simp: TypeFileStream_def TypeDontCare_def)
  have ro: "ro_key (toy_ro k) = k" by (simp add: toy_ro_def)
  have key: "ak_IDHash (ro_key (toy_ro k)) = (\<lambda>d. Some (toy_hash d))" "aead_key_inv toy_env32 (ro_key (toy_ro k))" using toy_key [OF b] by (simp_all add: ro)
  have ids: "\<forall>d i. ak_IDHash (ro_key (toy_ro k)) d = Some i \<longrightarrow> length i = 32" by (simp add: key length_toy_hash)
  have tl: "codecs_ok (t_codecs toy_tools)" "\<forall>b. length (t_sha toy_tools b) = 32" by (simp_all add: toy_tools_simps toy_codecs_ok length_toy_hash)
  have ty: "length TypeFileStream < 32" "TypeArchiveChunkIDs \<noteq> TypeFileStream" "TypeArchiveChunkIDs \<noteq> TypeDontCare"
    by (simp_all add: TypeFileStream_def TypeArchiveChunkIDs_def TypeDontCare_def)
  note T = dedup_ignores_type [OF toy_tools_simps(1) tl, of 10 c 0 100000 True w "toy_ro k" toy_options b, OF _ _ _ _ _ key(2) ids _ toy_params b1(1) ty]
  obtain b2 where b2: "AddChunk toy_tools b1 [0x90] TypeArchiveChunkIDs = Some (Inr \<lparr>cle_ID = toy_hash [0x90], cle_Size = 1\<rparr>, b2)" "b_repo b2 = b_repo b1"
    and R: "\<forall>b3 ro2. build_step toy_tools b2 BFlush = Some (Inr [], b3) \<and> inj_on (t_sha toy_tools) (snd ` set (pw_log (r_pw (b_repo b3))))
         \<and> aead_key_inv toy_env32 (ro_key ro2) \<and> same_aead_key (ro_key (toy_ro k)) (ro_key ro2) \<longrightarrow>
        (\<exists>obj ro3. repo_Get (b_repo b3) (toy_hash [0x90]) = Some (Inr obj, b_repo b3)
           \<and> Parse (t_ops toy_tools) (t_codecs toy_tools) ro2 (toy_hash [0x90]) obj TypeArchiveChunkIDs no_parse_options = Some (Inl WrongType, ro3))"
    using T p by (simp del: build_step.simps) blast
  have "bld_inv toy_tools (aead_key_inv toy_env32) same_aead_key k {} (Suc (Suc 0)) b" by (rule toy_inv(1) [OF b]) simp
  from aead.AddChunk_correct [OF toy_tools_simps(1) [unfolded aead_ops_def] tl ids [unfolded ro] ty(1) this, of "[0x90]"] b1(1)
  have "bld_inv toy_tools (aead_key_inv toy_env32) same_aead_key k {([0x90], TypeFileStream)} 0 b1" by auto
  then obtain added where "pw_ok {} toy_hash 0 added (r_pw (b_repo b2))" using b2(2) by (auto simp: bld_inv_def pw_inv_def toy_tools_simps)
  from toy_Flush [OF this] b1(2,3) b2(2) obtain b3 where f: "build_step toy_tools b2 BFlush = Some (Inr [], b3)" "inj_on (t_sha toy_tools) (snd ` set (pw_log (r_pw (b_repo b3))))"
    by (auto simp: no_failed_def toy_tools_simps simp del: build_step.simps)
  with R key(2) aead.same_refl obtain obj ro3 where "repo_Get (b_repo b3) (toy_hash [0x90]) = Some (Inr obj, b_repo b3)"
    "Parse (t_ops toy_tools) (t_codecs toy_tools) (toy_ro k) (toy_hash [0x90]) obj TypeArchiveChunkIDs no_parse_options = Some (Inl WrongType, ro3)" by blast
  moreover have "Marshal (VArr []) = Inr [0x90]" by code_simp
  ultimately show ?thesis using b b1(1) b2(1) f(1) unfolding toy_tools_simps(1,2)
    by (intro exI [of _ k] exI [of _ c] exI [of _ w] exI [of _ b] exI [of _ "\<lparr>cle_ID = toy_hash [0x90], cle_Size = 1\<rparr>"] exI [of _ b1] exI [of _ b2] exI [of _ b3] exI [of _ obj] exI [of _ ro3])
      (simp del: build_step.simps)
qed

end
