(* ===== verification/Item_Stream.thy ===== *)
theory Item_Stream
  imports Msgpack
begin

text \<open>
  Reading the item stream, \<^verbatim>\<open>src/internal/archive/stream.go\<close>: values packed back to back arrive in
  arbitrary pieces and are decoded as soon as they are complete.
\<close>

section \<open>The unpacker\<close>

record stream_unpacker =
  u_buf :: bytes
  u_off :: nat

definition compactThreshold :: nat where "compactThreshold = 64 * 1024"

definition unpacker_compact :: "stream_unpacker \<Rightarrow> stream_unpacker" where
  "unpacker_compact u =
     (if u_off u = 0 then u
      else if u_off u \<ge> length (u_buf u) then \<lparr>u_buf = [], u_off = 0\<rparr>
      else if u_off u \<ge> compactThreshold then \<lparr>u_buf = drop (u_off u) (u_buf u), u_off = 0\<rparr>
      else u)"

definition unpacker_feed :: "stream_unpacker \<Rightarrow> bytes \<Rightarrow> stream_unpacker" where
  "unpacker_feed u data = (let u1 = unpacker_compact u in u1\<lparr>u_buf := u_buf u1 @ data\<rparr>)"

definition unpacker_pending :: "stream_unpacker \<Rightarrow> nat" where
  "unpacker_pending u = length (u_buf u) - u_off u"

text \<open>\<open>Inr None\<close> when the buffer holds only part of a value.\<close>

definition unpacker_next :: "stream_unpacker \<Rightarrow> (mp_error + mp_value option) \<times> stream_unpacker" where
  "unpacker_next u =
     (if unpacker_pending u = 0 then (Inr None, u)
      else case Decode (drop (u_off u) (u_buf u)) of
        Inl e \<Rightarrow> (if e = ShortBuffer then Inr None else Inl e, u)
      | Inr (v, r) \<Rightarrow> (Inr (Some v), u\<lparr>u_off := length (u_buf u) - length r\<rparr>))"

lemma Decode_shorter: "Decode bs = Inr (v, r) \<Longrightarrow> \<exists>used. bs = used @ r \<and> used \<noteq> []"
proof -
  assume "Decode bs = Inr (v, r)"
  then have d: "decode DefaultMaxDepth 0 bs = Inr (v, r)" by (simp add: Decode_def split: if_splits)
  from decode_ok(1) [OF d] obtain used where "bs = used @ r" "nodes v \<le> length used" by (auto simp: reads_def)
  moreover have "0 < nodes v" by (cases v) simp_all
  ultimately show ?thesis by auto
qed

text \<open>The inner loop of \<open>RawItems\<close>; its callback collects the values and never stops the walk.\<close>

function unpack_loop :: "stream_unpacker \<Rightarrow> (mp_error + mp_value list) \<times> stream_unpacker" where
  "unpack_loop u =
     (case unpacker_next u of
        (Inl e, u1) \<Rightarrow> (Inl e, u1)
      | (Inr None, u1) \<Rightarrow> (Inr [], u1)
      | (Inr (Some v), u1) \<Rightarrow> map_prod (map_sum id ((#) v)) id (unpack_loop u1))"
  by pat_completeness auto
termination
proof (relation "measure unpacker_pending")
  fix u y u1 z v
  assume a: "(y, u1) = unpacker_next u" "y = Inr z" "z = Some v"
  then obtain r where r: "unpacker_pending u \<noteq> 0" "Decode (drop (u_off u) (u_buf u)) = Inr (v, r)" "u1 = u\<lparr>u_off := length (u_buf u) - length r\<rparr>"
    by (auto simp: unpacker_next_def split: if_splits sum.splits)
  from Decode_shorter [OF r(2)] obtain used where u: "drop (u_off u) (u_buf u) = used @ r" "used \<noteq> []" by blast
  have "length (drop (u_off u) (u_buf u)) = length used + length r" unfolding u(1) by simp
  then show "(u1, u) \<in> measure unpacker_pending" using r(1,3) u(2) by (auto simp: unpacker_pending_def)
qed simp

fun unpack_chunks :: "stream_unpacker \<Rightarrow> bytes list \<Rightarrow> (mp_error + mp_value list) \<times> stream_unpacker" where
  "unpack_chunks u [] = (Inr [], u)"
| "unpack_chunks u (data # ds) =
     (case unpack_loop (unpacker_feed u data) of
        (Inl e, u1) \<Rightarrow> (Inl e, u1)
      | (Inr vs, u1) \<Rightarrow> map_prod (map_sum id ((@) vs)) id (unpack_chunks u1 ds))"

declare unpack_loop.simps [simp del]

section \<open>More input does not change what was decoded\<close>

text \<open>A reader that has its result, or an error other than a short buffer, keeps it when input is added.\<close>

definition settled :: "(bytes \<Rightarrow> mp_error + 'a \<times> bytes) \<Rightarrow> bytes \<Rightarrow> bool" where
  "settled f p \<longleftrightarrow> (\<forall>s. case f p of Inl e \<Rightarrow> e = ShortBuffer \<or> f (p @ s) = Inl e | Inr (x, r) \<Rightarrow> f (p @ s) = Inr (x, r @ s))"

lemma settled_bind:
  assumes "settled f p" "\<And>x r. f p = Inr (x, r) \<Longrightarrow> settled (g x) r"
  shows "settled (\<lambda>bs. bind_res (f bs) (\<lambda>(x, r). g x r)) p"
proof (cases "f p")
  case (Inl e)
  then show ?thesis using assms(1) by (auto simp: settled_def)
next
  case (Inr y)
  obtain x r where y: "y = (x, r)" by fastforce
  then have "settled (g x) r" "\<And>s. f (p @ s) = Inr (x, r @ s)" using assms Inr by (auto simp: settled_def)
  then show ?thesis using Inr y by (simp add: settled_def split: sum.splits prod.splits)
qed

lemma settled_Inr: "settled (\<lambda>bs. Inr (x, bs)) p" and settled_Inl: "settled (\<lambda>_. Inl e) p"
  by (simp_all add: settled_def)

lemma settled_if: "(P \<Longrightarrow> settled f p) \<Longrightarrow> (\<not> P \<Longrightarrow> settled g p) \<Longrightarrow> settled (\<lambda>bs. if P then f bs else g bs) p"
  by (cases P) simp_all

lemma settled_readByte: "settled readByte p"
  by (cases p) (simp_all add: settled_def readByte_def)

lemma settled_readN: "settled (readN n) p"
  by (auto simp: settled_def readN_def)

lemma settled_readLen: "settled (readLen w) p"
proof -
  have "readLen w = (\<lambda>bs. bind_res (readN w bs) (\<lambda>(b, r). Inr (be_dec b, r)))" by (simp add: readLen_def fun_eq_iff)
  then show ?thesis by (simp only:) (intro settled_bind settled_readN settled_Inr)
qed

lemma settled_hlen: "(\<And>n r. settled (f n) r) \<Longrightarrow> settled (\<lambda>bs. hlen w bs f) p"
  unfolding hlen_def by (intro settled_bind settled_readLen)

lemma settled_hval: "settled f p \<Longrightarrow> settled (\<lambda>bs. hval (f bs)) p"
  unfolding hval_def by (intro settled_bind settled_Inr)

lemma settled_decodeStr: "settled (decodeStr n) p"
  unfolding decodeStr_def [abs_def] by (intro settled_bind settled_readN settled_Inr)

lemma settled_decodeBin: "settled (decodeBin n) p"
  unfolding decodeBin_def [abs_def] by (intro settled_bind settled_readN settled_Inr)

lemma settled_lift: "settled (\<lambda>bs. bind_res m (\<lambda>v. Inr (v, bs))) p"
  by (cases m) (simp_all add: settled_def)

lemma settled_decodeExt: "settled (decodeExt n) p"
proof -
  have "decodeExt n = (\<lambda>bs. bind_res (readByte bs) (\<lambda>(t, r). bind_res (readN n r) (\<lambda>(body, r').
     if t = 0xff then bind_res (decodeTimestamp body) (\<lambda>v. Inr (v, r')) else Inr (VExt t body, r'))))" by (simp add: decodeExt_def fun_eq_iff)
  then show ?thesis by (simp only:) (intro settled_bind settled_readByte settled_readN settled_if settled_Inr settled_lift)
qed

lemma settled_head: "settled decode_head p"
proof -
  have e: "decode_head = (\<lambda>bs. bind_res (readByte bs) (\<lambda>(c, r). decode_head (c # r)))"
    by (auto simp: decode_head_def fun_eq_iff bind_res_def readByte_def split: list.split)
  have "settled (\<lambda>r. decode_head (c # r)) r" for c r
    unfolding decode_head_def readByte_Cons bind_res_simps prod.case Let_def
    by (intro settled_if settled_bind settled_readByte settled_readN settled_Inr settled_Inl settled_hval settled_hlen
      settled_decodeStr settled_decodeBin settled_decodeExt)
  then show ?thesis by (subst e) (intro settled_bind settled_readByte)
qed

lemma settled_count: "(checkCount n k p \<Longrightarrow> settled f p) \<Longrightarrow> settled (\<lambda>bs. if \<not> checkCount n k bs then Inl ShortBuffer else f bs) p"
  by (auto simp: settled_def checkCount_def split: sum.splits prod.splits)

lemma settled_cong: "settled f p \<Longrightarrow> (\<And>bs. g bs = f bs) \<Longrightarrow> settled g p"
proof -
  assume s: "settled f p" and e: "\<And>bs. g bs = f bs"
  have "g = f" using e by (rule ext)
  then show "settled g p" using s by simp
qed

lemma settled_decode:
  shows "settled (decode D d) bs" and "settled (decodeArray D d n) bs" and "settled (decodeMap D d n) bs"
    and "settled (decodeElems D d n) bs" and "settled (decodeEntries D d n) bs"
proof (induction D d bs and D d n bs and D d n bs and D d n bs and D d n bs rule: decode_decodeArray_decodeMap_decodeElems_decodeEntries.induct)
  case (1 D d bs)
  have "settled (\<lambda>r. case h of HVal v \<Rightarrow> Inr (v, r) | HArr n \<Rightarrow> decodeArray D (Suc d) n r | HMap n \<Rightarrow> decodeMap D (Suc d) n r) r"
    if "\<not> D < d" "decode_head bs = Inr (h, r)" for h r
  proof (cases h)
    case (HArr n)
    then show ?thesis using 1(1) [of h n r] that by simp
  next
    case (HMap n)
    then show ?thesis using 1(2) [of h n r] that by simp
  qed (simp add: settled_Inr)
  then show ?case unfolding decode.simps(1) [abs_def] by (intro settled_if settled_Inl settled_bind settled_head)
next
  case (2 D d n bs)
  have "checkCount n 1 bs \<Longrightarrow> settled (decodeElems D d n) bs" using 2 by simp
  then have "settled (\<lambda>bs. if \<not> checkCount n 1 bs then Inl ShortBuffer else bind_res (decodeElems D d n bs) (\<lambda>(xs, r). Inr (VArr xs, r))) bs"
    by (intro settled_count settled_bind settled_Inr)
  then show ?case by (rule settled_cong) (simp add: decode.simps)
next
  case (3 D d n bs)
  have "checkCount n 2 bs \<Longrightarrow> settled (decodeEntries D d n) bs" using 3 by simp
  then have "settled (\<lambda>bs. if \<not> checkCount n 2 bs then Inl ShortBuffer else bind_res (decodeEntries D d n bs) (\<lambda>(xs, r). Inr (VMap False xs, r))) bs"
    by (intro settled_count settled_bind settled_Inr)
  then show ?case by (rule settled_cong) (simp add: decode.simps)
next
  case (4 D d bs)
  show ?case by (rule settled_cong [OF settled_Inr]) (simp add: decode.simps)
next
  case (5 D d n bs)
  have "settled (\<lambda>bs. bind_res (decode D d bs) (\<lambda>(x, r). bind_res (decodeElems D d n r) (\<lambda>(xs, r'). Inr (x # xs, r')))) bs"
    using 5 by (intro settled_bind settled_Inr) auto
  then show ?case by (rule settled_cong) (simp add: decode.simps)
next
  case (6 D d bs)
  show ?case by (rule settled_cong [OF settled_Inr]) (simp add: decode.simps)
next
  case (7 D d n bs)
  have "settled (\<lambda>bs. bind_res (decode D d bs) (\<lambda>(k, r). bind_res (decode D d r) (\<lambda>(v, r'). bind_res (decodeEntries D d n r') (\<lambda>(es, r''). Inr ((k, v) # es, r''))))) bs"
    using 7 by (intro settled_bind settled_Inr) auto
  then show ?case by (rule settled_cong) (simp add: decode.simps)
qed

section \<open>Any division of the stream gives the same values\<close>

definition rest_of :: "stream_unpacker \<Rightarrow> bytes" where
  "rest_of u = drop (u_off u) (u_buf u)"

definition packed :: "mp_value \<Rightarrow> bytes \<Rightarrow> bool" where
  "packed v b \<longleftrightarrow> Marshal v = Inr b \<and> plain_ext v"

lemma pending_rest: "unpacker_pending u = length (rest_of u)"
  by (simp add: unpacker_pending_def rest_of_def)

lemma rest_feed: "rest_of (unpacker_feed u data) = rest_of u @ data"
  by (auto simp: rest_of_def unpacker_feed_def unpacker_compact_def Let_def)

lemma packed_decode:
  assumes "packed v b"
  shows "Decode (b @ r) = Inr (canon v, r)" "b \<noteq> []"
proof -
  have e: "encode DefaultMaxDepth 0 v = Inr b" "plain_ext v" using assms by (simp_all add: packed_def Marshal_def)
  have d: "decode DefaultMaxDepth 0 (b @ r) = Inr (canon v, r)" for r by (rule roundtrip_aux(1) [OF e])
  show ne: "b \<noteq> []" using decode_ne [OF d [of "[]"]] by simp
  then show "Decode (b @ r) = Inr (canon v, r)" using d by (simp add: Decode_def)
qed

text \<open>A beginning of a packed value is reported as a short buffer, never as an error or another value.\<close>

lemma partial_value:
  assumes "packed v (p @ x)" "x \<noteq> []" "p \<noteq> []"
  shows "Decode p = Inl ShortBuffer"
proof -
  have d: "decode DefaultMaxDepth 0 (p @ x) = Inr (canon v, [])" using packed_decode(1) [OF assms(1), of "[]"] assms(3) by (simp add: Decode_def)
  have s: "settled (decode DefaultMaxDepth 0) p" by (rule settled_decode)
  show ?thesis
  proof (cases "decode DefaultMaxDepth 0 p")
    case (Inl e)
    then show ?thesis using s d assms(3) by (auto simp: settled_def Decode_def)
  next
    case (Inr y)
    then obtain w r where "decode DefaultMaxDepth 0 p = Inr (w, r)" by (cases y) auto
    then have "decode DefaultMaxDepth 0 (p @ x) = Inr (w, r @ x)" using s by (simp add: settled_def)
    then show ?thesis using d assms(2) by simp
  qed
qed

lemma unpack_loop_values:
  "list_all2 packed vs bs \<Longrightarrow> rest_of u @ t = concat bs \<Longrightarrow>
    \<exists>vs1 vs2 bs2 u'. vs = vs1 @ vs2 \<and> list_all2 packed vs2 bs2 \<and> unpack_loop u = (Inr (map canon vs1), u')
      \<and> rest_of u' @ t = concat bs2 \<and> (t = [] \<longrightarrow> vs2 = [])"
proof (induction vs bs arbitrary: u rule: list_all2_induct)
  case Nil
  then have "unpack_loop u = (Inr [], u)" by (subst unpack_loop.simps) (simp add: unpacker_next_def pending_rest)
  then show ?case using Nil by (intro exI [of _ "[]"] exI [of _ u]) simp
next
  case (Cons v vs b bs)
  have "rest_of u @ t = b @ concat bs" using Cons.prems by simp
  then obtain us where us: "rest_of u = b @ us \<and> us @ t = concat bs \<or> rest_of u @ us = b \<and> t = us @ concat bs" unfolding append_eq_append_conv2 by blast
  consider r where "rest_of u = b @ r" | x where "b = rest_of u @ x" "x \<noteq> []" "t = x @ concat bs" using us by (cases "us = []") auto
  then show ?case
  proof cases
    case (1 r)
    let ?u = "u\<lparr>u_off := length (u_buf u) - length r\<rparr>"
    have "Decode (drop (u_off u) (u_buf u)) = Inr (canon v, r)" using packed_decode [OF Cons.hyps(1)] 1 by (simp add: rest_of_def)
    moreover have "unpacker_pending u \<noteq> 0" using packed_decode(2) [OF Cons.hyps(1)] 1 by (simp add: pending_rest)
    ultimately have n: "unpacker_next u = (Inr (Some (canon v)), ?u)" by (simp add: unpacker_next_def)
    have "u_buf u = take (u_off u) (u_buf u) @ rest_of u" by (simp add: rest_of_def)
    then obtain pre where "u_buf u = pre @ r" unfolding 1 by (metis append.assoc)
    then have r: "rest_of ?u = r" by (simp add: rest_of_def)
    have "rest_of ?u @ t = concat bs" using Cons.prems 1 r by simp
    from Cons.IH [OF this] obtain vs1 vs2 bs2 u' where i: "vs = vs1 @ vs2" "list_all2 packed vs2 bs2" "unpack_loop ?u = (Inr (map canon vs1), u')"
      "rest_of u' @ t = concat bs2" "t = [] \<longrightarrow> vs2 = []" by blast
    have "unpack_loop u = (Inr (map canon (v # vs1)), u')" using n i(3) by (subst unpack_loop.simps) simp
    then show ?thesis using i by (intro exI [of _ "v # vs1"] exI [of _ vs2] exI [of _ bs2] exI [of _ u']) simp
  next
    case x: (2 x)
    have "unpacker_next u = (Inr None, u)"
    proof (cases "rest_of u = []")
      case False
      then show ?thesis using partial_value [OF _ x(2) False] Cons.hyps(1) x(1) by (simp add: unpacker_next_def rest_of_def)
    qed (simp add: unpacker_next_def pending_rest)
    then have "unpack_loop u = (Inr [], u)" by (subst unpack_loop.simps) simp
    moreover have "t \<noteq> []" using x by simp
    ultimately show ?thesis using Cons by (intro exI [of _ "[]"] exI [of _ "v # vs"] exI [of _ "b # bs"] exI [of _ u]) simp
  qed
qed

lemma unpack_chunks_values:
  "list_all2 packed vs bs \<Longrightarrow> rest_of u @ concat ds = concat bs \<Longrightarrow> ds \<noteq> [] \<or> vs = [] \<Longrightarrow>
    \<exists>u'. unpack_chunks u ds = (Inr (map canon vs), u') \<and> rest_of u' = []"
proof (induction ds arbitrary: u vs bs)
  case Nil
  then show ?case by simp
next
  case (Cons d ds)
  have "rest_of (unpacker_feed u d) @ concat ds = concat bs" using Cons.prems(2) by (simp add: rest_feed)
  from unpack_loop_values [OF Cons.prems(1) this] obtain vs1 vs2 bs2 u1 where l: "vs = vs1 @ vs2" "list_all2 packed vs2 bs2"
    "unpack_loop (unpacker_feed u d) = (Inr (map canon vs1), u1)" "rest_of u1 @ concat ds = concat bs2" "concat ds = [] \<longrightarrow> vs2 = []" by blast
  then have "ds \<noteq> [] \<or> vs2 = []" by auto
  from Cons.IH [OF l(2,4) this] obtain u' where "unpack_chunks u1 ds = (Inr (map canon vs2), u')" "rest_of u' = []" by blast
  then show ?case using l(1,3) by simp
qed

text \<open>C39. The items of an archive do not depend on where its stream was cut: whatever values were packed
  back to back, and however their bytes are divided into chunks, at boundaries of values or in the
  middle of them, reading the chunks one after the other returns, gives exactly the values in
  order, and leaves nothing behind.\<close>

theorem unpack_any_division:
  assumes "list_all2 (\<lambda>v b. Marshal v = Inr b \<and> plain_ext v) vs bs" "concat ds = concat bs"
  shows "\<exists>u. unpack_chunks \<lparr>u_buf = [], u_off = 0\<rparr> ds = (Inr (map canon vs), u) \<and> unpacker_pending u = 0"
proof -
  have p: "list_all2 packed vs bs" using assms(1) by (simp add: packed_def [abs_def])
  have "bs = [] \<or> concat bs \<noteq> []" using p packed_decode(2) by (cases bs) (auto simp: list_all2_Cons2)
  then have "ds \<noteq> [] \<or> vs = []" using assms(2) p by auto
  from unpack_chunks_values [OF p _ this, of "\<lparr>u_buf = [], u_off = 0\<rparr>"] assms(2) show ?thesis by (auto simp: rest_of_def pending_rest)
qed

theorem unpack_any_division_witness:
  "\<exists>u. unpack_chunks \<lparr>u_buf = [], u_off = 0\<rparr> [[0x92, 0xc3], [5, 0xc0, 0x91], [], [0xc2]] = (Inr [VArr [VBool True, VInt 5], VNil, VArr [VBool False]], u)
    \<and> unpacker_pending u = 0"
proof -
  let ?vs = "[VArr [VBool True, VInt 5], VNil, VArr [VBool False]]" and ?bs = "[[0x92, 0xc3, 5], [0xc0], [0x91, 0xc2]] :: bytes list"
  have "list_all2 (\<lambda>v b. Marshal v = Inr b \<and> plain_ext v) ?vs ?bs"
    by (simp add: Marshal_def encode.simps DefaultMaxDepth_def writeArrayHeader_def encodeInt_def encodeUint_def)
  moreover have "map canon ?vs = ?vs" by (simp add: canon.simps)
  ultimately show ?thesis using unpack_any_division [of ?vs ?bs "[[0x92, 0xc3], [5, 0xc0, 0x91], [], [0xc2]]"] by simp
qed

end
