(* ===== verification/Repo_Lock.thy ===== *)
theory Repo_Lock
  imports Borge_Prelude
begin

text \<open>
  The repository lock, \<^verbatim>\<open>src/internal/repository/lock.go\<close>: locks are objects in the store, named by the
  hash of their content, and mutual exclusion comes from writing one's own lock first and reading
  all others after. The first half has the operations as one client runs them; the second half
  interleaves any number of clients, every access to the store being a step of its own.

  Times are nanoseconds, the timestamp in a lock is cut to milliseconds by its layout. The name of a
  lock object, SHA-256 of its JSON, is a parameter \<open>keyOf\<close> that the mutual exclusion needs to be
  injective. Failures of the store other than a missing object are not modelled.
\<close>

section \<open>Lock objects\<close>

record lockRecord =
  lr_Exclusive :: bool
  lr_HostID :: string
  lr_ProcessID :: int
  lr_ThreadID :: int
  lr_Time :: int

text \<open>What \<open>json.Unmarshal\<close> and \<open>parseLockTime\<close> make of a stored object.\<close>

datatype lock_obj = Readable lockRecord | BadJSON | BadTime

datatype lock_error = ErrLockTimeout | ErrNotLocked | ErrObjectNotFound | Unreadable string

type_synonym lock_store = "(string \<times> lock_obj) list"

text \<open>\<open>Store\<close>, \<open>Delete\<close>, \<open>ListNames\<close> of the \<open>locks\<close> namespace.\<close>

fun st_put :: "string \<Rightarrow> lock_obj \<Rightarrow> lock_store \<Rightarrow> lock_store" where
  "st_put k v [] = [(k, v)]"
| "st_put k v ((k', v') # st) = (if k' = k then (k, v) # st else (k', v') # st_put k v st)"

definition st_del :: "string \<Rightarrow> lock_store \<Rightarrow> lock_store" where
  "st_del k st = filter (\<lambda>e. fst e \<noteq> k) st"

definition st_names :: "lock_store \<Rightarrow> string list" where
  "st_names st = map fst st"

record lock =
  l_exclusive :: bool
  l_hostID :: string
  l_processID :: int
  l_threadID :: int
  l_myKey :: string
  l_lastRefresh :: int
  l_timeout :: int
  l_stale :: int
  l_sleep :: int

definition defaultLockTimeout :: int where "defaultLockTimeout = 1000000000"
definition defaultLockStale :: int where "defaultLockStale = 30 * 60 * 1000000000"
definition defaultLockSleep :: int where "defaultLockSleep = 200000000"

definition NewLock :: "string \<Rightarrow> int \<Rightarrow> bool \<Rightarrow> lock" where
  "NewLock host pid exclusive = \<lparr>l_exclusive = exclusive, l_hostID = host, l_processID = pid, l_threadID = 0, l_myKey = [],
     l_lastRefresh = 0, l_timeout = defaultLockTimeout, l_stale = defaultLockStale, l_sleep = defaultLockSleep\<rparr>"

definition SetTimeout :: "lock \<Rightarrow> int \<Rightarrow> lock" where "SetTimeout l d = l\<lparr>l_timeout := d\<rparr>"
definition SetStale :: "lock \<Rightarrow> int \<Rightarrow> lock" where "SetStale l d = l\<lparr>l_stale := d\<rparr>"

definition cut_ms :: "int \<Rightarrow> int" where
  "cut_ms t = t - t mod 1000000"

definition lock_record :: "lock \<Rightarrow> int \<Rightarrow> lockRecord" where
  "lock_record l now = \<lparr>lr_Exclusive = l_exclusive l, lr_HostID = l_hostID l, lr_ProcessID = l_processID l, lr_ThreadID = l_threadID l,
     lr_Time = cut_ms now\<rparr>"

definition create :: "(lockRecord \<Rightarrow> string) \<Rightarrow> lock \<Rightarrow> int \<Rightarrow> lock_store \<Rightarrow> string \<times> lock_store" where
  "create keyOf l now st = (let rec = lock_record l now; key = keyOf rec in (key, st_put key (Readable rec) st))"

definition deleteLock :: "string \<Rightarrow> bool \<Rightarrow> lock_store \<Rightarrow> (lock_error + unit) \<times> lock_store" where
  "deleteLock key ignoreNotFound st =
     (if map_of st key = None then (if ignoreNotFound then Inr () else Inl ErrObjectNotFound, st)
      else (Inr (), st_del key st))"

record heldLock =
  hl_key :: string
  hl_rec :: lockRecord

text \<open>The body of the loop in \<open>getLocks\<close> for one name.\<close>

datatype load_result = LSkip lock_store | LFail lock_error | LGot heldLock

definition loadLock :: "lock \<Rightarrow> int \<Rightarrow> lock_store \<Rightarrow> string \<Rightarrow> load_result" where
  "loadLock l now st key =
     (case map_of st key of
        None \<Rightarrow> LSkip st
      | Some BadJSON \<Rightarrow> LFail (Unreadable key)
      | Some BadTime \<Rightarrow> LFail (Unreadable key)
      | Some (Readable rec) \<Rightarrow>
          if now - lr_Time rec > l_stale l then LSkip (snd (deleteLock key True st))
          else LGot \<lparr>hl_key = key, hl_rec = rec\<rparr>)"

fun loadLocks :: "lock \<Rightarrow> int \<Rightarrow> string list \<Rightarrow> lock_store \<Rightarrow> (lock_error + heldLock list) \<times> lock_store" where
  "loadLocks l now [] st = (Inr [], st)"
| "loadLocks l now (key # names) st =
     (case loadLock l now st key of
        LFail e \<Rightarrow> (Inl e, st)
      | LSkip st' \<Rightarrow> loadLocks l now names st'
      | LGot h \<Rightarrow> map_prod (map_sum id ((#) h)) id (loadLocks l now names st))"

definition getLocks :: "lock \<Rightarrow> int \<Rightarrow> lock_store \<Rightarrow> (lock_error + heldLock list) \<times> lock_store" where
  "getLocks l now st = loadLocks l now (st_names st) st"

definition isOurs :: "lock \<Rightarrow> heldLock \<Rightarrow> bool" where
  "isOurs l h \<longleftrightarrow> lr_HostID (hl_rec h) = l_hostID l \<and> lr_ProcessID (hl_rec h) = l_processID l \<and> lr_ThreadID (hl_rec h) = l_threadID l"

definition conflicts :: "lock \<Rightarrow> heldLock \<Rightarrow> bool" where
  "conflicts l h \<longleftrightarrow> \<not> isOurs l h \<and> (l_exclusive l \<or> lr_Exclusive (hl_rec h))"

section \<open>One client\<close>

text \<open>One round of \<open>Acquire\<close>; \<open>Inr False\<close> is a conflict.\<close>

definition acquireOnce :: "(lockRecord \<Rightarrow> string) \<Rightarrow> lock \<Rightarrow> int \<Rightarrow> lock_store \<Rightarrow> (lock_error + bool) \<times> lock \<times> lock_store" where
  "acquireOnce keyOf l now st =
     (case create keyOf l now st of (key, st1) \<Rightarrow>
      let l1 = l\<lparr>l_myKey := key, l_lastRefresh := now\<rparr> in
      case getLocks l1 now st1 of
        (Inl e, st2) \<Rightarrow> (Inl e, l1\<lparr>l_myKey := []\<rparr>, snd (deleteLock key True st2))
      | (Inr locks, st2) \<Rightarrow>
          if \<not> (\<exists>h\<in>set locks. conflicts l1 h) then (Inr True, l1, st2)
          else (Inr False, l1\<lparr>l_myKey := []\<rparr>, snd (deleteLock key True st2)))"

text \<open>The loop, for a client that runs alone and whose clock only moves while it sleeps.\<close>

partial_function (option) acquireLoop :: "(lockRecord \<Rightarrow> string) \<Rightarrow> int \<Rightarrow> lock \<Rightarrow> int \<Rightarrow> lock_store
    \<Rightarrow> ((lock_error + unit) \<times> lock \<times> lock_store \<times> int) option" where
  "acquireLoop keyOf deadline l now st =
     (case acquireOnce keyOf l now st of
        (Inl e, l', st') \<Rightarrow> Some (Inl e, l', st', now)
      | (Inr acquired, l', st') \<Rightarrow>
          if acquired then Some (Inr (), l', st', now)
          else if now > deadline then Some (Inl ErrLockTimeout, l', st', now)
          else acquireLoop keyOf deadline l' (now + l_sleep l') st')"

definition Acquire :: "(lockRecord \<Rightarrow> string) \<Rightarrow> lock \<Rightarrow> int \<Rightarrow> lock_store \<Rightarrow> ((lock_error + unit) \<times> lock \<times> lock_store \<times> int) option" where
  "Acquire keyOf l now st = acquireLoop keyOf (now + l_timeout l) l now st"

definition Release :: "lock \<Rightarrow> bool \<Rightarrow> lock_store \<Rightarrow> (lock_error + unit) \<times> lock \<times> lock_store" where
  "Release l ignoreNotFound st =
     (if l_myKey l = [] then (if ignoreNotFound then Inr () else Inl ErrNotLocked, l, st)
      else case deleteLock (l_myKey l) ignoreNotFound st of (r, st') \<Rightarrow> (r, l\<lparr>l_myKey := []\<rparr>, st'))"

definition refreshDue :: "lock \<Rightarrow> int \<Rightarrow> bool" where
  "refreshDue l now \<longleftrightarrow> \<not> now - l_lastRefresh l < l_stale l div 2"

definition Refresh :: "(lockRecord \<Rightarrow> string) \<Rightarrow> lock \<Rightarrow> int \<Rightarrow> lock_store \<Rightarrow> (lock_error + unit) \<times> lock \<times> lock_store" where
  "Refresh keyOf l now st =
     (if l_myKey l = [] then (Inl ErrNotLocked, l, st)
      else if \<not> refreshDue l now then (Inr (), l, st)
      else case create keyOf l now st of (key, st1) \<Rightarrow>
        (case deleteLock (l_myKey l) True st1 of (r, st2) \<Rightarrow> (r, l\<lparr>l_myKey := key, l_lastRefresh := now\<rparr>, st2)))"

record HeldLock =
  HL_Key :: string
  HL_Exclusive :: bool
  HL_Host :: string
  HL_PID :: int
  HL_Time :: int
  HL_Stale :: bool

fun listLocks :: "int \<Rightarrow> string list \<Rightarrow> lock_store \<Rightarrow> lock_error + HeldLock list" where
  "listLocks now [] st = Inr []"
| "listLocks now (key # names) st =
     (case map_of st key of
        None \<Rightarrow> listLocks now names st
      | Some (Readable rec) \<Rightarrow> bind_res (listLocks now names st) (\<lambda>out. Inr
          (\<lparr>HL_Key = key, HL_Exclusive = lr_Exclusive rec, HL_Host = lr_HostID rec, HL_PID = lr_ProcessID rec, HL_Time = lr_Time rec,
            HL_Stale = (now - lr_Time rec > defaultLockStale)\<rparr> # out))
      | Some _ \<Rightarrow> Inl (Unreadable key))"

definition ListLocks :: "int \<Rightarrow> lock_store \<Rightarrow> lock_error + HeldLock list" where
  "ListLocks now st = listLocks now (st_names st) st"

definition BreakLock :: "lock_store \<Rightarrow> lock_store" where
  "BreakLock st = fold st_del (st_names st) st"

section \<open>Many clients\<close>

text \<open>Where a client is: not holding anything, its lock written, reading the others (the names still to
  load and the locks found so far), holding, holding with an old lock still to be removed by a
  refresh, or gone without releasing.\<close>

datatype phase = Idle | Created | Loading "string list" "heldLock list" | Held | Refreshing string | Crashed

record lsys =
  sys_store :: lock_store
  sys_now :: int
  sys_lock :: "nat \<Rightarrow> lock"
  sys_phase :: "nat \<Rightarrow> phase"

definition live :: "phase \<Rightarrow> bool" where
  "live ph \<longleftrightarrow> ph \<noteq> Idle \<and> ph \<noteq> Crashed"

definition holds :: "phase \<Rightarrow> bool" where
  "holds ph \<longleftrightarrow> ph = Held \<or> (\<exists>old. ph = Refreshing old)"

text \<open>The clock may advance as long as no live client fails to keep its lock fresh. \<open>may_refresh\<close> says
  in which states client \<open>i\<close> may write the new lock of a refresh.\<close>

definition fresh_at :: "lsys \<Rightarrow> int \<Rightarrow> bool" where
  "fresh_at s t \<longleftrightarrow> (\<forall>i j. live (sys_phase s i) \<longrightarrow> t - cut_ms (l_lastRefresh (sys_lock s i)) \<le> l_stale (sys_lock s j))"

inductive lstep :: "(lockRecord \<Rightarrow> string) \<Rightarrow> (lsys \<Rightarrow> nat \<Rightarrow> bool) \<Rightarrow> lsys \<Rightarrow> lsys \<Rightarrow> bool" for keyOf may_refresh where
  write_lock: "sys_phase s i = Idle \<Longrightarrow> create keyOf (sys_lock s i) (sys_now s) (sys_store s) = (key, st) \<Longrightarrow>
    lstep keyOf may_refresh s (s\<lparr>sys_store := st, sys_lock := (sys_lock s)(i := (sys_lock s i)\<lparr>l_myKey := key, l_lastRefresh := sys_now s\<rparr>),
      sys_phase := (sys_phase s)(i := Created)\<rparr>)"
| list_names: "sys_phase s i = Created \<Longrightarrow>
    lstep keyOf may_refresh s (s\<lparr>sys_phase := (sys_phase s)(i := Loading (st_names (sys_store s)) [])\<rparr>)"
| load_skip: "sys_phase s i = Loading (key # names) seen \<Longrightarrow> loadLock (sys_lock s i) (sys_now s) (sys_store s) key = LSkip st \<Longrightarrow>
    lstep keyOf may_refresh s (s\<lparr>sys_store := st, sys_phase := (sys_phase s)(i := Loading names seen)\<rparr>)"
| load_got: "sys_phase s i = Loading (key # names) seen \<Longrightarrow> loadLock (sys_lock s i) (sys_now s) (sys_store s) key = LGot h \<Longrightarrow>
    lstep keyOf may_refresh s (s\<lparr>sys_phase := (sys_phase s)(i := Loading names (seen @ [h]))\<rparr>)"
| load_fail: "sys_phase s i = Loading (key # names) seen \<Longrightarrow> loadLock (sys_lock s i) (sys_now s) (sys_store s) key = LFail e \<Longrightarrow>
    lstep keyOf may_refresh s (s\<lparr>sys_store := snd (deleteLock (l_myKey (sys_lock s i)) True (sys_store s)),
      sys_lock := (sys_lock s)(i := (sys_lock s i)\<lparr>l_myKey := []\<rparr>), sys_phase := (sys_phase s)(i := Idle)\<rparr>)"
| acquired: "sys_phase s i = Loading [] seen \<Longrightarrow> \<not> (\<exists>h\<in>set seen. conflicts (sys_lock s i) h) \<Longrightarrow>
    lstep keyOf may_refresh s (s\<lparr>sys_phase := (sys_phase s)(i := Held)\<rparr>)"
| withdraw: "sys_phase s i = Loading [] seen \<Longrightarrow> \<exists>h\<in>set seen. conflicts (sys_lock s i) h \<Longrightarrow>
    lstep keyOf may_refresh s (s\<lparr>sys_store := snd (deleteLock (l_myKey (sys_lock s i)) True (sys_store s)),
      sys_lock := (sys_lock s)(i := (sys_lock s i)\<lparr>l_myKey := []\<rparr>), sys_phase := (sys_phase s)(i := Idle)\<rparr>)"
| release: "sys_phase s i = Held \<Longrightarrow> Release (sys_lock s i) ign (sys_store s) = (r, l, st) \<Longrightarrow>
    lstep keyOf may_refresh s (s\<lparr>sys_store := st, sys_lock := (sys_lock s)(i := l), sys_phase := (sys_phase s)(i := Idle)\<rparr>)"
| refresh_write: "sys_phase s i = Held \<Longrightarrow> refreshDue (sys_lock s i) (sys_now s) \<Longrightarrow> may_refresh s i \<Longrightarrow>
    create keyOf (sys_lock s i) (sys_now s) (sys_store s) = (key, st) \<Longrightarrow>
    lstep keyOf may_refresh s (s\<lparr>sys_store := st, sys_lock := (sys_lock s)(i := (sys_lock s i)\<lparr>l_myKey := key, l_lastRefresh := sys_now s\<rparr>),
      sys_phase := (sys_phase s)(i := Refreshing (l_myKey (sys_lock s i)))\<rparr>)"
| refresh_delete: "sys_phase s i = Refreshing old \<Longrightarrow>
    lstep keyOf may_refresh s (s\<lparr>sys_store := snd (deleteLock old True (sys_store s)), sys_phase := (sys_phase s)(i := Held)\<rparr>)"
| crash: "lstep keyOf may_refresh s (s\<lparr>sys_phase := (sys_phase s)(i := Crashed)\<rparr>)"
| tick: "sys_now s \<le> t \<Longrightarrow> fresh_at s t \<Longrightarrow> lstep keyOf may_refresh s (s\<lparr>sys_now := t\<rparr>)"

inductive reachable :: "(lockRecord \<Rightarrow> string) \<Rightarrow> (lsys \<Rightarrow> nat \<Rightarrow> bool) \<Rightarrow> lsys \<Rightarrow> lsys \<Rightarrow> bool" for keyOf may_refresh s0 where
  start: "reachable keyOf may_refresh s0 s0"
| step: "reachable keyOf may_refresh s0 s \<Longrightarrow> lstep keyOf may_refresh s s' \<Longrightarrow> reachable keyOf may_refresh s0 s'"

text \<open>No other client is reading the locks.\<close>

definition quiet :: "lsys \<Rightarrow> nat \<Rightarrow> bool" where
  "quiet s i \<longleftrightarrow> (\<forall>j names seen. j \<noteq> i \<longrightarrow> sys_phase s j \<noteq> Loading names seen)"

definition identity :: "lock \<Rightarrow> string \<times> int \<times> int" where
  "identity l = (l_hostID l, l_processID l, l_threadID l)"

definition initial :: "lsys \<Rightarrow> bool" where
  "initial s \<longleftrightarrow> (\<forall>i. sys_phase s i = Idle) \<and> inj (\<lambda>i. identity (sys_lock s i)) \<and> (\<forall>i. 2000000 \<le> l_stale (sys_lock s i))"

definition exclusion :: "lsys \<Rightarrow> bool" where
  "exclusion s \<longleftrightarrow> (\<forall>i j. i \<noteq> j \<longrightarrow> holds (sys_phase s i) \<longrightarrow> holds (sys_phase s j) \<longrightarrow>
     \<not> l_exclusive (sys_lock s i) \<and> \<not> l_exclusive (sys_lock s j))"

section \<open>Mutual exclusion\<close>

lemma map_of_st_put [simp]: "map_of (st_put k v st) = (map_of st)(k \<mapsto> v)"
  by (induction k v st rule: st_put.induct) auto

lemma map_of_st_del [simp]: "map_of (st_del k st) = (map_of st)(k := None)"
  by (induction st) (auto simp: st_del_def)

lemma st_names_map_of: "map_of st k = Some v \<Longrightarrow> k \<in> set (st_names st)"
  by (auto simp: st_names_def dest: map_of_SomeD intro: rev_image_eqI)

lemma map_of_deleteLock [simp]: "map_of (snd (deleteLock k True st)) = (map_of st)(k := None)"
  by (auto simp: deleteLock_def)

definition own_record :: "lock \<Rightarrow> lockRecord" where
  "own_record l = lock_record l (l_lastRefresh l)"

text \<open>Client \<open>i\<close> has found the lock of \<open>j\<close> or is still going to load it.\<close>

definition sees :: "lsys \<Rightarrow> nat \<Rightarrow> nat \<Rightarrow> bool" where
  "sees s i j \<longleftrightarrow> (\<exists>names seen. sys_phase s i = Loading names seen \<and>
     (l_myKey (sys_lock s j) \<in> set names \<or> (\<exists>h\<in>set seen. conflicts (sys_lock s i) h)))"

definition listed :: "phase \<Rightarrow> bool" where
  "listed ph \<longleftrightarrow> live ph \<and> ph \<noteq> Created"

definition owns :: "(lockRecord \<Rightarrow> string) \<Rightarrow> lsys \<Rightarrow> nat \<Rightarrow> bool" where
  "owns keyOf s i \<longleftrightarrow> (let l = sys_lock s i in
     l_myKey l = keyOf (own_record l) \<and> map_of (sys_store s) (l_myKey l) = Some (Readable (own_record l))
     \<and> (\<forall>old. sys_phase s i = Refreshing old \<longrightarrow> (\<exists>t. old = keyOf (lock_record l t) \<and> cut_ms t < cut_ms (l_lastRefresh l))))"

definition lock_inv :: "(lockRecord \<Rightarrow> string) \<Rightarrow> lsys \<Rightarrow> bool" where
  "lock_inv keyOf s \<longleftrightarrow> inj (\<lambda>i. identity (sys_lock s i)) \<and> (\<forall>i. 2000000 \<le> l_stale (sys_lock s i))
     \<and> fresh_at s (sys_now s) \<and> (\<forall>i. live (sys_phase s i) \<longrightarrow> owns keyOf s i)
     \<and> (\<forall>i j. i \<noteq> j \<longrightarrow> listed (sys_phase s i) \<longrightarrow> listed (sys_phase s j) \<longrightarrow> l_exclusive (sys_lock s i) \<or> l_exclusive (sys_lock s j)
          \<longrightarrow> sees s i j \<or> sees s j i)"

lemma sees_other: "j \<noteq> i \<Longrightarrow> k \<noteq> i \<Longrightarrow> sees (s\<lparr>sys_store := st, sys_lock := (sys_lock s)(i := l'), sys_phase := (sys_phase s)(i := ph)\<rparr>) j k = sees s j k"
  by (simp add: sees_def)

lemma owns_other: "j \<noteq> i \<Longrightarrow> map_of st (l_myKey (sys_lock s j)) = map_of (sys_store s) (l_myKey (sys_lock s j)) \<Longrightarrow>
    owns keyOf (s\<lparr>sys_store := st, sys_lock := (sys_lock s)(i := l'), sys_phase := (sys_phase s)(i := ph)\<rparr>) j = owns keyOf s j"
  by (simp add: owns_def)

lemma lock_inv_pair: "lock_inv keyOf s \<Longrightarrow> i \<noteq> j \<Longrightarrow> listed (sys_phase s i) \<Longrightarrow> listed (sys_phase s j) \<Longrightarrow>
    l_exclusive (sys_lock s i) \<or> l_exclusive (sys_lock s j) \<Longrightarrow> sees s i j \<or> sees s j i"
  unfolding lock_inv_def by blast

text \<open>What a step of client \<open>i\<close> has to show.\<close>

lemma lock_inv_update:
  assumes inv: "lock_inv keyOf s"
    and s': "s' = s\<lparr>sys_store := st, sys_lock := (sys_lock s)(i := l'), sys_phase := (sys_phase s)(i := ph)\<rparr>"
    and l': "identity l' = identity (sys_lock s i)" "l_exclusive l' = l_exclusive (sys_lock s i)" "l_stale l' = l_stale (sys_lock s i)"
    and fresh: "\<And>j. live ph \<Longrightarrow> sys_now s - cut_ms (l_lastRefresh l') \<le> l_stale (sys_lock s j)"
    and own: "live ph \<Longrightarrow> owns keyOf s' i"
    and others: "\<And>j. j \<noteq> i \<Longrightarrow> live (sys_phase s j) \<Longrightarrow> map_of st (l_myKey (sys_lock s j)) = map_of (sys_store s) (l_myKey (sys_lock s j))"
    and pair: "\<And>j. j \<noteq> i \<Longrightarrow> listed ph \<Longrightarrow> listed (sys_phase s j) \<Longrightarrow> l_exclusive (sys_lock s i) \<or> l_exclusive (sys_lock s j) \<Longrightarrow> sees s' i j \<or> sees s' j i"
  shows "lock_inv keyOf s'"
proof -
  have ident: "(\<lambda>j. identity (sys_lock s' j)) = (\<lambda>j. identity (sys_lock s j))" using l'(1) by (auto simp: s')
  have stale: "l_stale (sys_lock s' j) = l_stale (sys_lock s j)" for j using l'(3) by (simp add: s')
  have excl: "l_exclusive (sys_lock s' j) = l_exclusive (sys_lock s j)" for j using l'(2) by (simp add: s')
  have f: "fresh_at s (sys_now s)" using inv by (simp add: lock_inv_def)
  have "sys_now s' - cut_ms (l_lastRefresh (sys_lock s' k)) \<le> l_stale (sys_lock s' j)" if "live (sys_phase s' k)" for k j
    unfolding stale using that fresh [of j] f by (cases "k = i") (simp_all add: s' fresh_at_def)
  moreover have "owns keyOf s' j" if "live (sys_phase s' j)" for j
  proof (cases "j = i")
    case True
    then show ?thesis using own that by (simp add: s')
  next
    case False
    then have "live (sys_phase s j)" using that by (simp add: s')
    then show ?thesis unfolding s' using False inv others [of j] owns_other [OF False] by (simp add: lock_inv_def)
  qed
  moreover have "sees s' j k \<or> sees s' k j"
    if "j \<noteq> k" "listed (sys_phase s' j)" "listed (sys_phase s' k)" "l_exclusive (sys_lock s j) \<or> l_exclusive (sys_lock s k)" for j k
  proof -
    consider "j = i" | "k = i" | "j \<noteq> i" "k \<noteq> i" by blast
    then show ?thesis
    proof cases
      case 1
      then show ?thesis using pair [of k] that by (auto simp: s')
    next
      case 2
      then show ?thesis using pair [of j] that by (auto simp: s')
    next
      case 3
      then have "sees s j k \<or> sees s k j" using lock_inv_pair [OF inv, of j k] that by (simp add: s')
      then show ?thesis unfolding s' using sees_other [OF 3] sees_other [OF 3(2,1)] by simp
    qed
  qed
  ultimately show ?thesis unfolding lock_inv_def fresh_at_def ident stale excl using inv by (simp add: lock_inv_def)
qed

text \<open>Clients have different identities, so one client's lock never has the name of another's.\<close>

lemma other_key:
  assumes "inj keyOf" "lock_inv keyOf s" "j \<noteq> i" "live (sys_phase s j)"
  shows "keyOf (lock_record (sys_lock s i) t) \<noteq> l_myKey (sys_lock s j)"
proof
  assume e: "keyOf (lock_record (sys_lock s i) t) = l_myKey (sys_lock s j)"
  have "l_myKey (sys_lock s j) = keyOf (own_record (sys_lock s j))" using assms by (auto simp: lock_inv_def owns_def Let_def)
  then have "lock_record (sys_lock s i) t = own_record (sys_lock s j)" using e assms(1) by (simp add: inj_eq)
  then have "identity (sys_lock s i) = identity (sys_lock s j)" by (simp add: identity_def own_record_def lock_record_def)
  then show False using assms(2,3) by (auto simp: lock_inv_def inj_def)
qed

lemma own_key: "lock_inv keyOf s \<Longrightarrow> live (sys_phase s i) \<Longrightarrow> l_myKey (sys_lock s i) = keyOf (lock_record (sys_lock s i) (l_lastRefresh (sys_lock s i)))"
  by (auto simp: lock_inv_def owns_def Let_def own_record_def)

lemma own_key_other:
  assumes "inj keyOf" "lock_inv keyOf s" "live (sys_phase s i)" "j \<noteq> i" "live (sys_phase s j)"
  shows "l_myKey (sys_lock s j) \<noteq> l_myKey (sys_lock s i)"
  using other_key [OF assms(1,2,4,5)] own_key [OF assms(2,3)] by metis

lemma load_live:
  assumes "lock_inv keyOf s" "live (sys_phase s j)"
  shows "loadLock (sys_lock s i) (sys_now s) (sys_store s) (l_myKey (sys_lock s j)) = LGot \<lparr>hl_key = l_myKey (sys_lock s j), hl_rec = own_record (sys_lock s j)\<rparr>"
proof -
  have "map_of (sys_store s) (l_myKey (sys_lock s j)) = Some (Readable (own_record (sys_lock s j)))"
    using assms by (auto simp: lock_inv_def owns_def Let_def)
  moreover have "\<not> sys_now s - lr_Time (own_record (sys_lock s j)) > l_stale (sys_lock s i)"
    using assms by (auto simp: lock_inv_def fresh_at_def own_record_def lock_record_def not_less)
  ultimately show ?thesis by (simp add: loadLock_def)
qed

lemma conflicts_own:
  assumes "lock_inv keyOf s" "i \<noteq> j" "l_exclusive (sys_lock s i) \<or> l_exclusive (sys_lock s j)"
  shows "conflicts (sys_lock s i) \<lparr>hl_key = k, hl_rec = own_record (sys_lock s j)\<rparr>"
proof -
  have "identity (sys_lock s i) \<noteq> identity (sys_lock s j)" using assms(1,2) by (auto simp: lock_inv_def inj_def)
  then show ?thesis using assms(3) by (auto simp: conflicts_def isOurs_def identity_def own_record_def lock_record_def)
qed

lemma cut_ms_mono: "a + 1000000 \<le> b \<Longrightarrow> cut_ms a < cut_ms b"
  by (simp add: cut_ms_def)

lemma cut_ms_bounds: "cut_ms t \<le> t" "t - cut_ms t < 1000000"
  by (simp_all add: cut_ms_def)

lemma lstep_lock_inv:
  assumes inj: "inj keyOf" and inv: "lock_inv keyOf s" and step: "lstep keyOf quiet s s'"
  shows "lock_inv keyOf s'"
  using step
proof cases
  note other = other_key [OF inj inv]
  have own: "live (sys_phase s k) \<Longrightarrow> owns keyOf s k" for k using inv by (simp add: lock_inv_def)
  have fr: "live (sys_phase s k) \<Longrightarrow> sys_now s - cut_ms (l_lastRefresh (sys_lock s k)) \<le> l_stale (sys_lock s j)" for k j
    using inv by (simp add: lock_inv_def fresh_at_def)
  have st: "2000000 \<le> l_stale (sys_lock s k)" for k using inv by (simp add: lock_inv_def)
  have now: "sys_now s - cut_ms (sys_now s) \<le> l_stale (sys_lock s j)" for j using st [of j] cut_ms_bounds(2) [of "sys_now s"] by linarith
  have pairs: "i \<noteq> j \<Longrightarrow> listed (sys_phase s i) \<Longrightarrow> listed (sys_phase s j) \<Longrightarrow> l_exclusive (sys_lock s i) \<or> l_exclusive (sys_lock s j) \<Longrightarrow> sees s i j \<or> sees s j i"
    for i j using lock_inv_pair [OF inv] .
  {
    case (write_lock i key st)
    show ?thesis
    proof (rule lock_inv_update [OF inv, where i = i])
      show "s' = s\<lparr>sys_store := st, sys_lock := (sys_lock s)(i := (sys_lock s i)\<lparr>l_myKey := key, l_lastRefresh := sys_now s\<rparr>), sys_phase := (sys_phase s)(i := Created)\<rparr>"
        using write_lock(1) .
      show "owns keyOf s' i" using write_lock by (auto simp: create_def Let_def owns_def own_record_def lock_record_def)
      show "map_of st (l_myKey (sys_lock s j)) = map_of (sys_store s) (l_myKey (sys_lock s j))" if "j \<noteq> i" "live (sys_phase s j)" for j
        using other [OF that, of "sys_now s"] write_lock(3) by (auto simp: create_def Let_def)
    qed (use now in \<open>simp_all add: identity_def listed_def\<close>)
  next
    case (list_names i)
    show ?thesis
    proof (rule lock_inv_update [OF inv, where i = i])
      show "s' = s\<lparr>sys_store := sys_store s, sys_lock := (sys_lock s)(i := sys_lock s i), sys_phase := (sys_phase s)(i := Loading (st_names (sys_store s)) [])\<rparr>"
        using list_names(1) by simp
      show "owns keyOf s' i" using own [of i] list_names by (simp add: owns_def live_def)
      show "sees s' i j \<or> sees s' j i" if "j \<noteq> i" "listed (sys_phase s j)" for j
        using that own [of j] list_names st_names_map_of [of "sys_store s"] by (auto simp: sees_def owns_def listed_def Let_def)
    qed (use fr [of i] list_names in \<open>simp_all add: live_def\<close>)
  next
    case (load_skip i key names seen st)
    have ks: "key \<noteq> l_myKey (sys_lock s j)" if "live (sys_phase s j)" for j
      using load_live [OF inv that, of i] load_skip(3) by auto
    have m: "map_of st k = map_of (sys_store s) k" if "k \<noteq> key" for k
      using load_skip(3) that by (auto simp: loadLock_def split: option.splits lock_obj.splits if_splits)
    have l: "live (sys_phase s i)" using load_skip(2) by (simp add: live_def)
    show ?thesis
    proof (rule lock_inv_update [OF inv, where i = i])
      show s': "s' = s\<lparr>sys_store := st, sys_lock := (sys_lock s)(i := sys_lock s i), sys_phase := (sys_phase s)(i := Loading names seen)\<rparr>"
        using load_skip(1) by simp
      show "owns keyOf s' i" using own [OF l] m [of "l_myKey (sys_lock s i)"] ks [OF l] s' by (auto simp: owns_def Let_def)
      show "map_of st (l_myKey (sys_lock s j)) = map_of (sys_store s) (l_myKey (sys_lock s j))" if "j \<noteq> i" "live (sys_phase s j)" for j
        using m ks [OF that(2)] by simp
      show "sees s' i j \<or> sees s' j i" if "j \<noteq> i" "listed (sys_phase s j)" "l_exclusive (sys_lock s i) \<or> l_exclusive (sys_lock s j)" for j
        using pairs [of i j] that load_skip(2) ks [of j] unfolding s' by (auto simp: sees_def listed_def live_def)
    qed (use fr [OF l] in simp_all)
  next
    case (load_got i key names seen h)
    have l: "live (sys_phase s i)" using load_got(2) by (simp add: live_def)
    show ?thesis
    proof (rule lock_inv_update [OF inv, where i = i])
      show s': "s' = s\<lparr>sys_store := sys_store s, sys_lock := (sys_lock s)(i := sys_lock s i), sys_phase := (sys_phase s)(i := Loading names (seen @ [h]))\<rparr>"
        using load_got(1) by simp
      show "owns keyOf s' i" using own [OF l] s' by (auto simp: owns_def Let_def)
      show "sees s' i j \<or> sees s' j i" if j: "j \<noteq> i" "listed (sys_phase s j)" "l_exclusive (sys_lock s i) \<or> l_exclusive (sys_lock s j)" for j
      proof -
        have "live (sys_phase s j)" using j(2) by (simp add: listed_def)
        then have "conflicts (sys_lock s i) h" if "key = l_myKey (sys_lock s j)"
          using load_live [OF inv, of j i] load_got(3) that conflicts_own [OF inv, of i j] j by auto
        then show ?thesis using pairs [of i j] j load_got(2) unfolding s' by (auto simp: sees_def listed_def live_def)
      qed
    qed (use fr [OF l] in simp_all)
  next
    case (load_fail i key names seen e)
    then have "live (sys_phase s i)" by (simp add: live_def)
    note k = own_key_other [OF inj inv this]
    show ?thesis
      by (rule lock_inv_update [OF inv load_fail(1)]) (use k in \<open>simp_all add: identity_def listed_def\<close>, simp_all add: live_def)
  next
    case (acquired i seen)
    have l: "live (sys_phase s i)" using acquired(2) by (simp add: live_def)
    show ?thesis
    proof (rule lock_inv_update [OF inv, where i = i])
      show s': "s' = s\<lparr>sys_store := sys_store s, sys_lock := (sys_lock s)(i := sys_lock s i), sys_phase := (sys_phase s)(i := Held)\<rparr>"
        using acquired(1) by simp
      show "owns keyOf s' i" using own [OF l] s' by (auto simp: owns_def Let_def)
      show "sees s' i j \<or> sees s' j i" if j: "j \<noteq> i" "listed (sys_phase s j)" "l_exclusive (sys_lock s i) \<or> l_exclusive (sys_lock s j)" for j
        using pairs [of i j] j acquired(2,3) unfolding s' by (auto simp: sees_def listed_def live_def)
    qed (use fr [OF l] in simp_all)
  next
    case (withdraw i seen)
    then have "live (sys_phase s i)" by (simp add: live_def)
    note k = own_key_other [OF inj inv this]
    show ?thesis
      by (rule lock_inv_update [OF inv withdraw(1)]) (use k in \<open>simp_all add: identity_def listed_def\<close>, simp_all add: live_def)
  next
    case (release i ign r l st)
    then have "live (sys_phase s i)" by (simp add: live_def)
    note k = own_key_other [OF inj inv this]
    have m: "map_of st q = map_of (sys_store s) q" if "q \<noteq> l_myKey (sys_lock s i)" for q
      using release(3) that by (auto simp: Release_def deleteLock_def split: if_splits)
    have l: "l = sys_lock s i \<or> l = (sys_lock s i)\<lparr>l_myKey := []\<rparr>" using release(3) by (auto simp: Release_def split: if_splits prod.splits)
    show ?thesis
      by (rule lock_inv_update [OF inv release(1)]) (use k m l in \<open>auto simp: identity_def listed_def\<close>, simp_all add: live_def)
  next
    case (refresh_write i key st)
    have l: "live (sys_phase s i)" using refresh_write(2) by (simp add: live_def)
    note k = own_key [OF inv l]
    have "l_lastRefresh (sys_lock s i) + 1000000 \<le> sys_now s" using refresh_write(3) st [of i] by (auto simp: refreshDue_def)
    then have older: "cut_ms (l_lastRefresh (sys_lock s i)) < cut_ms (sys_now s)" by (rule cut_ms_mono)
    show ?thesis
    proof (rule lock_inv_update [OF inv refresh_write(1)])
      show "owns keyOf s' i" using refresh_write older k
        by (auto simp: create_def Let_def owns_def own_record_def lock_record_def intro!: exI [of _ "l_lastRefresh (sys_lock s i)"])
      show "map_of st (l_myKey (sys_lock s j)) = map_of (sys_store s) (l_myKey (sys_lock s j))" if "j \<noteq> i" "live (sys_phase s j)" for j
        using other [OF that, of "sys_now s"] refresh_write(5) by (auto simp: create_def Let_def)
      show "sees s' i j \<or> sees s' j i" if j: "j \<noteq> i" "listed (sys_phase s j)" "l_exclusive (sys_lock s i) \<or> l_exclusive (sys_lock s j)" for j
        using pairs [of i j] j refresh_write(2,4) by (auto simp: sees_def listed_def live_def quiet_def)
    qed (use now in \<open>simp_all add: identity_def listed_def\<close>)
  next
    case (refresh_delete i old)
    have l: "live (sys_phase s i)" using refresh_delete(2) by (simp add: live_def)
    obtain t where t: "old = keyOf (lock_record (sys_lock s i) t)" "cut_ms t < cut_ms (l_lastRefresh (sys_lock s i))"
      using own [OF l] refresh_delete(2) by (auto simp: owns_def Let_def)
    have ne: "old \<noteq> l_myKey (sys_lock s i)" using t own_key [OF inv l] inj by (auto simp: inj_eq lock_record_def)
    show ?thesis
    proof (rule lock_inv_update [OF inv, where i = i])
      show s': "s' = s\<lparr>sys_store := snd (deleteLock old True (sys_store s)), sys_lock := (sys_lock s)(i := sys_lock s i), sys_phase := (sys_phase s)(i := Held)\<rparr>"
        using refresh_delete(1) by simp
      show "owns keyOf s' i" using own [OF l] ne s' by (auto simp: owns_def Let_def)
      show "map_of (snd (deleteLock old True (sys_store s))) (l_myKey (sys_lock s j)) = map_of (sys_store s) (l_myKey (sys_lock s j))"
        if "j \<noteq> i" "live (sys_phase s j)" for j
        using other [OF that, of t] t(1) by simp
      show "sees s' i j \<or> sees s' j i" if j: "j \<noteq> i" "listed (sys_phase s j)" "l_exclusive (sys_lock s i) \<or> l_exclusive (sys_lock s j)" for j
        using pairs [of i j] j refresh_delete(2) unfolding s' by (auto simp: sees_def listed_def live_def)
    qed (use fr [OF l] in simp_all)
  next
    case (crash i)
    show ?thesis
      by (rule lock_inv_update [OF inv, where i = i and ph = Crashed and st = "sys_store s" and l' = "sys_lock s i"])
        (use crash in \<open>auto simp: live_def listed_def\<close>)
  next
    case (tick t)
    then show ?thesis using inv by (simp add: lock_inv_def fresh_at_def owns_def sees_def)
  }
qed

lemma reachable_lock_inv: "reachable keyOf quiet s0 s \<Longrightarrow> inj keyOf \<Longrightarrow> initial s0 \<Longrightarrow> lock_inv keyOf s"
proof (induction rule: reachable.induct)
  case start
  then show ?case by (auto simp: initial_def lock_inv_def fresh_at_def live_def listed_def)
qed (use lstep_lock_inv in blast)

text \<open>A key function to instantiate the statements with: the fields one after the other, each closed by
  a dot.\<close>

definition int_key :: "int \<Rightarrow> string" where
  "int_key n = replicate (nat n) CHR ''+'' @ replicate (nat (- n)) CHR ''-''"

definition toy_key :: "lockRecord \<Rightarrow> string" where
  "toy_key r = (if lr_Exclusive r then CHR ''1'' else CHR ''0'') # int_key (lr_ProcessID r) @ CHR ''.'' # int_key (lr_ThreadID r) @ CHR ''.'' #
     int_key (lr_Time r) @ CHR ''.'' # lr_HostID r"

lemma dot_split: "u @ c # x = v @ c # y \<Longrightarrow> c \<notin> set u \<Longrightarrow> c \<notin> set v \<Longrightarrow> u = v \<and> x = y"
proof (induction u arbitrary: v)
  case Nil
  then show ?case by (cases v) auto
next
  case (Cons a u)
  then show ?case by (cases v) auto
qed

lemma int_key_inj: "int_key a = int_key b \<longleftrightarrow> a = b"
proof
  assume e: "int_key a = int_key b"
  have "length (filter ((=) CHR ''+'') (int_key n)) = nat n" "length (filter ((=) CHR ''-'') (int_key n)) = nat (- n)" for n
    by (simp_all add: int_key_def)
  then have "nat a = nat b" "nat (- a) = nat (- b)" using e by metis+
  then show "a = b" by linarith
qed simp

lemma inj_toy_key: "inj toy_key"
proof (rule injI)
  fix r r' assume e: "toy_key r = toy_key r'"
  have nd: "CHR ''.'' \<notin> set (int_key n)" for n by (simp add: int_key_def)
  have "int_key (lr_ProcessID r) @ CHR ''.'' # int_key (lr_ThreadID r) @ CHR ''.'' # int_key (lr_Time r) @ CHR ''.'' # lr_HostID r
      = int_key (lr_ProcessID r') @ CHR ''.'' # int_key (lr_ThreadID r') @ CHR ''.'' # int_key (lr_Time r') @ CHR ''.'' # lr_HostID r'"
    using e by (simp add: toy_key_def split: if_splits)
  from dot_split [OF this nd nd] have p: "lr_ProcessID r = lr_ProcessID r'"
    and "int_key (lr_ThreadID r) @ CHR ''.'' # int_key (lr_Time r) @ CHR ''.'' # lr_HostID r
      = int_key (lr_ThreadID r') @ CHR ''.'' # int_key (lr_Time r') @ CHR ''.'' # lr_HostID r'" by (simp_all add: int_key_inj)
  from dot_split [OF this(2) nd nd] have t: "lr_ThreadID r = lr_ThreadID r'"
    and "int_key (lr_Time r) @ CHR ''.'' # lr_HostID r = int_key (lr_Time r') @ CHR ''.'' # lr_HostID r'" by (simp_all add: int_key_inj)
  from dot_split [OF this(2) nd nd] have "lr_Time r = lr_Time r'" "lr_HostID r = lr_HostID r'" by (simp_all add: int_key_inj)
  moreover have "lr_Exclusive r = lr_Exclusive r'" using e by (auto simp: toy_key_def split: if_splits)
  ultimately show "r = r'" using p t by simp
qed

text \<open>C5. Two clients never hold conflicting locks: in every interleaving of any number of clients that
  take, withdraw, refresh and release locks, remove stale ones, meet unreadable ones or crash, at
  most one holds an exclusive lock and then nobody else holds any, provided that live clients keep
  their locks fresh and that a refresh is not written while another client is reading the locks.\<close>

theorem mutual_exclusion:
  assumes "inj keyOf" "initial s0" "reachable keyOf quiet s0 s"
  shows "exclusion s"
proof -
  have inv: "lock_inv keyOf s" using reachable_lock_inv [OF assms(3,1,2)] .
  have "\<not> (l_exclusive (sys_lock s i) \<or> l_exclusive (sys_lock s j))" if "i \<noteq> j" "holds (sys_phase s i)" "holds (sys_phase s j)" for i j
    using lock_inv_pair [OF inv that(1)] that(2,3) by (auto simp: holds_def listed_def live_def sees_def)
  then show ?thesis by (auto simp: exclusion_def)
qed

definition two_clients :: lsys where
  "two_clients = \<lparr>sys_store = [], sys_now = 0, sys_lock = (\<lambda>i. (NewLock ''h'' (int i) True)), sys_phase = (\<lambda>_. Idle)\<rparr>"

lemma initial_two_clients: "initial two_clients"
  by (auto simp: initial_def two_clients_def inj_def identity_def NewLock_def defaultLockStale_def)

theorem mutual_exclusion_witness:
  "\<exists>s. reachable toy_key quiet two_clients s \<and> sys_phase s 0 = Created \<and> exclusion s"
proof -
  have "lstep toy_key quiet two_clients (two_clients\<lparr>sys_store := [(toy_key (lock_record (sys_lock two_clients 0) 0), Readable (lock_record (sys_lock two_clients 0) 0))],
      sys_lock := (sys_lock two_clients)(0 := (sys_lock two_clients 0)\<lparr>l_myKey := toy_key (lock_record (sys_lock two_clients 0) 0), l_lastRefresh := sys_now two_clients\<rparr>),
      sys_phase := (sys_phase two_clients)(0 := Created)\<rparr>)" (is "lstep _ _ _ ?s")
    by (rule lstep.write_lock) (simp_all add: two_clients_def create_def Let_def)
  then have r: "reachable toy_key quiet two_clients ?s" using reachable.step [OF reachable.start] by blast
  then show ?thesis using mutual_exclusion [OF inj_toy_key initial_two_clients r] by (intro exI [of _ ?s]) simp
qed

section \<open>The race of refresh against acquire\<close>

lemma step_to: "reachable keyOf m s0 s \<Longrightarrow> lstep keyOf m s s'' \<Longrightarrow> s'' = s' \<Longrightarrow> reachable keyOf m s0 s'"
  using reachable.step by blast

text \<open>C33. A refresh can let a second exclusive holder in: writing the new lock before removing the old one
  does not keep the repository locked for a client that listed the names before and loads them
  after. From two clients and an empty store, all of them alive and their locks never stale, a
  state is reached in which both hold the exclusive lock.\<close>

theorem refresh_race:
  assumes inj: "inj keyOf"
  shows "\<exists>s. reachable keyOf (\<lambda>_ _. True) two_clients s \<and> \<not> exclusion s"
proof -
  define t where "t = defaultLockStale div 2"
  have tv: "t = 900000000000" "cut_ms 900000000000 = 900000000000" "cut_ms 0 = 0" by (simp_all add: t_def defaultLockStale_def cut_ms_def)
  define a b where "a = NewLock ''h'' 0 True" and "b = NewLock ''h'' 1 True"
  define ka kb kn where "ka = keyOf (lock_record a 0)" and "kb = keyOf (lock_record b t)" and "kn = keyOf (lock_record a t)"
  have ab: "lock_record a t \<noteq> lock_record a 0" "lock_record b t \<noteq> lock_record a 0" "lock_record b t \<noteq> lock_record a t"
    by (simp_all add: a_def b_def NewLock_def lock_record_def tv)
  then have k: "kn \<noteq> ka" "kb \<noteq> ka" "kb \<noteq> kn" using inj by (simp_all add: ka_def kb_def kn_def inj_eq)
  let ?ra = "Readable (lock_record a 0)" and ?rb = "Readable (lock_record b t)" and ?rn = "Readable (lock_record a t)"
  let ?la = "a\<lparr>l_myKey := ka, l_lastRefresh := 0\<rparr>" and ?ln = "a\<lparr>l_myKey := kn, l_lastRefresh := t\<rparr>" and ?lb = "b\<lparr>l_myKey := kb, l_lastRefresh := t\<rparr>"
  let ?L = "sys_lock two_clients" and ?I = "\<lambda>_ :: nat. Idle"
  define S where "S st now l p = \<lparr>sys_store = st, sys_now = now, sys_lock = l, sys_phase = p\<rparr>" for st now l p
  note rec = lock_record_def
  have L: "?L 0 = a" "?L (Suc 0) = b" by (simp_all add: two_clients_def a_def b_def)
  have lr: "lock_record (a\<lparr>l_myKey := x, l_lastRefresh := y\<rparr>) = lock_record a" for x y by (simp add: fun_eq_iff rec)
  have ld: "loadLock ?la 0 [(ka, ?ra)] ka = LGot \<lparr>hl_key = ka, hl_rec = lock_record a 0\<rparr>"
    "loadLock ?lb t [(kb, ?rb), (kn, ?rn)] ka = LSkip [(kb, ?rb), (kn, ?rn)]"
    "loadLock ?lb t [(kb, ?rb), (kn, ?rn)] kb = LGot \<lparr>hl_key = kb, hl_rec = lock_record b t\<rparr>"
    using k by (simp_all add: loadLock_def rec tv a_def b_def NewLock_def defaultLockStale_def)
  have own: "\<not> conflicts ?la \<lparr>hl_key = ka, hl_rec = lock_record a 0\<rparr>" "\<not> conflicts ?lb \<lparr>hl_key = kb, hl_rec = lock_record b t\<rparr>"
    by (simp_all add: conflicts_def isOurs_def rec)
  have cr: "create keyOf a 0 [] = (ka, [(ka, ?ra)])" "create keyOf b t [(ka, ?ra)] = (kb, [(ka, ?ra), (kb, ?rb)])"
    "create keyOf ?la t [(ka, ?ra), (kb, ?rb)] = (kn, [(ka, ?ra), (kb, ?rb), (kn, ?rn)])"
    using k by (simp_all add: create_def Let_def ka_def kb_def kn_def lr)
  have due: "refreshDue ?la t" by (simp add: refreshDue_def t_def a_def NewLock_def)
  let ?P = "reachable keyOf (\<lambda>_ _. True) two_clients"
  note step = step_to [where keyOf = keyOf and ?s0.0 = two_clients]
  have "?P (S [] 0 ?L ?I)" using reachable.start by (simp add: S_def two_clients_def)
  from step [OF this lstep.write_lock [where i = 0 and key = ka and st = "[(ka, ?ra)]"]]
  have "?P (S [(ka, ?ra)] 0 (?L(0 := ?la)) (?I(0 := Created)))" by (simp add: S_def L cr)
  from step [OF this lstep.list_names [where i = 0]]
  have "?P (S [(ka, ?ra)] 0 (?L(0 := ?la)) (?I(0 := Loading [ka] [])))" by (simp add: S_def st_names_def)
  from step [OF this lstep.load_got [where i = 0 and key = ka and names = "[]" and seen = "[]"]]
  have "?P (S [(ka, ?ra)] 0 (?L(0 := ?la)) (?I(0 := Loading [] [\<lparr>hl_key = ka, hl_rec = lock_record a 0\<rparr>])))" by (simp add: S_def ld)
  from step [OF this lstep.acquired [where i = 0 and seen = "[\<lparr>hl_key = ka, hl_rec = lock_record a 0\<rparr>]"]]
  have "?P (S [(ka, ?ra)] 0 (?L(0 := ?la)) (?I(0 := Held)))" by (simp add: S_def own)
  from step [OF this lstep.tick [where t = t]]
  have "?P (S [(ka, ?ra)] t (?L(0 := ?la)) (?I(0 := Held)))"
    by (simp add: S_def fresh_at_def live_def tv two_clients_def NewLock_def defaultLockStale_def a_def)
  from step [OF this lstep.write_lock [where i = 1 and key = kb and st = "[(ka, ?ra), (kb, ?rb)]"]]
  have "?P (S [(ka, ?ra), (kb, ?rb)] t (?L(0 := ?la, 1 := ?lb)) (?I(0 := Held, 1 := Created)))" by (simp add: S_def L cr)
  from step [OF this lstep.list_names [where i = 1]]
  have "?P (S [(ka, ?ra), (kb, ?rb)] t (?L(0 := ?la, 1 := ?lb)) (?I(0 := Held, 1 := Loading [ka, kb] [])))" by (simp add: S_def st_names_def)
  from step [OF this lstep.refresh_write [where i = 0 and key = kn and st = "[(ka, ?ra), (kb, ?rb), (kn, ?rn)]"]]
  have "?P (S [(ka, ?ra), (kb, ?rb), (kn, ?rn)] t (?L(0 := ?ln, 1 := ?lb)) (?I(0 := Refreshing ka, 1 := Loading [ka, kb] [])))"
    by (simp add: S_def cr due fun_upd_twist)
  from step [OF this lstep.refresh_delete [where i = 0 and old = ka]] k
  have "?P (S [(kb, ?rb), (kn, ?rn)] t (?L(0 := ?ln, 1 := ?lb)) (?I(0 := Held, 1 := Loading [ka, kb] [])))"
    by (simp add: S_def deleteLock_def st_del_def fun_upd_twist)
  from step [OF this lstep.load_skip [where i = 1 and key = ka and names = "[kb]" and seen = "[]"]]
  have "?P (S [(kb, ?rb), (kn, ?rn)] t (?L(0 := ?ln, 1 := ?lb)) (?I(0 := Held, 1 := Loading [kb] [])))" by (simp add: S_def ld)
  from step [OF this lstep.load_got [where i = 1 and key = kb and names = "[]" and seen = "[]"]]
  have "?P (S [(kb, ?rb), (kn, ?rn)] t (?L(0 := ?ln, 1 := ?lb)) (?I(0 := Held, 1 := Loading [] [\<lparr>hl_key = kb, hl_rec = lock_record b t\<rparr>])))" by (simp add: S_def ld)
  from step [OF this lstep.acquired [where i = 1 and seen = "[\<lparr>hl_key = kb, hl_rec = lock_record b t\<rparr>]"]]
  have r: "?P (S [(kb, ?rb), (kn, ?rn)] t (?L(0 := ?ln, 1 := ?lb)) (?I(0 := Held, 1 := Held)))" by (simp add: S_def own)
  have "\<not> exclusion (S [(kb, ?rb), (kn, ?rn)] t (?L(0 := ?ln, 1 := ?lb)) (?I(0 := Held, 1 := Held)))"
    by (auto simp: exclusion_def S_def holds_def a_def b_def NewLock_def intro!: exI [of _ 0] exI [of _ 1])
  with r show ?thesis by blast
qed

theorem refresh_race_witness:
  "\<exists>s. reachable toy_key (\<lambda>_ _. True) two_clients s \<and> \<not> exclusion s"
  by (rule refresh_race [OF inj_toy_key])

section \<open>One client, functionally\<close>

definition is_stale :: "lock \<Rightarrow> int \<Rightarrow> lock_obj \<Rightarrow> bool" where
  "is_stale l now v \<longleftrightarrow> (case v of Readable r \<Rightarrow> now - lr_Time r > l_stale l | _ \<Rightarrow> False)"

lemma loadLocks_readable:
  assumes "\<forall>k v. map_of st k = Some v \<longrightarrow> (\<exists>r. v = Readable r)" "distinct names" "set names \<subseteq> dom (map_of st)"
  shows "\<exists>hs st'. loadLocks l now names st = (Inr hs, st')
    \<and> set hs = {\<lparr>hl_key = k, hl_rec = r\<rparr> | k r. k \<in> set names \<and> map_of st k = Some (Readable r) \<and> \<not> is_stale l now (Readable r)}
    \<and> (\<forall>k. map_of st' k = (if k \<in> set names \<and> (\<exists>v. map_of st k = Some v \<and> is_stale l now v) then None else map_of st k))"
  using assms
proof (induction names arbitrary: st)
  case (Cons k names)
  obtain r where r: "map_of st k = Some (Readable r)" using Cons.prems(1,3) by fastforce
  show ?case
  proof (cases "is_stale l now (Readable r)")
    case True
    define st1 where "st1 = snd (deleteLock k True st)"
    have st1: "map_of st1 = (map_of st)(k := None)" by (simp add: st1_def)
    have ld: "loadLock l now st k = LSkip st1" using r True by (simp add: loadLock_def is_stale_def st1_def)
    have p: "\<forall>q v. map_of st1 q = Some v \<longrightarrow> (\<exists>r. v = Readable r)" using Cons.prems(1) by (simp add: st1)
    have "set names \<subseteq> dom (map_of st1)" using Cons.prems(2,3) by (auto simp: st1)
    with Cons.IH [OF p] Cons.prems(2) obtain hs st' where ih: "loadLocks l now names st1 = (Inr hs, st')"
      "set hs = {\<lparr>hl_key = q, hl_rec = r\<rparr> | q r. q \<in> set names \<and> map_of st1 q = Some (Readable r) \<and> \<not> is_stale l now (Readable r)}"
      "\<forall>q. map_of st' q = (if q \<in> set names \<and> (\<exists>v. map_of st1 q = Some v \<and> is_stale l now v) then None else map_of st1 q)" by auto
    have "loadLocks l now (k # names) st = (Inr hs, st')" using ld ih(1) by simp
    moreover have "set hs = {\<lparr>hl_key = q, hl_rec = r\<rparr> | q r. q \<in> set (k # names) \<and> map_of st q = Some (Readable r) \<and> \<not> is_stale l now (Readable r)}"
      unfolding ih(2) using Cons.prems(2) r True by (auto simp: st1)
    moreover have "map_of st' q = (if q \<in> set (k # names) \<and> (\<exists>v. map_of st q = Some v \<and> is_stale l now v) then None else map_of st q)" for q
      using ih(3) Cons.prems(2) r True by (auto simp: st1)
    ultimately show ?thesis by blast
  next
    case False
    have ld: "loadLock l now st k = LGot \<lparr>hl_key = k, hl_rec = r\<rparr>" using r False by (simp add: loadLock_def is_stale_def)
    have "set names \<subseteq> dom (map_of st)" using Cons.prems(3) by simp
    with Cons.IH [OF Cons.prems(1)] Cons.prems(2) obtain hs st' where ih: "loadLocks l now names st = (Inr hs, st')"
      "set hs = {\<lparr>hl_key = q, hl_rec = r\<rparr> | q r. q \<in> set names \<and> map_of st q = Some (Readable r) \<and> \<not> is_stale l now (Readable r)}"
      "\<forall>q. map_of st' q = (if q \<in> set names \<and> (\<exists>v. map_of st q = Some v \<and> is_stale l now v) then None else map_of st q)" by auto
    have "loadLocks l now (k # names) st = (Inr (\<lparr>hl_key = k, hl_rec = r\<rparr> # hs), st')" using ld ih(1) by simp
    moreover have "set (\<lparr>hl_key = k, hl_rec = r\<rparr> # hs) = {\<lparr>hl_key = q, hl_rec = r\<rparr> | q r. q \<in> set (k # names) \<and> map_of st q = Some (Readable r) \<and> \<not> is_stale l now (Readable r)}"
      using ih(2) r False by auto
    moreover have "map_of st' q = (if q \<in> set (k # names) \<and> (\<exists>v. map_of st q = Some v \<and> is_stale l now v) then None else map_of st q)" for q
      using ih(3) Cons.prems(2) r False by auto
    ultimately show ?thesis by blast
  qed
qed simp

lemma st_put_set: "fst ` set (st_put k v st) = insert k (fst ` set st)"
  by (induction k v st rule: st_put.induct) auto

lemma st_put_distinct: "distinct (map fst st) \<Longrightarrow> distinct (map fst (st_put k v st))"
proof (induction k v st rule: st_put.induct)
  case (2 k v k' v' st)
  then show ?case using st_put_set [of k v st] by (cases "k' = k") simp_all
qed simp

lemma set_st_names: "set (st_names st) = dom (map_of st)"
  by (simp add: st_names_def dom_map_of_conv_image_fst)

text \<open>C31. One round of \<open>Acquire\<close> on a store of readable locks succeeds exactly if no lock that is not stale
  belongs to somebody else and conflicts; then the own lock is in the store, otherwise it is not,
  stale locks are gone and all other locks are untouched.\<close>

theorem acquire_once:
  fixes keyOf :: "lockRecord \<Rightarrow> string" and now :: int
  assumes "\<forall>k v. map_of st k = Some v \<longrightarrow> (\<exists>r. v = Readable r)" "distinct (st_names st)" "1000000 \<le> l_stale l"
  defines "key \<equiv> keyOf (lock_record l now)"
  shows "\<exists>ok l' st'. acquireOnce keyOf l now st = (Inr ok, l', st')
    \<and> ok = (\<not> (\<exists>k r. k \<noteq> key \<and> map_of st k = Some (Readable r) \<and> \<not> is_stale l now (Readable r) \<and> conflicts l \<lparr>hl_key = k, hl_rec = r\<rparr>))
    \<and> l_myKey l' = (if ok then key else [])
    \<and> (\<forall>k. map_of st' k = (if k = key then (if ok then Some (Readable (lock_record l now)) else None)
        else if \<exists>v. map_of st k = Some v \<and> is_stale l now v then None else map_of st k))"
proof -
  define st1 where "st1 = st_put key (Readable (lock_record l now)) st"
  define l1 where "l1 = l\<lparr>l_myKey := key, l_lastRefresh := now\<rparr>"
  have st1: "map_of st1 = (map_of st)(key \<mapsto> Readable (lock_record l now))" by (simp add: st1_def)
  have cr: "create keyOf l now st = (key, st1)" by (simp add: create_def Let_def key_def st1_def)
  have stale: "is_stale l1 now v = is_stale l now v" for v by (simp add: is_stale_def l1_def split: lock_obj.split)
  have conf: "conflicts l1 h = conflicts l h" for h by (simp add: conflicts_def isOurs_def l1_def)
  have own: "\<not> is_stale l now (Readable (lock_record l now))"
    using cut_ms_bounds(2) [of now] assms(3) by (simp add: is_stale_def lock_record_def)
  have ours: "\<not> conflicts l \<lparr>hl_key = k, hl_rec = lock_record l now\<rparr>" for k by (simp add: conflicts_def isOurs_def lock_record_def)
  have rd: "\<forall>k v. map_of st1 k = Some v \<longrightarrow> (\<exists>r. v = Readable r)" using assms(1) by (simp add: st1)
  have "distinct (st_names st1)" unfolding st1_def using st_put_distinct assms(2) by (simp add: st_names_def)
  obtain hs st2 where g: "getLocks l1 now st1 = (Inr hs, st2)"
      "set hs = {\<lparr>hl_key = k, hl_rec = r\<rparr> | k r. map_of st1 k = Some (Readable r) \<and> \<not> is_stale l now (Readable r)}"
      "\<forall>k. map_of st2 k = (if \<exists>v. map_of st1 k = Some v \<and> is_stale l now v then None else map_of st1 k)"
  proof -
    have e: "{\<lparr>hl_key = k, hl_rec = r\<rparr> | k r. k \<in> dom (map_of st1) \<and> map_of st1 k = Some (Readable r) \<and> \<not> is_stale l now (Readable r)}
        = {\<lparr>hl_key = k, hl_rec = r\<rparr> | k r. map_of st1 k = Some (Readable r) \<and> \<not> is_stale l now (Readable r)}" by auto
    have d: "(k \<in> dom (map_of st1) \<and> (\<exists>v. map_of st1 k = Some v \<and> is_stale l now v)) = (\<exists>v. map_of st1 k = Some v \<and> is_stale l now v)" for k by auto
    from loadLocks_readable [OF rd \<open>distinct (st_names st1)\<close>, of l1 now] show ?thesis
      unfolding set_st_names stale e d using that unfolding getLocks_def by auto
  qed
  define ok where "ok \<longleftrightarrow> \<not> (\<exists>h\<in>set hs. conflicts l1 h)"
  have "ok = (\<not> (\<exists>k r. k \<noteq> key \<and> map_of st k = Some (Readable r) \<and> \<not> is_stale l now (Readable r) \<and> conflicts l \<lparr>hl_key = k, hl_rec = r\<rparr>))"
    unfolding ok_def g(2) conf using ours by (auto simp: st1 split: if_splits)
  moreover have "acquireOnce keyOf l now st = (Inr ok, (if ok then l1 else l1\<lparr>l_myKey := []\<rparr>), (if ok then st2 else snd (deleteLock key True st2)))"
    unfolding acquireOnce_def cr prod.case Let_def l1_def [symmetric] g(1) sum.case ok_def by auto
  moreover have "map_of (if ok then st2 else snd (deleteLock key True st2)) k = (if k = key then (if ok then Some (Readable (lock_record l now)) else None)
        else if \<exists>v. map_of st k = Some v \<and> is_stale l now v then None else map_of st k)" for k
    using g(3) own by (auto simp: st1)
  moreover have "l_myKey (if ok then l1 else l1\<lparr>l_myKey := []\<rparr>) = (if ok then key else [])" by (simp add: l1_def)
  ultimately show ?thesis by blast
qed

theorem acquire_once_witness:
  "\<exists>ok l' st'. acquireOnce toy_key (NewLock ''h'' 1 True) 5000000 [(''x'', Readable \<lparr>lr_Exclusive = False, lr_HostID = ''g'', lr_ProcessID = 1, lr_ThreadID = 0, lr_Time = 0\<rparr>)]
      = (Inr ok, l', st') \<and> \<not> ok \<and> l_myKey l' = []"
proof -
  let ?r = "\<lparr>lr_Exclusive = False, lr_HostID = ''g'', lr_ProcessID = 1, lr_ThreadID = 0, lr_Time = 0\<rparr>"
  let ?l = "NewLock ''h'' 1 True"
  have "conflicts ?l \<lparr>hl_key = ''x'', hl_rec = ?r\<rparr>" "\<not> is_stale ?l 5000000 (Readable ?r)" "''x'' \<noteq> toy_key (lock_record ?l 5000000)"
    by (simp_all add: conflicts_def isOurs_def NewLock_def is_stale_def defaultLockStale_def toy_key_def lock_record_def)
  then have "\<exists>k r. k \<noteq> toy_key (lock_record ?l 5000000) \<and> map_of [(''x'', Readable ?r)] k = Some (Readable r)
      \<and> \<not> is_stale ?l 5000000 (Readable r) \<and> conflicts ?l \<lparr>hl_key = k, hl_rec = r\<rparr>" (is ?C) by (intro exI [of _ "''x''"] exI [of _ ?r]) simp
  have pre: "\<forall>k v. map_of [(''x'', Readable ?r)] k = Some v \<longrightarrow> (\<exists>r. v = Readable r)" "distinct (st_names [(''x'', Readable ?r)])" "1000000 \<le> l_stale ?l"
    by (simp_all add: st_names_def NewLock_def defaultLockStale_def)
  obtain ok l' st' where q: "acquireOnce toy_key ?l 5000000 [(''x'', Readable ?r)] = (Inr ok, l', st')"
    "ok = (\<not> (\<exists>k r. k \<noteq> toy_key (lock_record ?l 5000000) \<and> map_of [(''x'', Readable ?r)] k = Some (Readable r)
      \<and> \<not> is_stale ?l 5000000 (Readable r) \<and> conflicts ?l \<lparr>hl_key = k, hl_rec = r\<rparr>))" "l_myKey l' = (if ok then toy_key (lock_record ?l 5000000) else [])"
    using acquire_once [OF pre, of toy_key 5000000] by (elim exE conjE) (rule that)
  with \<open>?C\<close> have "\<not> ok" by blast
  with q show ?thesis by simp
qed

lemma acquireOnce_form: "acquireOnce keyOf l now st = (r, l', st') \<Longrightarrow>
    l' = l\<lparr>l_myKey := if r = Inr True then keyOf (lock_record l now) else [], l_lastRefresh := now\<rparr>"
  by (auto simp: acquireOnce_def create_def Let_def split: prod.splits sum.splits if_splits)



end
