(* ===== verification/Go_Time.thy ===== *)
theory Go_Time
  imports Main
begin

text \<open>
  The parts of Go's \<^verbatim>\<open>time\<close> that the archive listing and pruning use. An instant is the number of
  nanoseconds since the Unix epoch as an unbounded integer; a \<open>Duration\<close> is an \<open>int64\<close> and
  its arithmetic wraps. Fields are those of the proleptic Gregorian calendar; a time zone is a
  function from instants to offsets, which Go reads from the zone database of the system.
\<close>

type_synonym instant = int
type_synonym zone = "int \<Rightarrow> int"

definition second_ns :: int where "second_ns = 1000000000"
definition minute_ns :: int where "minute_ns = 60 * second_ns"
definition hour_ns :: int where "hour_ns = 60 * minute_ns"
definition day_ns :: int where "day_ns = 24 * hour_ns"

definition dur64 :: "int \<Rightarrow> int" where
  "dur64 i = (i + 2 ^ 63) mod 2 ^ 64 - 2 ^ 63"

lemma dur64_id: "- (2 ^ 63) \<le> i \<Longrightarrow> i < 2 ^ 63 \<Longrightarrow> dur64 i = i"
  by (simp add: dur64_def)

section \<open>The calendar\<close>

definition leap :: "int \<Rightarrow> bool" where
  "leap y \<longleftrightarrow> y mod 4 = 0 \<and> (y mod 100 \<noteq> 0 \<or> y mod 400 = 0)"

text \<open>Days from 1 January of year 1 to 1 January of year \<open>y\<close>.\<close>

definition daysBeforeYear :: "int \<Rightarrow> int" where
  "daysBeforeYear y = 365 * (y - 1) + (y - 1) div 4 - (y - 1) div 100 + (y - 1) div 400"

definition yearLen :: "int \<Rightarrow> int" where
  "yearLen y = (if leap y then 366 else 365)"

lemma div_pred:
  fixes y k :: int
  assumes k: "0 < k"
  shows "y div k = (y - 1) div k + (if y mod k = 0 then 1 else 0)"
proof (cases "y mod k = 0")
  case True
  then have "y - 1 = k * (y div k - 1) + (k - 1)" using mult_div_mod_eq [of k y] by (simp add: algebra_simps)
  then have "(y - 1) div k = y div k - 1" using k by (intro int_div_pos_eq [of _ _ _ "k - 1"]) auto
  then show ?thesis using True by simp
next
  case False
  have "0 \<le> y mod k" "y mod k < k" using k by simp_all
  then have "0 \<le> y mod k - 1" "y mod k - 1 < k" "y - 1 = k * (y div k) + (y mod k - 1)" using False mult_div_mod_eq [of k y] by linarith+
  then have "(y - 1) div k = y div k" by (intro int_div_pos_eq)
  then show ?thesis using False by simp
qed

lemma year_increment:
  fixes y a b c a' b' c' :: int
  assumes "P100 \<longrightarrow> P4" "P400 \<longrightarrow> P100" "a = a' + (if P4 then 1 else 0)" "b = b' + (if P100 then 1 else 0)" "c = c' + (if P400 then 1 else 0)"
  shows "365 * y + a - b + c = 365 * (y - 1) + a' - b' + c' + (if P4 \<and> (\<not> P100 \<or> P400) then 366 else 365)"
  using assms by (cases P4; cases P100; cases P400; simp)

lemma daysBeforeYear_Suc: "daysBeforeYear (y + 1) = daysBeforeYear y + yearLen y"
proof -
  have m: "y mod 100 = 0 \<longrightarrow> y mod 4 = 0" "y mod 400 = 0 \<longrightarrow> y mod 100 = 0"
    using mod_mod_cancel [of 4 100 y] mod_mod_cancel [of 100 400 y] by auto
  have d: "y div 4 = (y - 1) div 4 + (if y mod 4 = 0 then 1 else 0)" "y div 100 = (y - 1) div 100 + (if y mod 100 = 0 then 1 else 0)"
    "y div 400 = (y - 1) div 400 + (if y mod 400 = 0 then 1 else 0)" by (rule div_pred, simp)+
  show ?thesis unfolding daysBeforeYear_def yearLen_def leap_def add_diff_cancel_right' by (rule year_increment [OF m d])
qed

lemma yearLen_bounds: "365 \<le> yearLen y" "yearLen y \<le> 366"
  by (simp_all add: yearLen_def)

lemma daysBeforeYear_mono: "y \<le> z \<Longrightarrow> daysBeforeYear y \<le> daysBeforeYear z"
proof (induction "nat (z - y)" arbitrary: z)
  case (Suc n)
  have "daysBeforeYear (z - 1) \<le> daysBeforeYear z" using daysBeforeYear_Suc [of "z - 1"] yearLen_bounds(1) [of "z - 1"] by simp
  moreover have "daysBeforeYear y \<le> daysBeforeYear (z - 1)" using Suc by (intro Suc.hyps(1)) auto
  ultimately show ?case by simp
qed simp

lemma daysBeforeYear_strict: "y < z \<Longrightarrow> daysBeforeYear y < daysBeforeYear z"
  using daysBeforeYear_mono [of "y + 1" z] daysBeforeYear_Suc [of y] yearLen_bounds(1) [of y] by simp

lemma daysBeforeYear_less: "daysBeforeYear y \<le> d \<Longrightarrow> d < daysBeforeYear (z + 1) \<Longrightarrow> y \<le> z"
  by (rule ccontr) (use daysBeforeYear_mono [of "z + 1" y] in simp)

function yearFrom :: "int \<Rightarrow> int \<Rightarrow> int" where
  "yearFrom d y = (if daysBeforeYear (y + 1) \<le> d then yearFrom d (y + 1) else y)"
  by pat_completeness auto
termination
proof (relation "measure (\<lambda>(d, y). nat (d - daysBeforeYear y))")
  fix d y
  assume "daysBeforeYear (y + 1) \<le> d"
  then show "((d, y + 1), (d, y)) \<in> measure (\<lambda>(d, y). nat (d - daysBeforeYear y))"
    using daysBeforeYear_Suc [of y] yearLen_bounds(1) [of y] by simp
qed simp

declare yearFrom.simps [simp del]

lemma yearFrom_correct: "daysBeforeYear y \<le> d \<Longrightarrow> daysBeforeYear (yearFrom d y) \<le> d \<and> d < daysBeforeYear (yearFrom d y + 1)"
proof (induction d y rule: yearFrom.induct)
  case (1 d y)
  then show ?case by (subst (1 2) yearFrom.simps) auto
qed

definition yearOf :: "int \<Rightarrow> int" where
  "yearOf d = yearFrom d (min (d div 366) (d div 365))"

lemma floor_bounds: "0 < k \<Longrightarrow> k * (x div k) \<le> x \<and> x < k * (x div k) + k" for x k :: int
  using mult_div_mod_eq [of k x] pos_mod_bound [of k x] pos_mod_sign [of k x] by linarith

lemma year_estimate:
  fixes a b c d e :: int
  assumes "365 * e \<le> d" "366 * e \<le> d" "4 * a \<le> e - 1" "e - 1 < 100 * b + 100" "400 * c \<le> e - 1" "1 \<le> e \<longrightarrow> 0 \<le> b"
  shows "365 * (e - 1) + a - b + c \<le> d"
  using assms by (cases "1 \<le> e") auto

lemma daysBeforeYear_low: "daysBeforeYear (min (d div 366) (d div 365)) \<le> d"
proof -
  define e where "e = min (d div 366) (d div 365)"
  have e: "365 * e \<le> d" "366 * e \<le> d" using floor_bounds [of 366 d] floor_bounds [of 365 d] unfolding e_def min_def by (auto split: if_splits)
  have f: "4 * ((e - 1) div 4) \<le> e - 1" "e - 1 < 100 * ((e - 1) div 100) + 100" "400 * ((e - 1) div 400) \<le> e - 1"
    using floor_bounds [of 4 "e - 1"] floor_bounds [of 100 "e - 1"] floor_bounds [of 400 "e - 1"] by auto
  have "1 \<le> e \<longrightarrow> 0 \<le> (e - 1) div 100" by (simp add: pos_imp_zdiv_nonneg_iff)
  then have "daysBeforeYear e \<le> d" unfolding daysBeforeYear_def by (rule year_estimate [OF e f])
  then show ?thesis by (simp add: e_def)
qed

lemma yearOf_correct: "daysBeforeYear (yearOf d) \<le> d" "d < daysBeforeYear (yearOf d + 1)"
  using yearFrom_correct [OF daysBeforeYear_low] by (simp_all add: yearOf_def)

lemma yearOf_unique: "daysBeforeYear y \<le> d \<Longrightarrow> d < daysBeforeYear (y + 1) \<Longrightarrow> yearOf d = y"
  using yearOf_correct [of d] daysBeforeYear_less [of y d "yearOf d"] daysBeforeYear_less [of "yearOf d" d y] by simp

text \<open>Days from the first of January to the first of a month, and the month of a day of the year.\<close>

definition monthStarts :: "bool \<Rightarrow> int list" where
  "monthStarts lp = (let k = (if lp then 1 else 0) in [0, 31, 59 + k, 90 + k, 120 + k, 151 + k, 181 + k, 212 + k, 243 + k, 273 + k, 304 + k, 334 + k, 365 + k])"

definition daysBefore :: "bool \<Rightarrow> int \<Rightarrow> int" where
  "daysBefore lp m = monthStarts lp ! nat (m - 1)"

definition monthOf :: "bool \<Rightarrow> int \<Rightarrow> int" where
  "monthOf lp yd = int (length (filter (\<lambda>s. s \<le> yd) (take 12 (monthStarts lp))))"

definition daysIn :: "int \<Rightarrow> int \<Rightarrow> int" where
  "daysIn y m = daysBefore (leap y) (m + 1) - daysBefore (leap y) m"

lemma month_cases: "1 \<le> m \<Longrightarrow> m \<le> 12 \<Longrightarrow> m = 1 \<or> m = 2 \<or> m = 3 \<or> m = 4 \<or> m = 5 \<or> m = 6 \<or> m = 7 \<or> m = 8 \<or> m = 9 \<or> m = 10 \<or> m = 11 \<or> m = (12 :: int)"
  by presburger

lemmas month_defs = monthOf_def daysBefore_def monthStarts_def Let_def

lemma monthOf_correct:
  assumes "0 \<le> yd" "yd < 365 + (if lp then 1 else 0)"
  shows "1 \<le> monthOf lp yd" "monthOf lp yd \<le> 12" "daysBefore lp (monthOf lp yd) \<le> yd" "yd < daysBefore lp (monthOf lp yd + 1)"
  using assms by (cases lp; auto simp: month_defs)+

lemma monthOf_unique:
  assumes "1 \<le> m" "m \<le> 12" "daysBefore lp m \<le> yd" "yd < daysBefore lp (m + 1)"
  shows "monthOf lp yd = m"
  using month_cases [OF assms(1,2)] assms(3,4) by (elim disjE; cases lp; simp add: month_defs)

lemma daysBefore_bounds:
  assumes "1 \<le> m" "m \<le> 12"
  shows "0 \<le> daysBefore lp m \<and> daysBefore lp (m + 1) \<le> 365 + (if lp then 1 else 0) \<and> 28 \<le> daysBefore lp (m + 1) - daysBefore lp m"
  using month_cases [OF assms] by (elim disjE; cases lp; simp add: month_defs)

section \<open>Fields of a time\<close>

record civil =
  c_year :: int
  c_month :: int
  c_day :: int
  c_hour :: int
  c_minute :: int
  c_second :: int
  c_nsec :: int

definition epochDay :: int where "epochDay = daysBeforeYear 1970"

text \<open>The day since the start of year 1 on which a (local) time falls.\<close>

definition dayOf :: "int \<Rightarrow> int" where
  "dayOf t = t div day_ns + epochDay"

definition yearDay :: "int \<Rightarrow> int" where
  "yearDay d = d - daysBeforeYear (yearOf d)"

definition monthOfDay :: "int \<Rightarrow> int" where
  "monthOfDay d = monthOf (leap (yearOf d)) (yearDay d)"

definition civil_of :: "int \<Rightarrow> civil" where
  "civil_of t = (let d = dayOf t; r = t mod day_ns in
     \<lparr>c_year = yearOf d, c_month = monthOfDay d, c_day = yearDay d - daysBefore (leap (yearOf d)) (monthOfDay d) + 1,
      c_hour = r div hour_ns, c_minute = r mod hour_ns div minute_ns, c_second = r mod minute_ns div second_ns, c_nsec = r mod second_ns\<rparr>)"

text \<open>\<open>time.Date\<close>: a month outside 1 to 12 moves the year, everything else may be out of its range as well.\<close>

definition dateDay :: "int \<Rightarrow> int \<Rightarrow> int \<Rightarrow> int" where
  "dateDay y m d = (let y' = y + (m - 1) div 12; m' = (m - 1) mod 12 + 1 in daysBeforeYear y' + daysBefore (leap y') m' + d - 1)"

definition Date :: "int \<Rightarrow> int \<Rightarrow> int \<Rightarrow> int \<Rightarrow> int \<Rightarrow> int \<Rightarrow> int \<Rightarrow> int" where
  "Date y m d h mi s n = (dateDay y m d - epochDay) * day_ns + h * hour_ns + mi * minute_ns + s * second_ns + n"

text \<open>\<open>ISOWeek\<close>: the year and week of the Thursday of the week; day 0, 1 January of year 1, is a Monday.\<close>

definition thursday :: "int \<Rightarrow> int" where
  "thursday d = 7 * (d div 7) + 3"

definition ISOWeek :: "int \<Rightarrow> int \<times> int" where
  "ISOWeek t = (let th = thursday (dayOf t) in (yearOf th, yearDay th div 7 + 1))"

lemma yearDay_bounds: "0 \<le> yearDay d" "yearDay d < yearLen (yearOf d)"
  using yearOf_correct [of d] daysBeforeYear_Suc [of "yearOf d"] by (simp_all add: yearDay_def)

lemma monthOfDay_correct:
  "1 \<le> monthOfDay d" "monthOfDay d \<le> 12" "daysBefore (leap (yearOf d)) (monthOfDay d) \<le> yearDay d" "yearDay d < daysBefore (leap (yearOf d)) (monthOfDay d + 1)"
proof -
  have "yearDay d < 365 + (if leap (yearOf d) then 1 else 0)" using yearDay_bounds(2) [of d] by (auto simp: yearLen_def)
  note c = monthOf_correct [OF yearDay_bounds(1) this]
  show "1 \<le> monthOfDay d" "monthOfDay d \<le> 12" "daysBefore (leap (yearOf d)) (monthOfDay d) \<le> yearDay d" "yearDay d < daysBefore (leap (yearOf d)) (monthOfDay d + 1)"
    using c by (simp_all add: monthOfDay_def)
qed

lemma yearOf_mono: "d \<le> e \<Longrightarrow> yearOf d \<le> yearOf e"
  by (rule daysBeforeYear_less [OF order_trans [OF yearOf_correct(1)] yearOf_correct(2)])

lemma day_of_date:
  assumes "1 \<le> m" "m \<le> 12" "1 \<le> d" "d \<le> daysIn y m"
  shows "yearOf (dateDay y m d) = y" "monthOfDay (dateDay y m d) = m" "yearDay (dateDay y m d) = daysBefore (leap y) m + d - 1"
proof -
  have dd: "dateDay y m d = daysBeforeYear y + daysBefore (leap y) m + d - 1" using assms(1,2) by (simp add: dateDay_def)
  note b = daysBefore_bounds [OF assms(1,2), of "leap y"]
  have d: "daysBefore (leap y) m + d - 1 < daysBefore (leap y) (m + 1)" using assms(4) by (simp add: daysIn_def)
  show y: "yearOf (dateDay y m d) = y"
    by (rule yearOf_unique) (use b d assms(3) daysBeforeYear_Suc [of y] in \<open>auto simp: dd yearLen_def\<close>)
  then show yd: "yearDay (dateDay y m d) = daysBefore (leap y) m + d - 1" by (simp add: yearDay_def dd)
  show "monthOfDay (dateDay y m d) = m" unfolding monthOfDay_def y yd by (rule monthOf_unique) (use assms d in auto)
qed

lemma dateDay_civil: "dateDay (yearOf d) (monthOfDay d) (yearDay d - daysBefore (leap (yearOf d)) (monthOfDay d) + 1) = d"
  using monthOfDay_correct [of d] by (simp add: dateDay_def yearDay_def)

lemma c_day_bounds: "1 \<le> c_day (civil_of t)" "c_day (civil_of t) \<le> daysIn (c_year (civil_of t)) (c_month (civil_of t))"
  using monthOfDay_correct [of "dayOf t"] by (simp_all add: civil_of_def Let_def daysIn_def)

lemma ns_pos [simp]: "0 < second_ns" "0 < minute_ns" "0 < hour_ns" "0 < day_ns"
  by (simp_all add: day_ns_def hour_ns_def minute_ns_def second_ns_def)

lemma clock_split:
  fixes r :: int
  shows "r = r div hour_ns * hour_ns + r mod hour_ns div minute_ns * minute_ns + r mod minute_ns div second_ns * second_ns + r mod second_ns"
proof -
  have "r mod hour_ns mod minute_ns = r mod minute_ns" "r mod minute_ns mod second_ns = r mod second_ns"
    by (rule mod_mod_cancel; simp add: hour_ns_def minute_ns_def)+
  then show ?thesis
    using div_mult_mod_eq [of r hour_ns] div_mult_mod_eq [of "r mod hour_ns" minute_ns] div_mult_mod_eq [of "r mod minute_ns" second_ns] by linarith
qed

lemma Date_civil_of:
  "Date (c_year (civil_of t)) (c_month (civil_of t)) (c_day (civil_of t)) (c_hour (civil_of t)) (c_minute (civil_of t)) (c_second (civil_of t)) (c_nsec (civil_of t)) = t"
proof -
  have "Date (c_year (civil_of t)) (c_month (civil_of t)) (c_day (civil_of t)) (c_hour (civil_of t)) (c_minute (civil_of t)) (c_second (civil_of t)) (c_nsec (civil_of t))
      = (dayOf t - epochDay) * day_ns + t mod day_ns"
    unfolding Date_def civil_of_def Let_def using clock_split [of "t mod day_ns"] dateDay_civil [of "dayOf t"] by simp
  then show ?thesis by (simp add: dayOf_def)
qed

lemma civil_of_Date:
  assumes "1 \<le> m" "m \<le> 12" "1 \<le> d" "d \<le> daysIn y m" "0 \<le> h" "h < 24" "0 \<le> mi" "mi < 60" "0 \<le> s" "s < 60" "0 \<le> n" "n < second_ns"
  shows "civil_of (Date y m d h mi s n) = \<lparr>c_year = y, c_month = m, c_day = d, c_hour = h, c_minute = mi, c_second = s, c_nsec = n\<rparr>"
proof -
  let ?r = "h * hour_ns + mi * minute_ns + s * second_ns + n"
  have e: "hour_ns = 3600 * second_ns" "minute_ns = 60 * second_ns" "day_ns = 86400 * second_ns" by (simp_all add: hour_ns_def minute_ns_def day_ns_def)
  have m: "s * second_ns \<le> 59 * second_ns" "mi * minute_ns \<le> 59 * minute_ns" "h * hour_ns \<le> 23 * hour_ns"
    using assms by (intro mult_right_mono; simp add: order_less_imp_le)+
  have z: "0 \<le> s * second_ns" "0 \<le> mi * minute_ns" "0 \<le> h * hour_ns" using assms by (intro mult_nonneg_nonneg; simp add: order_less_imp_le)+
  have s1: "0 \<le> s * second_ns + n" "s * second_ns + n < minute_ns" using assms(11,12) m(1) z(1) unfolding e by linarith+
  have s2: "0 \<le> mi * minute_ns + (s * second_ns + n)" "mi * minute_ns + (s * second_ns + n) < hour_ns"
    using s1 m(2) z(2) unfolding e by linarith+
  have s3: "0 \<le> ?r" "?r < day_ns" using s2 m(3) z(3) unfolding e by linarith+
  have t: "Date y m d h mi s n = (dateDay y m d - epochDay) * day_ns + ?r" by (simp add: Date_def)
  have dm: "Date y m d h mi s n div day_ns = dateDay y m d - epochDay" "Date y m d h mi s n mod day_ns = ?r"
    unfolding t using s3 by simp_all
  have f: "?r div hour_ns = h" "?r mod hour_ns = mi * minute_ns + (s * second_ns + n)"
    "(mi * minute_ns + (s * second_ns + n)) div minute_ns = mi"
    using s1 s2 by (simp_all add: add.assoc)
  have g: "?r = (h * 60 + mi) * minute_ns + (s * second_ns + n)" "?r = (h * 3600 + mi * 60 + s) * second_ns + n" by (simp_all add: e algebra_simps)
  have g1: "?r mod minute_ns = s * second_ns + n" unfolding g(1) using s1 by simp
  have g2: "?r mod second_ns = n" unfolding g(2) using assms(11,12) by simp
  have g3: "(s * second_ns + n) div second_ns = s" using assms(11,12) by simp
  show ?thesis unfolding civil_of_def Let_def dayOf_def dm f g1 g2 g3 using day_of_date [OF assms(1-4)] by simp
qed

section \<open>Counting periods\<close>

lemma div_mod_unit: "0 < b \<Longrightarrow> 0 < c \<Longrightarrow> a mod (b * c) div b = a div b mod c" for a b c :: int
proof -
  assume bc: "0 < b" "0 < c"
  have "a mod (b * c) = b * (a div b mod c) + a mod b" using bc by (intro zmod_zmult2_eq) simp
  then show ?thesis using bc by simp
qed

lemma clock_units:
  "l div hour_ns = 24 * (l div day_ns) + c_hour (civil_of l)"
  "l div minute_ns = 60 * (l div hour_ns) + c_minute (civil_of l)"
  "l div second_ns = 60 * (l div minute_ns) + c_second (civil_of l)"
proof -
  have u: "day_ns = hour_ns * 24" "hour_ns = minute_ns * 60" "minute_ns = second_ns * 60" by (simp_all add: day_ns_def hour_ns_def minute_ns_def)
  have m: "l mod day_ns mod hour_ns = l mod hour_ns" "l mod day_ns mod minute_ns = l mod minute_ns"
    by (rule mod_mod_cancel; simp add: u)+
  have c: "c_hour (civil_of l) = l div hour_ns mod 24" "c_minute (civil_of l) = l div minute_ns mod 60" "c_second (civil_of l) = l div second_ns mod 60"
    using div_mod_unit [of hour_ns 24 l] div_mod_unit [of minute_ns 60 l] div_mod_unit [of second_ns 60 l] unfolding u(1,2,3) [symmetric]
    by (simp_all add: civil_of_def Let_def m)
  have d: "l div day_ns = l div hour_ns div 24" "l div hour_ns = l div minute_ns div 60" "l div minute_ns = l div second_ns div 60"
    unfolding u by (rule zdiv_zmult2_eq; simp)+
  show "l div hour_ns = 24 * (l div day_ns) + c_hour (civil_of l)" unfolding c d(1) by simp
  show "l div minute_ns = 60 * (l div hour_ns) + c_minute (civil_of l)" unfolding c d(2) by simp
  show "l div second_ns = 60 * (l div minute_ns) + c_second (civil_of l)" unfolding c d(3) by simp
qed

lemma pair_code:
  fixes a b :: int
  assumes "0 \<le> b" "b < k" "0 \<le> b'" "b' < k"
  shows "k * a + b = k * a' + b' \<longleftrightarrow> a = a' \<and> b = b'"
proof
  assume e: "k * a + b = k * a' + b'"
  have k: "0 < k" using assms by simp
  have "(k * a + b) div k = a" "(k * a' + b') div k = a'" using assms k by simp_all
  with e show "a = a' \<and> b = b'" by simp
qed simp

lemma pair_mono:
  fixes a b :: int
  assumes "a < a' \<or> a = a' \<and> b \<le> b'" "0 \<le> b'" "b < k" "0 \<le> k"
  shows "k * a + b \<le> k * a' + b'"
proof (cases "a = a'")
  case False
  then have "k * (a + 1) \<le> k * a'" using assms by (intro mult_left_mono) auto
  then show ?thesis using assms by (simp add: algebra_simps)
qed (use assms in simp)

lemma date_iff:
  "c_year (civil_of l) = c_year (civil_of l') \<and> c_month (civil_of l) = c_month (civil_of l') \<and> c_day (civil_of l) = c_day (civil_of l') \<longleftrightarrow> l div day_ns = l' div day_ns"
proof
  assume "c_year (civil_of l) = c_year (civil_of l') \<and> c_month (civil_of l) = c_month (civil_of l') \<and> c_day (civil_of l) = c_day (civil_of l')"
  moreover have "dateDay (c_year (civil_of x)) (c_month (civil_of x)) (c_day (civil_of x)) = dayOf x" for x
    using dateDay_civil [of "dayOf x"] by (simp add: civil_of_def Let_def)
  ultimately have "dayOf l = dayOf l'" by metis
  then show "l div day_ns = l' div day_ns" by (simp add: dayOf_def)
qed (simp add: civil_of_def Let_def dayOf_def)

lemma monthOfDay_mono: "d \<le> e \<Longrightarrow> yearOf d = yearOf e \<Longrightarrow> monthOfDay d \<le> monthOfDay e"
proof -
  assume "d \<le> e" "yearOf d = yearOf e"
  moreover from this have "yearDay d \<le> yearDay e" by (simp add: yearDay_def)
  moreover have "length (filter (\<lambda>s. s \<le> a) xs) \<le> length (filter (\<lambda>s. s \<le> b) xs)" if "a \<le> b" for a b :: int and xs using that by (induction xs) auto
  ultimately show ?thesis by (simp add: monthOfDay_def monthOf_def)
qed

lemma month_no_mono: "d \<le> e \<Longrightarrow> 12 * yearOf d + (monthOfDay d - 1) \<le> 12 * yearOf e + (monthOfDay e - 1)"
  using yearOf_mono [of d e] monthOfDay_mono [of d e] monthOfDay_correct(1,2) [of d] monthOfDay_correct(1,2) [of e] by (intro pair_mono) auto

lemma thursday_mono: "d \<le> e \<Longrightarrow> thursday d \<le> thursday e"
  by (simp add: thursday_def zdiv_mono1)

lemma yearDay_week: "0 \<le> yearDay d div 7" "yearDay d div 7 \<le> 52"
proof -
  show "0 \<le> yearDay d div 7" using yearDay_bounds(1) [of d] by (simp add: pos_imp_zdiv_nonneg_iff)
  have "yearDay d \<le> 365" using yearDay_bounds(2) [of d] yearLen_bounds(2) [of "yearOf d"] by simp
  then have "yearDay d div 7 \<le> 365 div 7" by (rule zdiv_mono1) simp
  then show "yearDay d div 7 \<le> 52" by simp
qed

lemma ISOWeek_iff: "ISOWeek l = ISOWeek l' \<longleftrightarrow> dayOf l div 7 = dayOf l' div 7"
proof
  let ?a = "thursday (dayOf l)" and ?b = "thursday (dayOf l')"
  assume "ISOWeek l = ISOWeek l'"
  then have e: "yearOf ?a = yearOf ?b" "yearDay ?a div 7 = yearDay ?b div 7" by (simp_all add: ISOWeek_def Let_def)
  have "yearDay ?a - yearDay ?b = ?a - ?b" using e(1) by (simp add: yearDay_def)
  moreover have "\<bar>yearDay ?a - yearDay ?b\<bar> < 7" using e(2) floor_bounds [of 7 "yearDay ?a"] floor_bounds [of 7 "yearDay ?b"] by linarith
  moreover have "?a - ?b = 7 * (dayOf l div 7 - dayOf l' div 7)" by (simp add: thursday_def)
  ultimately have "\<bar>dayOf l div 7 - dayOf l' div 7\<bar> < 1" by simp
  then show "dayOf l div 7 = dayOf l' div 7" by simp
qed (simp add: ISOWeek_def Let_def thursday_def)

end
