(* ===== verification/Timespan.thy ===== *)
theory Timespan
  imports Go_Time Go_Strings Borge_Prelude
begin

text \<open>
  Relative time markers such as \<open>7d\<close> or \<open>12m\<close>, \<^verbatim>\<open>src/internal/manifest/timespan.go\<close>. Archive
  times are UTC, so the calendar arithmetic is on UTC fields.
\<close>

record timespan =
  ts_n :: int
  ts_unit :: char

datatype timespan_error = SpanTooShort | NoKnownUnit | NotDigits | CountRange

definition span_units :: string where "span_units = ''ymwdHMS''"

definition ParseTimespan :: "string \<Rightarrow> timespan_error + timespan" where
  "ParseTimespan s =
     (if length s < 2 then Inl SpanTooShort
      else let u = last s; digits = butlast s in
        if u \<notin> set span_units then Inl NoKnownUnit
        else if \<not> list_all (\<lambda>c. digit_val c \<noteq> None) digits then Inl NotDigits
        else case Atoi digits of None \<Rightarrow> Inl CountRange | Some n \<Rightarrow> Inr \<lparr>ts_n = n, ts_unit = u\<rparr>)"

definition timespan_String :: "timespan \<Rightarrow> string" where
  "timespan_String t = Itoa (ts_n t) @ [ts_unit t]"

definition zeroSpan :: timespan where
  "zeroSpan = \<lparr>ts_n = 0, ts_unit = CHR 0x00\<rparr>"

definition timespan_IsZero :: "timespan \<Rightarrow> bool" where
  "timespan_IsZero t \<longleftrightarrow> ts_unit t = CHR 0x00"

text \<open>Go's division truncates towards zero.\<close>

definition quot :: "int \<Rightarrow> int \<Rightarrow> int" where
  "quot a b = sgn a * sgn b * (\<bar>a\<bar> div \<bar>b\<bar>)"

definition rem :: "int \<Rightarrow> int \<Rightarrow> int" where
  "rem a b = a - quot a b * b"

definition floorDiv :: "int \<Rightarrow> int \<Rightarrow> int" where
  "floorDiv a b = (let q = quot a b in if rem a b \<noteq> 0 \<and> (a < 0) \<noteq> (b < 0) then q - 1 else q)"

definition floorMod :: "int \<Rightarrow> int \<Rightarrow> int" where
  "floorMod a b = a - floorDiv a b * b"

definition offsetMonths :: "instant \<Rightarrow> int \<Rightarrow> instant" where
  "offsetMonths frm months =
     (let c = civil_of frm;
          total = dur64 (c_year c * 12 + c_month c + months - 1);
          targetMonth = floorMod total 12 + 1;
          targetYear = floorDiv total 12;
          firstOfFollowing = Date targetYear (targetMonth + 1) 1 0 0 0 0;
          maxDay = c_day (civil_of (firstOfFollowing - day_ns));
          day = (if c_day c > maxDay then maxDay else c_day c) in
      Date targetYear targetMonth day (c_hour c) (c_minute c) (c_second c) (c_nsec c))"

definition timespan_Offset :: "timespan \<Rightarrow> instant \<Rightarrow> bool \<Rightarrow> instant" where
  "timespan_Offset t frm earlier =
     (let n = (if earlier then dur64 (- ts_n t) else ts_n t); u = ts_unit t in
      if u = CHR ''y'' then offsetMonths frm (dur64 (n * 12))
      else if u = CHR ''m'' then offsetMonths frm n
      else if u = CHR ''w'' then frm + dur64 (n * 7 * 24 * hour_ns)
      else if u = CHR ''d'' then frm + dur64 (n * 24 * hour_ns)
      else if u = CHR ''H'' then frm + dur64 (n * hour_ns)
      else if u = CHR ''M'' then frm + dur64 (n * minute_ns)
      else if u = CHR ''S'' then frm + dur64 (n * second_ns)
      else frm)"

section \<open>Arithmetic\<close>

lemma floorDiv_div: "0 < b \<Longrightarrow> floorDiv a b = a div b"
proof -
  assume b: "0 < b"
  consider "0 \<le> a" | "a < 0" by linarith
  then show ?thesis
  proof cases
    case 1
    then show ?thesis using b by (cases "a = 0") (auto simp: floorDiv_def Let_def quot_def)
  next
    case 2
    have q: "quot a b = - ((- a) div b)" using 2 b by (simp add: quot_def)
    have r: "rem a b = - ((- a) mod b)" using mult_div_mod_eq [of b "- a"] unfolding rem_def q mult_minus_left mult.commute [of _ b] by linarith
    have "a div b = - ((- a) div b) - (if (- a) mod b = 0 then 0 else 1)"
      using zdiv_zminus1_eq_if [of b "- a"] b by auto
    then show ?thesis using 2 b by (simp add: floorDiv_def Let_def q r)
  qed
qed

lemma floorMod_mod: "0 < b \<Longrightarrow> floorMod a b = a mod b"
  by (simp add: floorMod_def floorDiv_div minus_div_mult_eq_mod)

lemma dateDay_following:
  assumes "1 \<le> m" "m \<le> 12"
  shows "dateDay y (m + 1) 1 = dateDay y m (daysIn y m) + 1"
proof (cases "m = 12")
  case True
  then show ?thesis using daysBeforeYear_Suc [of y]
    by (cases "leap y") (simp_all add: dateDay_def daysIn_def daysBefore_def monthStarts_def yearLen_def)
next
  case False
  then have "m div 12 = 0" "m mod 12 = m" "(m - 1) div 12 = 0" "(m - 1) mod 12 = m - 1" using assms by auto
  then show ?thesis by (simp add: dateDay_def daysIn_def)
qed

lemma last_day:
  assumes "1 \<le> m" "m \<le> 12"
  shows "c_day (civil_of (Date y (m + 1) 1 0 0 0 0 - day_ns)) = daysIn y m"
proof -
  have l: "1 \<le> daysIn y m" using daysBefore_bounds [OF assms, of "leap y"] by (simp add: daysIn_def)
  have "Date y (m + 1) 1 0 0 0 0 - day_ns = Date y m (daysIn y m) 0 0 0 0"
    unfolding Date_def dateDay_following [OF assms] by (simp add: left_diff_distrib distrib_right)
  then show ?thesis using civil_of_Date [OF assms l order_refl, of 0 0 0 0] by simp
qed

lemma c_month_bounds: "1 \<le> c_month (civil_of t)" "c_month (civil_of t) \<le> 12"
  using monthOfDay_correct [of "dayOf t"] by (simp_all add: civil_of_def Let_def)

lemma clock_bounds:
  "0 \<le> c_hour (civil_of t)" "c_hour (civil_of t) < 24" "0 \<le> c_minute (civil_of t)" "c_minute (civil_of t) < 60"
  "0 \<le> c_second (civil_of t)" "c_second (civil_of t) < 60" "0 \<le> c_nsec (civil_of t)" "c_nsec (civil_of t) < second_ns"
proof -
  have b: "0 \<le> x mod k div j" "x mod k div j < n" if "k = n * j" "0 < j" "0 < n" for x k j n :: int
  proof -
    have "0 \<le> x mod k" "x mod k < n * j" using that by simp_all
    moreover have "j * (x mod k div j) \<le> x mod k" using floor_bounds [OF that(2)] by simp
    ultimately have "j * (x mod k div j) < j * n" by (simp only: mult.commute [of j n])
    then show "x mod k div j < n" using that(2) by (simp only: mult_less_cancel_left_pos)
    show "0 \<le> x mod k div j" using that by (simp add: pos_imp_zdiv_nonneg_iff)
  qed
  have k: "day_ns = 24 * hour_ns" "hour_ns = 60 * minute_ns" "minute_ns = 60 * second_ns" by (simp_all add: day_ns_def hour_ns_def minute_ns_def)
  show "0 \<le> c_hour (civil_of t)" "c_hour (civil_of t) < 24" "0 \<le> c_minute (civil_of t)" "c_minute (civil_of t) < 60"
    "0 \<le> c_second (civil_of t)" "c_second (civil_of t) < 60" "0 \<le> c_nsec (civil_of t)" "c_nsec (civil_of t) < second_ns"
    unfolding civil_of_def Let_def civil.select_convs
    using b [OF k(1), of "t"] b [OF k(2), of "t mod day_ns"] b [OF k(3), of "t mod day_ns"] by simp_all
qed

lemma offsetMonths_fields:
  assumes range: "- (2 ^ 63) \<le> c_year (civil_of frm) * 12 + c_month (civil_of frm) + months - 1" "c_year (civil_of frm) * 12 + c_month (civil_of frm) + months - 1 < 2 ^ 63"
  defines "tm \<equiv> c_year (civil_of frm) * 12 + c_month (civil_of frm) + months - 1"
  shows "civil_of (offsetMonths frm months) = (civil_of frm)\<lparr>c_year := tm div 12, c_month := tm mod 12 + 1,
    c_day := min (c_day (civil_of frm)) (daysIn (tm div 12) (tm mod 12 + 1))\<rparr>"
proof -
  have m: "1 \<le> tm mod 12 + 1" "tm mod 12 + 1 \<le> 12" by simp_all
  let ?d = "min (c_day (civil_of frm)) (daysIn (tm div 12) (tm mod 12 + 1))"
  have d: "1 \<le> ?d" "?d \<le> daysIn (tm div 12) (tm mod 12 + 1)"
    using c_day_bounds(1) [of frm] daysBefore_bounds [OF m, of "leap (tm div 12)"] by (simp_all add: daysIn_def)
  have "offsetMonths frm months = Date (tm div 12) (tm mod 12 + 1) ?d (c_hour (civil_of frm)) (c_minute (civil_of frm)) (c_second (civil_of frm)) (c_nsec (civil_of frm))"
    unfolding offsetMonths_def Let_def using dur64_id [OF range] last_day [OF m, of "tm div 12"]
    by (simp add: floorDiv_div floorMod_mod tm_def [symmetric] min_def)
  then show ?thesis using civil_of_Date [OF m d clock_bounds] by simp
qed

definition span_ns :: "char \<Rightarrow> int" where
  "span_ns u = (if u = CHR ''w'' then 7 * day_ns else if u = CHR ''d'' then day_ns else if u = CHR ''H'' then hour_ns else if u = CHR ''M'' then minute_ns else second_ns)"

definition span_months :: "char \<Rightarrow> int" where
  "span_months u = (if u = CHR ''y'' then 12 else 1)"

lemma digits_val_ne: "\<forall>c\<in>set ds. digit_val c \<noteq> None \<Longrightarrow> digits_val acc ds \<noteq> None"
  by (induction ds arbitrary: acc) auto

lemma digit_val_None: "digit_val (CHR ''-'') = None" "digit_val (CHR ''+'') = None"
  by (simp_all add: digit_val_def)

lemma ParseTimespan_Inr:
  assumes "ParseTimespan s = Inr t"
  shows "ts_unit t \<in> set span_units" "0 \<le> ts_n t" "ts_n t < 2 ^ 63"
proof -
  from assms have p: "ts_unit t \<in> set span_units" "list_all (\<lambda>c. digit_val c \<noteq> None) (butlast s)" "Atoi (butlast s) = Some (ts_n t)" "butlast s \<noteq> []"
    by (auto simp: ParseTimespan_def Let_def split: if_splits option.splits dest: arg_cong [of _ _ length])
  then have "hd (butlast s) \<noteq> CHR ''-''" "hd (butlast s) \<noteq> CHR ''+''" using digit_val_None p(2) hd_in_set [OF p(4)] unfolding list_all_iff by metis+
  then show "ts_unit t \<in> set span_units" "0 \<le> ts_n t" "ts_n t < 2 ^ 63" using p by (auto simp: Atoi_def Let_def split: if_splits bind_splits)
qed

text \<open>C36. A parsed time span moves a time by what it says: weeks to seconds are exact durations, in
  either direction, as long as the duration fits in 64 bits; months and years move the month and
  keep day and time of day, with the day cut to the last of the target month.\<close>

theorem timespan_offset:
  fixes earlier :: bool
  assumes p: "ParseTimespan s = Inr t"
  defines "k \<equiv> (if earlier then - 1 else 1) * ts_n t"
  shows "if ts_unit t \<in> set ''ym''
    then \<bar>c_year (civil_of frm)\<bar> < 2 ^ 40 \<and> ts_n t < 2 ^ 40 \<longrightarrow>
      (let tm = c_year (civil_of frm) * 12 + c_month (civil_of frm) + k * span_months (ts_unit t) - 1 in
       civil_of (timespan_Offset t frm earlier) = (civil_of frm)\<lparr>c_year := tm div 12, c_month := tm mod 12 + 1,
         c_day := min (c_day (civil_of frm)) (daysIn (tm div 12) (tm mod 12 + 1))\<rparr>)
    else ts_n t * span_ns (ts_unit t) < 2 ^ 63 \<longrightarrow> timespan_Offset t frm earlier = frm + k * span_ns (ts_unit t)"
proof -
  note n = ParseTimespan_Inr [OF p]
  have k: "(if earlier then dur64 (- ts_n t) else ts_n t) = k" using n(2,3) by (simp add: k_def dur64_id)
  have months: "civil_of (timespan_Offset t frm earlier) = (civil_of frm)\<lparr>c_year := tm div 12, c_month := tm mod 12 + 1,
         c_day := min (c_day (civil_of frm)) (daysIn (tm div 12) (tm mod 12 + 1))\<rparr>"
    if u: "ts_unit t \<in> set ''ym''" and b: "\<bar>c_year (civil_of frm)\<bar> < 2 ^ 40" "ts_n t < 2 ^ 40"
      and tm: "tm = c_year (civil_of frm) * 12 + c_month (civil_of frm) + k * span_months (ts_unit t) - 1" for tm
  proof -
    have kb: "\<bar>k\<bar> < 2 ^ 40" using b(2) n(2) by (simp add: k_def)
    have "timespan_Offset t frm earlier = offsetMonths frm (k * span_months (ts_unit t))"
      unfolding timespan_Offset_def Let_def k using u kb by (auto simp: span_months_def dur64_id)
    moreover have "\<bar>k * span_months (ts_unit t)\<bar> < 2 ^ 44" using kb by (auto simp: span_months_def)
    ultimately show ?thesis unfolding tm using b(1) c_month_bounds [of frm] by (simp add: offsetMonths_fields)
  qed
  have exact: "timespan_Offset t frm earlier = frm + k * span_ns (ts_unit t)"
    if "ts_unit t \<notin> set ''ym''" "ts_n t * span_ns (ts_unit t) < 2 ^ 63"
  proof -
    have "0 \<le> ts_n t * span_ns (ts_unit t)" using n(2) by (simp add: span_ns_def order_less_imp_le)
    then have w: "dur64 (k * span_ns (ts_unit t)) = k * span_ns (ts_unit t)" using that(2) by (intro dur64_id) (auto simp: k_def)
    have e: "k * 7 * 24 * hour_ns = k * (7 * day_ns)" "k * 24 * hour_ns = k * day_ns" by (simp_all add: day_ns_def)
    show ?thesis unfolding timespan_Offset_def Let_def k e using that(1) n(1) w by (auto simp: span_ns_def span_units_def)
  qed
  show ?thesis using months exact by (auto simp: Let_def)
qed

theorem timespan_offset_witness:
  "civil_of (timespan_Offset \<lparr>ts_n = 1, ts_unit = CHR ''m''\<rparr> (Date 2024 1 31 12 0 0 0) False)
    = \<lparr>c_year = 2024, c_month = 2, c_day = 29, c_hour = 12, c_minute = 0, c_second = 0, c_nsec = 0\<rparr>"
proof -
  have p: "ParseTimespan ''1m'' = Inr \<lparr>ts_n = 1, ts_unit = CHR ''m''\<rparr>" by code_simp
  have c: "civil_of (Date 2024 1 31 12 0 0 0) = \<lparr>c_year = 2024, c_month = 1, c_day = 31, c_hour = 12, c_minute = 0, c_second = 0, c_nsec = 0\<rparr>"
    by (rule civil_of_Date) (simp_all add: daysIn_def daysBefore_def monthStarts_def)
  have d: "daysIn 2024 2 = 29" by (simp add: daysIn_def daysBefore_def monthStarts_def leap_def)
  show ?thesis using timespan_offset [OF p, of "Date 2024 1 31 12 0 0 0" False] unfolding c by (simp add: span_months_def d)
qed

text \<open>A duration that does not fit wraps: going back 106752 days leads to the future.\<close>

lemma timespan_offset_wraps: "ParseTimespan ''106752d'' = Inr \<lparr>ts_n = 106752, ts_unit = CHR ''d''\<rparr> \<and> frm < timespan_Offset \<lparr>ts_n = 106752, ts_unit = CHR ''d''\<rparr> frm True"
proof
  show "ParseTimespan ''106752d'' = Inr \<lparr>ts_n = 106752, ts_unit = CHR ''d''\<rparr>"
    by (simp add: ParseTimespan_def span_units_def Atoi_def digit_val_def)
  show "frm < timespan_Offset \<lparr>ts_n = 106752, ts_unit = CHR ''d''\<rparr> frm True"
    by (simp add: timespan_Offset_def dur64_def hour_ns_def minute_ns_def second_ns_def)
qed

text \<open>Printing and parsing a time span.\<close>

lemma timespan_roundtrip: "0 \<le> ts_n t \<Longrightarrow> ts_n t < 2 ^ 63 \<Longrightarrow> ts_unit t \<in> set span_units \<Longrightarrow> ParseTimespan (timespan_String t) = Inr t"
proof -
  assume n: "0 \<le> ts_n t" "ts_n t < 2 ^ 63" "ts_unit t \<in> set span_units"
  have "\<forall>c\<in>set (Itoa (ts_n t)). digit_val c \<noteq> None" using n(1) nat_str_digits by (fastforce simp: Itoa_def)
  moreover have "length (Itoa (ts_n t)) \<noteq> 0" by (simp add: Itoa_def)
  ultimately show ?thesis using n Atoi_Itoa [of "ts_n t"] by (auto simp: ParseTimespan_def timespan_String_def list_all_iff Let_def)
qed

end
