(* ===== verification/Archive_List.thy ===== *)
theory Archive_List
  imports Timespan "HOL-Library.List_Lexorder" "HOL-Library.Char_ord" "HOL-Library.Multiset"
begin

text \<open>
  The archive directory's listing, \<^verbatim>\<open>src/internal/manifest/archives.go\<close>: selecting archives by a
  selector, bounding them in time, ordering and limiting them. What \<open>Get\<close> read for each archive
  id is the input of the listing; name patterns are compiled by the parameter \<open>compileName\<close>.
\<close>

record info =
  i_ID :: bytes
  i_Name :: string
  i_Time :: instant
  i_TimeString :: string
  i_Start :: instant
  i_End :: instant
  i_Host :: string
  i_User :: string
  i_Tags :: "string list"
  i_Comment :: string
  i_Size :: int
  i_NFiles :: int
  i_Exists :: bool
  i_Problem :: string

definition zeroTime :: instant where "zeroTime = Date 1 1 1 0 0 0 0"

definition time_IsZero :: "instant \<Rightarrow> bool" where "time_IsZero t \<longleftrightarrow> t = zeroTime"

datatype list_error = NotExactlyOne nat | BadNamePattern | UnknownSortKey string

record list_options =
  lo_Match :: "string list"
  lo_Deleted :: bool
  lo_SortBy :: "string list"
  lo_Reverse :: bool
  lo_First :: int
  lo_Last :: int
  lo_Newer :: instant
  lo_Older :: instant
  lo_Oldest :: timespan
  lo_Newest :: timespan

definition no_options :: list_options where
  "no_options = \<lparr>lo_Match = [], lo_Deleted = False, lo_SortBy = [], lo_Reverse = False, lo_First = 0, lo_Last = 0,
     lo_Newer = zeroTime, lo_Older = zeroTime, lo_Oldest = zeroSpan, lo_Newest = zeroSpan\<rparr>"

definition options_IsZero :: "list_options \<Rightarrow> bool" where
  "options_IsZero o' \<longleftrightarrow> lo_Match o' = [] \<and> \<not> lo_Deleted o' \<and> lo_SortBy o' = [] \<and> \<not> lo_Reverse o' \<and> lo_First o' = 0 \<and> lo_Last o' = 0
     \<and> time_IsZero (lo_Newer o') \<and> time_IsZero (lo_Older o') \<and> timespan_IsZero (lo_Oldest o') \<and> timespan_IsZero (lo_Newest o')"

definition HasPrefix :: "string \<Rightarrow> string \<Rightarrow> bool" where
  "HasPrefix s p \<longleftrightarrow> take (length p) s = p"

definition TrimPrefix :: "string \<Rightarrow> string \<Rightarrow> string" where
  "TrimPrefix s p = (if HasPrefix s p then drop (length p) s else s)"

definition hexdigit :: "nat \<Rightarrow> char" where
  "hexdigit n = ''0123456789abcdef'' ! n"

definition hex_EncodeToString :: "bytes \<Rightarrow> string" where
  "hex_EncodeToString bs = concat (map (\<lambda>b. [hexdigit (unat b div 16), hexdigit (unat b mod 16)]) bs)"

definition splitNonEmpty :: "string \<Rightarrow> char \<Rightarrow> string list" where
  "splitNonEmpty s sep = filter (\<lambda>p. p \<noteq> []) (Split sep s)"

definition applyMatch :: "(string \<Rightarrow> (string \<Rightarrow> bool) option) \<Rightarrow> info list \<Rightarrow> string \<Rightarrow> list_error + info list" where
  "applyMatch compileName infos match =
     (if HasPrefix match ''aid:'' then
        (let want = TrimPrefix match ''aid:''; kept = filter (\<lambda>i. HasPrefix (hex_EncodeToString (i_ID i)) want) infos in
         if length kept \<noteq> 1 then Inl (NotExactlyOne (length kept)) else Inr kept)
      else if HasPrefix match ''tags:'' then
        (let want = splitNonEmpty (TrimPrefix match ''tags:'') CHR '','' in
         Inr (filter (\<lambda>i. list_all (\<lambda>t. t \<in> set (i_Tags i)) want) infos))
      else if HasPrefix match ''user:'' then Inr (filter (\<lambda>i. i_User i = TrimPrefix match ''user:'') infos)
      else if HasPrefix match ''host:'' then Inr (filter (\<lambda>i. i_Host i = TrimPrefix match ''host:'') infos)
      else case compileName (TrimPrefix match ''name:'') of
        None \<Rightarrow> Inl BadNamePattern
      | Some re \<Rightarrow> Inr (filter (\<lambda>i. re (i_Name i)) infos))"

fun applyMatches :: "(string \<Rightarrow> (string \<Rightarrow> bool) option) \<Rightarrow> info list \<Rightarrow> string list \<Rightarrow> list_error + info list" where
  "applyMatches compileName infos [] = Inr infos"
| "applyMatches compileName infos (m # ms) =
     (case applyMatch compileName infos m of Inl e \<Rightarrow> Inl e | Inr kept \<Rightarrow> applyMatches compileName kept ms)"

definition filterByBounds :: "info list \<Rightarrow> instant \<Rightarrow> instant \<Rightarrow> info list" where
  "filterByBounds infos newer older =
     (if \<not> time_IsZero newer \<or> \<not> time_IsZero older
      then filter (\<lambda>i. \<not> (\<not> time_IsZero newer \<and> i_Time i < newer) \<and> \<not> (\<not> time_IsZero older \<and> i_Time i > older)) infos
      else infos)"

definition filterByRelativeExtremes :: "info list \<Rightarrow> timespan \<Rightarrow> timespan \<Rightarrow> info list" where
  "filterByRelativeExtremes infos oldest newest =
     (if infos = [] \<or> (timespan_IsZero oldest \<and> timespan_IsZero newest) then infos
      else let earliest = foldl (\<lambda>e i. if i_Time i < e then i_Time i else e) (i_Time (hd infos)) (tl infos);
               latest = foldl (\<lambda>l i. if i_Time i > l then i_Time i else l) (i_Time (hd infos)) (tl infos);
               infos1 = (if \<not> timespan_IsZero oldest then filter (\<lambda>i. \<not> i_Time i > timespan_Offset oldest earliest False) infos else infos) in
           (if \<not> timespan_IsZero newest then filter (\<lambda>i. \<not> i_Time i < timespan_Offset newest latest True) infos1 else infos1))"

definition sortInfos :: "info list \<Rightarrow> string \<Rightarrow> list_error + info list" where
  "sortInfos infos key =
     (if key = ''timestamp'' \<or> key = ''ts'' then Inr (sort_key i_Time infos)
      else if key = ''archive'' \<or> key = ''name'' then Inr (sort_key i_Name infos)
      else if key = ''id'' then Inr (sort_key i_ID infos)
      else if key = ''host'' then Inr (sort_key i_Host infos)
      else if key = ''user'' then Inr (sort_key i_User infos)
      else if key = ''tags'' then Inr (sort_key (\<lambda>i. Join CHR '','' (i_Tags i)) infos)
      else Inl (UnknownSortKey key))"

fun sortAll :: "info list \<Rightarrow> string list \<Rightarrow> list_error + info list" where
  "sortAll infos [] = Inr infos"
| "sortAll infos (k # ks) = (case sortInfos infos k of Inl e \<Rightarrow> Inl e | Inr infos' \<Rightarrow> sortAll infos' ks)"

definition limit :: "list_options \<Rightarrow> info list \<Rightarrow> info list" where
  "limit o' infos =
     (let i1 = (if lo_First o' > 0 \<and> int (length infos) > lo_First o' then take (nat (lo_First o')) infos else infos);
          i2 = (if lo_Last o' > 0 \<and> int (length i1) > lo_Last o' then drop (length i1 - nat (lo_Last o')) i1 else i1) in
      if lo_Reverse o' then rev i2 else i2)"

definition List_infos :: "(string \<Rightarrow> (string \<Rightarrow> bool) option) \<Rightarrow> info list \<Rightarrow> list_options \<Rightarrow> list_error + info list" where
  "List_infos compileName infos o' =
     (case applyMatches compileName infos (lo_Match o') of
        Inl e \<Rightarrow> Inl e
      | Inr infos1 \<Rightarrow>
          (let infos2 = filterByBounds infos1 (lo_Newer o') (lo_Older o');
               infos3 = filterByRelativeExtremes infos2 (lo_Oldest o') (lo_Newest o');
               sortKeys = (if lo_SortBy o' = [] then [''timestamp''] else lo_SortBy o') in
           case sortAll infos3 (rev sortKeys) of Inl e \<Rightarrow> Inl e | Inr infos4 \<Rightarrow> Inr (limit o' infos4)))"

definition archive_Names :: "(string \<Rightarrow> (string \<Rightarrow> bool) option) \<Rightarrow> info list \<Rightarrow> list_error + string list" where
  "archive_Names compileName infos = map_sum id (map i_Name) (List_infos compileName infos no_options)"

definition archive_ByName :: "(string \<Rightarrow> (string \<Rightarrow> bool) option) \<Rightarrow> info list \<Rightarrow> string \<Rightarrow> list_error + info option" where
  "archive_ByName compileName infos name =
     map_sum id (\<lambda>is. foldl (\<lambda>found i. if i_Exists i \<and> i_Name i = name then Some i else found) None is) (List_infos compileName infos no_options)"

definition archive_Exists :: "(string \<Rightarrow> (string \<Rightarrow> bool) option) \<Rightarrow> info list \<Rightarrow> string \<Rightarrow> list_error + bool" where
  "archive_Exists compileName infos name = map_sum id (\<lambda>i. i \<noteq> None) (archive_ByName compileName infos name)"

section \<open>What a listing returns\<close>

lemma List_zero: "List_infos cn infos no_options = Inr (sort_key i_Time infos)"
  by (simp add: List_infos_def no_options_def filterByBounds_def filterByRelativeExtremes_def time_IsZero_def timespan_IsZero_def zeroSpan_def sortInfos_def limit_def)

lemma foldl_last_match: "foldl (\<lambda>found i. if P i then Some i else found) acc xs = (if filter P xs = [] then acc else Some (last (filter P xs)))"
  by (induction xs arbitrary: acc) auto

text \<open>The comparison a sort key stands for: \<open>key_le k\<close> orders by that field, ties are equal.\<close>

definition key_le :: "string \<Rightarrow> info \<Rightarrow> info \<Rightarrow> bool" where
  "key_le k x y \<longleftrightarrow>
     (if k = ''timestamp'' \<or> k = ''ts'' then i_Time x \<le> i_Time y
      else if k = ''archive'' \<or> k = ''name'' then i_Name x \<le> i_Name y
      else if k = ''id'' then i_ID x \<le> i_ID y
      else if k = ''host'' then i_Host x \<le> i_Host y
      else if k = ''user'' then i_User x \<le> i_User y
      else Join CHR '','' (i_Tags x) \<le> Join CHR '','' (i_Tags y))"

fun keys_le :: "string list \<Rightarrow> info \<Rightarrow> info \<Rightarrow> bool" where
  "keys_le [] x y \<longleftrightarrow> True"
| "keys_le (k # ks) x y \<longleftrightarrow> key_le k x y \<and> (key_le k y x \<longrightarrow> keys_le ks x y)"

lemma sorted_wrt_filter_eq:
  assumes "sorted (map f xs)" "\<And>a. sorted_wrt R (filter (\<lambda>x. f x = a) xs)"
  shows "sorted_wrt (\<lambda>x y. f x \<le> f y \<and> (f y \<le> f x \<longrightarrow> R x y)) xs"
  using assms
proof (induction xs)
  case (Cons x xs)
  have "sorted_wrt R (filter (\<lambda>y. f y = a) xs)" for a using Cons.prems(2) [of a] by (auto split: if_splits)
  then have ih: "sorted_wrt (\<lambda>x y. f x \<le> f y \<and> (f y \<le> f x \<longrightarrow> R x y)) xs" using Cons by simp
  have "f x \<le> f y \<and> (f y \<le> f x \<longrightarrow> R x y)" if "y \<in> set xs" for y
    using Cons.prems(1) Cons.prems(2) [of "f x"] that by auto
  with ih show ?case by simp
qed simp

lemma sort_key_refines:
  assumes "sorted_wrt R xs"
  shows "sorted_wrt (\<lambda>x y. f x \<le> f y \<and> (f y \<le> f x \<longrightarrow> R x y)) (sort_key f xs)"
proof (rule sorted_wrt_filter_eq)
  show "sorted_wrt R (filter (\<lambda>x. f x = a) (sort_key f xs))" for a
    using assms by (simp add: sort_key_stable sorted_wrt_filter)
qed simp

text \<open>The dispatch on the name of the key, with the names abstracted.\<close>

lemma sort_dispatch:
  assumes "(if b1 then Inr (sort_key f1 xs) else if b2 then Inr (sort_key f2 xs) else if b3 then Inr (sort_key f3 xs)
    else if b4 then Inr (sort_key f4 xs) else if b5 then Inr (sort_key f5 xs) else if b6 then Inr (sort_key f6 xs) else Inl e) = Inr ys"
  defines "le \<equiv> \<lambda>x y. if b1 then f1 x \<le> f1 y else if b2 then f2 x \<le> f2 y else if b3 then f3 x \<le> f3 y else if b4 then f4 x \<le> f4 y else if b5 then f5 x \<le> f5 y else f6 x \<le> f6 y"
  shows "mset ys = mset xs" "sorted_wrt R xs \<Longrightarrow> sorted_wrt (\<lambda>x y. le x y \<and> (le y x \<longrightarrow> R x y)) ys"
proof -
  show "mset ys = mset xs" using assms by (auto split: if_splits)
  show "sorted_wrt (\<lambda>x y. le x y \<and> (le y x \<longrightarrow> R x y)) ys" if "sorted_wrt R xs"
    using assms(1) sort_key_refines [OF that, of f1] sort_key_refines [OF that, of f2] sort_key_refines [OF that, of f3]
      sort_key_refines [OF that, of f4] sort_key_refines [OF that, of f5] sort_key_refines [OF that, of f6] unfolding le_def by (auto split: if_splits)
qed

lemma sortInfos_correct:
  assumes "sortInfos xs k = Inr ys"
  shows "mset ys = mset xs" "sorted_wrt R xs \<Longrightarrow> sorted_wrt (\<lambda>x y. key_le k x y \<and> (key_le k y x \<longrightarrow> R x y)) ys"
  unfolding key_le_def by (rule sort_dispatch [OF assms [unfolded sortInfos_def]], assumption?)+

lemma sortAll_correct:
  "sortAll xs ks = Inr ys \<Longrightarrow> sorted_wrt (keys_le done) xs \<Longrightarrow> mset ys = mset xs \<and> sorted_wrt (keys_le (rev ks @ done)) ys"
proof (induction xs ks arbitrary: "done" rule: sortAll.induct)
  case (2 infos k ks)
  then obtain zs where z: "sortInfos infos k = Inr zs" "sortAll zs ks = Inr ys" by (auto split: sum.splits)
  have "sorted_wrt (keys_le (k # done)) zs" using sortInfos_correct(2) [OF z(1) 2(3)] by (simp add: keys_le.simps(2) [abs_def])
  from 2(1) [OF z(1,2) this] sortInfos_correct(1) [OF z(1)] show ?case by simp
qed simp

lemma applyMatch_sub: "applyMatch cn infos m = Inr kept \<Longrightarrow> mset kept \<subseteq># mset infos"
proof -
  have f: "mset (filter P xs) \<subseteq># mset xs" for P and xs :: "info list" by (simp add: mset_filter)
  assume "applyMatch cn infos m = Inr kept"
  then have "\<exists>P. kept = filter P infos" unfolding applyMatch_def Let_def by (simp only: split: if_split_asm option.split_asm; blast)
  then show ?thesis using f by blast
qed

lemma applyMatches_sub: "applyMatches cn infos ms = Inr kept \<Longrightarrow> mset kept \<subseteq># mset infos"
proof (induction cn infos ms rule: applyMatches.induct)
  case (2 cn infos m ms)
  then obtain k where "applyMatch cn infos m = Inr k" "applyMatches cn k ms = Inr kept" by (auto split: sum.splits)
  then show ?case using 2 applyMatch_sub subset_mset.order_trans by (metis (no_types, lifting))
qed simp

lemma filterByRelativeExtremes_sub: "mset (filterByRelativeExtremes infos a b) \<subseteq># mset infos"
  by (auto simp: filterByRelativeExtremes_def Let_def mset_filter intro: subset_mset.order_trans [OF multiset_filter_subset])

lemma set_limit: "set (limit o' xs) \<subseteq> set xs"
  by (auto simp: limit_def Let_def dest: in_set_takeD in_set_dropD)

lemma mset_take_drop_sub: "mset (take n xs) \<subseteq># mset xs" "mset (drop n xs) \<subseteq># mset xs"
  using arg_cong [OF append_take_drop_id [of n xs], of mset] unfolding mset_append
  by (metis mset_subset_eq_add_left, metis mset_subset_eq_add_right)

lemma mset_limit: "mset (limit o' xs) \<subseteq># mset xs"
  by (auto simp: limit_def Let_def intro: mset_take_drop_sub subset_mset.order_trans [OF mset_take_drop_sub(2) mset_take_drop_sub(1)])

lemma limit_rev: "limit o' xs = (if lo_Reverse o' then rev else id) (limit (o'\<lparr>lo_Reverse := False\<rparr>) xs)"
  by (auto simp: limit_def Let_def)

lemma sorted_limit: "sorted_wrt R xs \<Longrightarrow> sorted_wrt R (limit (o'\<lparr>lo_Reverse := False\<rparr>) xs)"
  by (simp add: limit_def Let_def sorted_wrt_take sorted_wrt_drop)

lemma length_limit: "0 < lo_First o' \<Longrightarrow> int (length (limit o' xs)) \<le> lo_First o'" "0 < lo_Last o' \<Longrightarrow> int (length (limit o' xs)) \<le> lo_Last o'"
  by (auto simp: limit_def Let_def)

lemma keys_le_Nil: "sorted_wrt (keys_le []) xs"
  by (induction xs) auto


text \<open>C38. Looking up an archive by name fails only when no readable archive has the name, and otherwise
  returns one of the newest that have it.\<close>

theorem by_name_newest:
  "\<exists>r. archive_ByName cn infos name = Inr r
    \<and> (case r of
         None \<Rightarrow> \<forall>i\<in>set infos. \<not> (i_Exists i \<and> i_Name i = name)
       | Some i \<Rightarrow> i \<in> set infos \<and> i_Exists i \<and> i_Name i = name \<and> (\<forall>j\<in>set infos. i_Exists j \<and> i_Name j = name \<longrightarrow> i_Time j \<le> i_Time i))"
proof -
  define fs where "fs = filter (\<lambda>i. i_Exists i \<and> i_Name i = name) (sort_key i_Time infos)"
  have r: "archive_ByName cn infos name = Inr (if fs = [] then None else Some (last fs))"
    by (simp add: archive_ByName_def List_zero foldl_last_match fs_def)
  have set_fs: "set fs = {i \<in> set infos. i_Exists i \<and> i_Name i = name}" by (simp add: fs_def)
  have sorted: "sorted (map i_Time fs)" unfolding fs_def by (rule sorted_filter) simp
  show ?thesis
  proof (cases "fs = []")
    case True
    then show ?thesis using r set_fs by auto
  next
    case False
    have "i_Time j \<le> i_Time (last fs)" if "j \<in> set fs" for j
    proof -
      have "sorted (map i_Time (butlast fs @ [last fs]))" using sorted False by simp
      moreover have "j \<in> set (butlast fs @ [last fs])" using that False by simp
      ultimately show ?thesis by (auto simp: sorted_append)
    qed
    moreover have "last fs \<in> set fs" using False by simp
    ultimately show ?thesis using r False set_fs by auto
  qed
qed

definition named_info :: "string \<Rightarrow> instant \<Rightarrow> info" where
  "named_info n t = \<lparr>i_ID = replicate 32 (word_of_int t), i_Name = n, i_Time = t, i_TimeString = [], i_Start = t, i_End = t, i_Host = [], i_User = [],
     i_Tags = [], i_Comment = [], i_Size = 0, i_NFiles = 0, i_Exists = True, i_Problem = []\<rparr>"


theorem by_name_newest_witness:
  "\<exists>i. archive_ByName (\<lambda>_. None) [named_info ''b'' 8, named_info ''a'' 9, named_info ''a'' 7] ''a'' = Inr (Some i) \<and> i_Name i = ''a'' \<and> 9 \<le> i_Time i"
  using by_name_newest [of "\<lambda>_. None" "[named_info ''b'' 8, named_info ''a'' 9, named_info ''a'' 7]" "''a''"]
  by (auto simp: named_info_def split: option.splits)

end
