(* ===== verification/Prune.thy ===== *)
theory Prune
  imports Archive_List "HOL-Library.AList"
begin

text \<open>
  Pruning, \<^verbatim>\<open>src/internal/manifest/prune.go\<close>: the retention rules, the grouping of archives into
  calendar periods of the local time zone, and the decision for every archive. The zone is a
  parameter, the offset from UTC at an instant in nanoseconds.
\<close>

section \<open>Rules and settings\<close>

definition ProtectedTag :: string where "ProtectedTag = ''@PROT''"

datatype rule_kind = RuleKeep | RuleSecondly | RuleMinutely | RuleHourly | RuleDaily | RuleWeekly | RuleMonthly
  | RuleQuarterly13Weekly | RuleQuarterly3Monthly | RuleYearly | RuleFrom

fun rule_name :: "rule_kind \<Rightarrow> string" where
  "rule_name RuleKeep = ''keep''"
| "rule_name RuleSecondly = ''secondly''"
| "rule_name RuleMinutely = ''minutely''"
| "rule_name RuleHourly = ''hourly''"
| "rule_name RuleDaily = ''daily''"
| "rule_name RuleWeekly = ''weekly''"
| "rule_name RuleMonthly = ''monthly''"
| "rule_name RuleQuarterly13Weekly = ''quarterly_13weekly''"
| "rule_name RuleQuarterly3Monthly = ''quarterly_3monthly''"
| "rule_name RuleYearly = ''yearly''"
| "rule_name RuleFrom = ''skip''"

definition RuleOrder :: "rule_kind list" where
  "RuleOrder = [RuleKeep, RuleSecondly, RuleMinutely, RuleHourly, RuleDaily, RuleWeekly, RuleMonthly, RuleQuarterly13Weekly, RuleQuarterly3Monthly, RuleYearly]"

record keep_value =
  kv_count :: int
  kv_interval :: int
  kv_isInterval :: bool

definition KeepCount :: "int \<Rightarrow> keep_value" where
  "KeepCount n = \<lparr>kv_count = n, kv_interval = 0, kv_isInterval = False\<rparr>"

definition KeepInterval :: "int \<Rightarrow> keep_value" where
  "KeepInterval d = \<lparr>kv_count = 0, kv_interval = d, kv_isInterval = True\<rparr>"

definition kv_IsAll :: "keep_value \<Rightarrow> bool" where
  "kv_IsAll v \<longleftrightarrow> \<not> kv_isInterval v \<and> kv_count v = - 1"

definition kv_IsZero :: "keep_value \<Rightarrow> bool" where
  "kv_IsZero v \<longleftrightarrow> (if kv_isInterval v then kv_interval v = 0 else kv_count v = 0)"

text \<open>A number padded with zeros to a width, as \<open>time.Format\<close> and the verbs \<open>%02d\<close> and \<open>%09d\<close> do for
  numbers that are not negative.\<close>

definition padInt :: "nat \<Rightarrow> int \<Rightarrow> string" where
  "padInt w i = (let ds = nat_str (nat \<bar>i\<bar>) in (if i < 0 then ''-'' else '''') @ replicate (w - length ds) CHR ''0'' @ ds)"

definition pythonTimedelta :: "int \<Rightarrow> string" where
  "pythonTimedelta d =
     (let days = quot d day_ns; rest = d - days * day_ns; h = quot rest hour_ns; m = quot (rem rest hour_ns) minute_ns; sec = quot (rem rest minute_ns) second_ns;
          hms = Itoa h @ '':'' @ padInt 2 m @ '':'' @ padInt 2 sec in
      if days = 0 then hms else if days = 1 then ''1 day, '' @ hms else Itoa days @ '' days, '' @ hms)"

definition kv_String :: "keep_value \<Rightarrow> string" where
  "kv_String v = (if kv_isInterval v then pythonTimedelta (kv_interval v) else Itoa (kv_count v))"

section \<open>Periods\<close>

definition fmt_month :: "civil \<Rightarrow> string" where
  "fmt_month c = padInt 4 (c_year c) @ ''-'' @ padInt 2 (c_month c)"

definition fmt_date :: "civil \<Rightarrow> string" where
  "fmt_date c = fmt_month c @ ''-'' @ padInt 2 (c_day c)"

fun periodOf :: "zone \<Rightarrow> rule_kind \<Rightarrow> instant \<Rightarrow> nat \<Rightarrow> string" where
  "periodOf z RuleKeep t seq = padInt 9 (int seq)"
| "periodOf z RuleSecondly t seq = (let c = civil_of (t + z t) in fmt_date c @ '' '' @ padInt 2 (c_hour c) @ '':'' @ padInt 2 (c_minute c) @ '':'' @ padInt 2 (c_second c))"
| "periodOf z RuleMinutely t seq = (let c = civil_of (t + z t) in fmt_date c @ '' '' @ padInt 2 (c_hour c) @ '':'' @ padInt 2 (c_minute c))"
| "periodOf z RuleHourly t seq = (let c = civil_of (t + z t) in fmt_date c @ '' '' @ padInt 2 (c_hour c))"
| "periodOf z RuleDaily t seq = fmt_date (civil_of (t + z t))"
| "periodOf z RuleWeekly t seq = (case ISOWeek (t + z t) of (y, w) \<Rightarrow> padInt 4 y @ ''-'' @ padInt 2 w)"
| "periodOf z RuleMonthly t seq = fmt_month (civil_of (t + z t))"
| "periodOf z RuleQuarterly13Weekly t seq =
     (case ISOWeek (t + z t) of (y, w) \<Rightarrow>
        (let q = quot (w - 1) 13; q1 = (if q < 0 then 0 else q); q2 = (if q1 > 3 then 3 else q1) in Itoa y @ ''-'' @ padInt 2 q2))"
| "periodOf z RuleQuarterly3Monthly t seq = (let c = civil_of (t + z t) in Itoa (c_year c) @ ''-'' @ padInt 2 (quot (c_month c - 1) 3))"
| "periodOf z RuleYearly t seq = padInt 4 (c_year (civil_of (t + z t)))"
| "periodOf z RuleFrom t seq = []"

section \<open>Policies and decisions\<close>

record prune_policy =
  pp_Keep :: "rule_kind \<rightharpoonup> keep_value"
  pp_From :: instant
  pp_Now :: instant

definition policy_Empty :: "prune_policy \<Rightarrow> bool" where
  "policy_Empty p \<longleftrightarrow> list_all (\<lambda>k. pp_Keep p k = None) (RuleFrom # RuleOrder)"

definition policy_AllZero :: "prune_policy \<Rightarrow> bool" where
  "policy_AllZero p \<longleftrightarrow> list_all (\<lambda>k. case pp_Keep p k of None \<Rightarrow> True | Some v \<Rightarrow> kv_IsZero v) (RuleFrom # RuleOrder)"

definition Active :: "prune_policy \<Rightarrow> rule_kind list" where
  "Active p = filter (\<lambda>k. pp_Keep p k \<noteq> None) RuleOrder"

record keptBy =
  kb_rule :: rule_kind
  kb_index :: nat
  kb_oldest :: bool

type_synonym keep_map = "(bytes \<times> keptBy) list"

definition describeKept :: "keptBy \<Rightarrow> string" where
  "describeKept b = (if kb_rule b = RuleFrom then ''held back by --from''
     else rule_name (kb_rule b) @ (if kb_oldest b then ''[oldest]'' else '''') @ ''['' @ nat_str (kb_index b) @ '']'')"

record decision =
  d_Info :: info
  d_Keep :: bool
  d_Reason :: string
  d_Rule :: "rule_kind option"
  d_Index :: nat
  d_Oldest :: bool

definition hasProtectedTag :: "info \<Rightarrow> bool" where
  "hasProtectedTag i \<longleftrightarrow> list_ex (\<lambda>t. t = ProtectedTag) (i_Tags i)"

definition canRetain :: "keep_value \<Rightarrow> instant \<Rightarrow> nat \<Rightarrow> info \<Rightarrow> bool" where
  "canRetain v earliest mine i \<longleftrightarrow> (if kv_isInterval v then \<not> i_Time i < earliest else kv_IsAll v \<or> int mine < kv_count v)"

fun ruleLoop :: "zone \<Rightarrow> rule_kind \<Rightarrow> keep_value \<Rightarrow> instant \<Rightarrow> nat \<Rightarrow> string option \<Rightarrow> nat \<Rightarrow> info list \<Rightarrow> keep_map \<Rightarrow> keep_map \<times> nat" where
  "ruleLoop z kind v earliest seq prev mine [] keep = (keep, mine)"
| "ruleLoop z kind v earliest seq prev mine (i # is) keep =
     (if \<not> canRetain v earliest mine i then (keep, mine)
      else let period = periodOf z kind (i_Time i) seq in
        if prev = Some period then ruleLoop z kind v earliest (Suc seq) prev mine is keep
        else if map_of keep (i_ID i) \<noteq> None then ruleLoop z kind v earliest (Suc seq) (Some period) mine is keep
        else ruleLoop z kind v earliest (Suc seq) (Some period) (Suc mine) is (AList.update (i_ID i) \<lparr>kb_rule = kind, kb_index = mine, kb_oldest = False\<rparr> keep))"

definition applyRule :: "zone \<Rightarrow> rule_kind \<Rightarrow> keep_value \<Rightarrow> info list \<Rightarrow> instant \<Rightarrow> bool \<Rightarrow> keep_map \<Rightarrow> keep_map" where
  "applyRule z kind v candidates base keepOldest keep =
     (if candidates = [] \<or> kv_IsZero v then keep
      else let earliest = (if kv_isInterval v then base - kv_interval v else zeroTime) in
        case ruleLoop z kind v earliest 0 None 0 candidates keep of (keep1, mine) \<Rightarrow>
        if \<not> keepOldest then keep1
        else let oldest = last candidates in
          if map_of keep1 (i_ID oldest) \<noteq> None then keep1
          else if \<not> canRetain v earliest mine oldest then keep1
          else AList.update (i_ID oldest) \<lparr>kb_rule = kind, kb_index = mine, kb_oldest = True\<rparr> keep1)"

fun applyRules :: "zone \<Rightarrow> prune_policy \<Rightarrow> info list \<Rightarrow> instant \<Rightarrow> rule_kind list \<Rightarrow> keep_map \<Rightarrow> keep_map" where
  "applyRules z p candidates base [] keep = keep"
| "applyRules z p candidates base (kind # kinds) keep =
     applyRules z p candidates base kinds (applyRule z kind (the (pp_Keep p kind)) candidates base (kinds = []) keep)"

fun holdBack :: "instant \<Rightarrow> info list \<Rightarrow> keep_map \<Rightarrow> keep_map \<times> info list" where
  "holdBack frm [] keep = (keep, [])"
| "holdBack frm (i # is) keep =
     (if i_Time i < frm then (keep, i # is)
      else holdBack frm is (AList.update (i_ID i) \<lparr>kb_rule = RuleFrom, kb_index = length keep, kb_oldest = False\<rparr> keep))"

definition decide :: "keep_map \<Rightarrow> info \<Rightarrow> decision" where
  "decide keep i =
     (case map_of keep (i_ID i) of
        None \<Rightarrow> \<lparr>d_Info = i, d_Keep = False, d_Reason = ''no rule keeps it'', d_Rule = None, d_Index = 0, d_Oldest = False\<rparr>
      | Some b \<Rightarrow> \<lparr>d_Info = i, d_Keep = True, d_Reason = describeKept b, d_Rule = Some (kb_rule b), d_Index = kb_index b, d_Oldest = kb_oldest b\<rparr>)"

definition newest_first :: "info list \<Rightarrow> info list" where
  "newest_first archives = sort_key (\<lambda>i. - i_Time i) (filter (\<lambda>i. \<not> hasProtectedTag i) archives)"

definition Prune :: "zone \<Rightarrow> instant \<Rightarrow> info list \<Rightarrow> prune_policy \<Rightarrow> decision list" where
  "Prune z now archives p =
     (let sorted = newest_first archives;
          base = (if time_IsZero (pp_Now p) then now else pp_Now p) in
      case (if \<not> time_IsZero (pp_From p) then holdBack (pp_From p) sorted [] else ([], sorted)) of (keep, candidates) \<Rightarrow>
      let base = (if \<not> time_IsZero (pp_From p) then pp_From p else base);
          keep = applyRules z p candidates base (Active p) keep in
      map (decide keep) sorted)"

section \<open>One rule\<close>

text \<open>The newest archive of each run of archives with the same period.\<close>

fun run_heads :: "(info \<Rightarrow> nat \<Rightarrow> string) \<Rightarrow> nat \<Rightarrow> string option \<Rightarrow> info list \<Rightarrow> info list" where
  "run_heads per seq prev [] = []"
| "run_heads per seq prev (i # is) =
     (if prev = Some (per i seq) then run_heads per (Suc seq) prev is else i # run_heads per (Suc seq) (Some (per i seq)) is)"

fun record_kept :: "rule_kind \<Rightarrow> nat \<Rightarrow> info list \<Rightarrow> keep_map \<Rightarrow> keep_map" where
  "record_kept kind mine [] keep = keep"
| "record_kept kind mine (i # is) keep = record_kept kind (Suc mine) is (AList.update (i_ID i) \<lparr>kb_rule = kind, kb_index = mine, kb_oldest = False\<rparr> keep)"

definition quota :: "keep_value \<Rightarrow> nat \<Rightarrow> info list \<Rightarrow> info list" where
  "quota v mine xs = (if kv_isInterval v \<or> kv_IsAll v then xs else take (nat (kv_count v) - mine) xs)"

definition within :: "keep_value \<Rightarrow> instant \<Rightarrow> info list \<Rightarrow> info list" where
  "within v earliest xs = (if kv_isInterval v then takeWhile (\<lambda>i. earliest \<le> i_Time i) xs else xs)"

definition fresh :: "keep_map \<Rightarrow> info list \<Rightarrow> info list" where
  "fresh keep xs = filter (\<lambda>i. map_of keep (i_ID i) = None) xs"

lemma fresh_update: "i_ID i \<notin> i_ID ` set xs \<Longrightarrow> fresh (AList.update (i_ID i) b keep) xs = fresh keep xs"
  by (force simp: fresh_def update_conv' intro!: filter_cong)

lemma set_run_heads: "set (run_heads per seq prev xs) \<subseteq> set xs"
  by (induction per seq prev xs rule: run_heads.induct) auto

lemma set_within: "set (within v e xs) \<subseteq> set xs"
  by (auto simp: within_def dest: set_takeWhileD)

lemma ruleLoop_spec:
  assumes "distinct (map i_ID xs)"
  shows "ruleLoop z kind v earliest seq prev mine xs keep =
    (let sel = quota v mine (fresh keep (run_heads (\<lambda>i. periodOf z kind (i_Time i)) seq prev (within v earliest xs))) in
     (record_kept kind mine sel keep, mine + length sel))"
  using assms
proof (induction z kind v earliest seq prev mine xs keep rule: ruleLoop.induct)
  case (2 z kind v earliest seq prev mine i "is" keep)
  let ?per = "\<lambda>i. periodOf z kind (i_Time i)"
  show ?case
  proof (cases "canRetain v earliest mine i")
    case False
    then show ?thesis by (auto simp: canRetain_def quota_def within_def fresh_def Let_def split: if_splits)
  next
    case True
    then have w: "within v earliest (i # is) = i # within v earliest is" by (auto simp: canRetain_def within_def)
    have d: "distinct (map i_ID is)" "i_ID i \<notin> i_ID ` set is" using 2(4) by auto
    consider "prev = Some (?per i seq)" | "prev \<noteq> Some (?per i seq)" "map_of keep (i_ID i) \<noteq> None" | "prev \<noteq> Some (?per i seq)" "map_of keep (i_ID i) = None" by blast
    then show ?thesis
    proof cases
      case 1
      then show ?thesis using 2(1) [OF _ refl 1 d(1)] True w by simp
    next
      case 2
      then show ?thesis using "2.IH"(2) [OF _ refl 2(1) 2(2) d(1)] True w by (auto simp: fresh_def)
    next
      case 3
      let ?hs = "run_heads ?per (Suc seq) (Some (?per i seq)) (within v earliest is)"
      have "i_ID i \<notin> i_ID ` set ?hs" using d(2) set_run_heads [of ?per "Suc seq" "Some (?per i seq)" "within v earliest is"]
          set_within [of v earliest "is"] by blast
      then have f: "fresh (AList.update (i_ID i) b keep) ?hs = fresh keep ?hs" for b by (rule fresh_update)
      have q: "quota v mine (i # xs) = i # quota v (Suc mine) xs" for xs
      proof (cases "kv_isInterval v \<or> kv_IsAll v")
        case False
        then have "nat (kv_count v) - mine = Suc (nat (kv_count v) - Suc mine)" using True by (auto simp: canRetain_def)
        then show ?thesis using False by (simp add: quota_def)
      qed (simp add: quota_def)
      have h: "fresh keep (run_heads ?per seq prev (within v earliest (i # is))) = i # fresh keep ?hs" using 3 w by (simp add: fresh_def)
      show ?thesis using "2.IH"(3) [OF _ refl 3(1) _ d(1)] True 3 by (simp add: h q f Let_def)
    qed
  qed
qed (simp add: quota_def fresh_def within_def)

section \<open>The decisions\<close>

text \<open>What a rule adds to the map: entries of its own, within its quota, for candidates that had none.\<close>

definition adds :: "rule_kind \<Rightarrow> info list \<Rightarrow> keep_map \<Rightarrow> keep_map \<Rightarrow> bytes set \<Rightarrow> bool" where
  "adds kind candidates keep keep' A \<longleftrightarrow> finite A \<and> A \<subseteq> i_ID ` set candidates \<and> A \<inter> dom (map_of keep) = {} \<and> dom (map_of keep') = dom (map_of keep) \<union> A
     \<and> (\<forall>k\<in>dom (map_of keep). map_of keep' k = map_of keep k) \<and> (\<forall>k\<in>A. kb_rule (the (map_of keep' k)) = kind)"

lemma adds_refl: "adds kind c keep keep {}"
  by (simp add: adds_def)

lemma adds_update:
  assumes "map_of keep (i_ID i) = None" "i \<in> set c" "kb_rule b = kind"
  shows "adds kind c keep (AList.update (i_ID i) b keep) {i_ID i}"
  using assms by (auto simp: adds_def update_conv' dom_def)

lemma adds_trans: "adds kind c k1 k2 A \<Longrightarrow> adds kind c k2 k3 B \<Longrightarrow> adds kind c k1 k3 (A \<union> B)"
  unfolding adds_def by (intro conjI ballI) (auto simp: Un_iff)

lemma record_kept_adds:
  "distinct (map i_ID xs) \<Longrightarrow> set xs \<subseteq> set c \<Longrightarrow> \<forall>i\<in>set xs. map_of keep (i_ID i) = None \<Longrightarrow> adds kind c keep (record_kept kind mine xs keep) (i_ID ` set xs)"
proof (induction kind mine xs keep rule: record_kept.induct)
  case (2 kind mine i "is" keep)
  let ?b = "\<lparr>kb_rule = kind, kb_index = mine, kb_oldest = False\<rparr>"
  have "adds kind c keep (AList.update (i_ID i) ?b keep) {i_ID i}" using 2 by (intro adds_update) auto
  moreover have "map_of (AList.update (i_ID i) ?b keep) (i_ID j) = None" if "j \<in> set is" for j
  proof -
    have "i_ID j \<noteq> i_ID i" using 2(2) that by (metis distinct.simps(2) image_eqI list.simps(9) set_map)
    then show ?thesis using 2(4) that by (simp add: update_conv')
  qed
  then have "adds kind c (AList.update (i_ID i) ?b keep) (record_kept kind (Suc mine) is (AList.update (i_ID i) ?b keep)) (i_ID ` set is)" using 2 by auto
  ultimately have "adds kind c keep (record_kept kind (Suc mine) is (AList.update (i_ID i) ?b keep)) ({i_ID i} \<union> i_ID ` set is)" by (rule adds_trans)
  then show ?case by simp
qed (simp add: adds_refl)

lemma run_heads_distinct: "distinct (map i_ID xs) \<Longrightarrow> distinct (map i_ID (run_heads per seq prev xs))"
proof (induction per seq prev xs rule: run_heads.induct)
  case (2 per seq prev i "is")
  have "i_ID i \<notin> i_ID ` set (run_heads per (Suc seq) (Some (per i seq)) is)" using 2(3) set_run_heads by fastforce
  then show ?case using 2 by auto
qed simp

definition selected :: "zone \<Rightarrow> rule_kind \<Rightarrow> keep_value \<Rightarrow> instant \<Rightarrow> keep_map \<Rightarrow> info list \<Rightarrow> info list" where
  "selected z kind v earliest keep candidates = quota v 0 (fresh keep (run_heads (\<lambda>i. periodOf z kind (i_Time i)) 0 None (within v earliest candidates)))"

lemma set_selected: "set (selected z kind v e keep c) \<subseteq> set c"
  using set_run_heads [of "\<lambda>i. periodOf z kind (i_Time i)" 0 None "within v e c"]
  by (auto simp: selected_def quota_def fresh_def within_def split: if_splits dest!: in_set_takeD set_takeWhileD)

lemma selected_distinct: "distinct (map i_ID c) \<Longrightarrow> distinct (map i_ID (selected z kind v e keep c))"
proof -
  assume d: "distinct (map i_ID c)"
  then have "distinct (map i_ID (within v e c))" by (simp add: within_def distinct_map inj_on_def) (meson set_takeWhileD)
  then have "distinct (map i_ID (run_heads (\<lambda>i. periodOf z kind (i_Time i)) 0 None (within v e c)))" by (rule run_heads_distinct)
  then show ?thesis by (auto simp: selected_def quota_def fresh_def distinct_map_filter take_map [symmetric] distinct_take)
qed

lemma selected_fresh: "i \<in> set (selected z kind v e keep c) \<Longrightarrow> map_of keep (i_ID i) = None"
  by (auto simp: selected_def quota_def fresh_def split: if_splits dest: in_set_takeD)

lemma selected_bound: "\<not> kv_isInterval v \<Longrightarrow> \<not> kv_IsAll v \<Longrightarrow> length (selected z kind v e keep c) \<le> nat (kv_count v)"
  by (simp add: selected_def quota_def)

lemma applyRule_adds:
  assumes d: "distinct (map i_ID c)"
  shows "\<exists>A. adds kind c keep (applyRule z kind v c base lst keep) A
    \<and> (\<not> kv_isInterval v \<and> \<not> kv_IsAll v \<longrightarrow> card A \<le> nat (kv_count v))
    \<and> (\<not> kv_IsZero v \<longrightarrow> i_ID ` set (selected z kind v (if kv_isInterval v then base - kv_interval v else zeroTime) keep c) \<subseteq> A)"
proof (cases "c = [] \<or> kv_IsZero v")
  case True
  then have "applyRule z kind v c base lst keep = keep" by (simp add: applyRule_def)
  moreover have "c = [] \<Longrightarrow> selected z kind v e keep c = []" for e using set_selected [of z kind v e keep c] by simp
  ultimately show ?thesis using True adds_refl by (intro exI [of _ "{}"]) auto
next
  case False
  define e where "e = (if kv_isInterval v then base - kv_interval v else zeroTime)"
  let ?sel = "selected z kind v e keep c" and ?k1 = "record_kept kind 0 (selected z kind v e keep c) keep"
  have loop: "ruleLoop z kind v e 0 None 0 c keep = (?k1, length ?sel)" using ruleLoop_spec [OF d] by (simp add: selected_def Let_def)
  have a: "adds kind c keep ?k1 (i_ID ` set ?sel)" using selected_distinct [OF d] set_selected selected_fresh by (intro record_kept_adds) blast+
  have card: "card (i_ID ` set ?sel) \<le> length ?sel" by (meson card_image_le card_length finite_set order_trans)
  let ?o = "last c" and ?b = "\<lparr>kb_rule = kind, kb_index = length ?sel, kb_oldest = True\<rparr>"
  show ?thesis
  proof (cases "lst \<and> map_of ?k1 (i_ID ?o) = None \<and> canRetain v e (length ?sel) ?o")
    case True
    have "applyRule z kind v c base lst keep = AList.update (i_ID ?o) ?b ?k1" using False True loop by (simp add: applyRule_def e_def [symmetric] Let_def)
    moreover have "adds kind c keep (AList.update (i_ID ?o) ?b ?k1) (i_ID ` set ?sel \<union> {i_ID ?o})"
      by (rule adds_trans [OF a]) (use True False in \<open>intro adds_update, auto\<close>)
    moreover have "\<not> kv_isInterval v \<and> \<not> kv_IsAll v \<longrightarrow> card (i_ID ` set ?sel \<union> {i_ID ?o}) \<le> nat (kv_count v)"
      using True card card_Un_le [of "i_ID ` set ?sel" "{i_ID ?o}"] by (auto simp: canRetain_def)
    ultimately show ?thesis unfolding e_def [symmetric] by (intro exI [of _ "i_ID ` set ?sel \<union> {i_ID ?o}"]) auto
  next
    case f: False
    then have "applyRule z kind v c base lst keep = ?k1" using False loop by (auto simp: applyRule_def e_def [symmetric] Let_def)
    then show ?thesis using a card selected_bound [of v z kind e keep c] unfolding e_def [symmetric] by (intro exI [of _ "i_ID ` set ?sel"]) auto
  qed
qed

definition entries_of :: "keep_map \<Rightarrow> rule_kind \<Rightarrow> bytes set" where
  "entries_of keep kind = {k. \<exists>b. map_of keep k = Some b \<and> kb_rule b = kind}"

lemma finite_entries_of: "finite (entries_of keep kind)"
  by (rule finite_subset [OF _ finite_dom_map_of [of keep]]) (auto simp: entries_of_def)

lemma adds_entries:
  assumes "adds kind c keep keep' A"
  shows "entries_of keep' k = (if k = kind then entries_of keep k \<union> A else entries_of keep k)"
proof -
  have d: "dom (map_of keep') = dom (map_of keep) \<union> A" "\<And>i. i \<in> dom (map_of keep) \<Longrightarrow> map_of keep' i = map_of keep i" "\<And>i. i \<in> A \<Longrightarrow> kb_rule (the (map_of keep' i)) = kind"
    using assms by (auto simp: adds_def)
  have e: "i \<in> entries_of m k \<longleftrightarrow> i \<in> dom (map_of m) \<and> kb_rule (the (map_of m i)) = k" for i m by (auto simp: entries_of_def)
  have disj: "A \<inter> dom (map_of keep) = {}" using assms by (simp add: adds_def)
  have "i \<in> entries_of keep' k \<longleftrightarrow> i \<in> (if k = kind then entries_of keep k \<union> A else entries_of keep k)" for i
  proof -
    have u: "i \<in> (if k = kind then entries_of keep k \<union> A else entries_of keep k) \<longleftrightarrow> i \<in> entries_of keep k \<or> (k = kind \<and> i \<in> A)" by simp
    consider "i \<in> A" "i \<notin> dom (map_of keep)" | "i \<notin> A" "i \<in> dom (map_of keep)" | "i \<notin> A" "i \<notin> dom (map_of keep)" using disj by blast
    then show ?thesis unfolding u e d(1) using d(2) [of i] d(3) [of i] by cases (simp_all, blast)
  qed
  then show ?thesis by blast
qed

lemma head_selected:
  assumes "c \<noteq> []" "\<not> kv_isInterval v" "kv_IsAll v \<or> 0 < kv_count v" "map_of keep (i_ID (hd c)) = None"
  shows "hd c \<in> set (selected z kind v e keep c)"
  using assms by (cases c; cases "nat (kv_count v)") (auto simp: selected_def within_def fresh_def quota_def)

lemma applyRules_correct:
  fixes z :: zone and base :: instant
  assumes "distinct (map i_ID c)" "distinct kinds" "\<forall>k\<in>set kinds. entries_of keep k = {}" "\<forall>k\<in>set kinds. pp_Keep p k \<noteq> None"
  defines "keep' \<equiv> applyRules z p c base kinds keep"
  shows "dom (map_of keep) \<subseteq> dom (map_of keep') \<and> (\<forall>i\<in>dom (map_of keep). map_of keep' i = map_of keep i)
    \<and> (\<forall>k v. k \<in> set kinds \<and> pp_Keep p k = Some v \<and> \<not> kv_isInterval v \<and> \<not> kv_IsAll v \<longrightarrow> card (entries_of keep' k) \<le> nat (kv_count v))
    \<and> (\<forall>k v. k \<in> set kinds \<and> pp_Keep p k = Some v \<and> \<not> kv_isInterval v \<and> (kv_IsAll v \<or> 0 < kv_count v) \<and> c \<noteq> [] \<longrightarrow> i_ID (hd c) \<in> dom (map_of keep'))
    \<and> (\<forall>k. k \<notin> set kinds \<longrightarrow> entries_of keep' k = entries_of keep k)"
  using assms(2,3,4) unfolding keep'_def
proof (induction kinds arbitrary: keep)
  case (Cons k ks)
  obtain v where v: "pp_Keep p k = Some v" using Cons.prems(3) by auto
  define k1 where "k1 = applyRule z k v c base (ks = []) keep"
  obtain A where a: "adds k c keep k1 A" "\<not> kv_isInterval v \<and> \<not> kv_IsAll v \<longrightarrow> card A \<le> nat (kv_count v)"
    and sel: "\<not> kv_IsZero v \<longrightarrow> i_ID ` set (selected z k v (if kv_isInterval v then base - kv_interval v else zeroTime) keep c) \<subseteq> A"
    using applyRule_adds [OF assms(1)] unfolding k1_def by blast
  note e = adds_entries [OF a(1)]
  have dm: "dom (map_of k1) = dom (map_of keep) \<union> A" "\<forall>i\<in>dom (map_of keep). map_of k1 i = map_of keep i" using a(1) by (auto simp: adds_def)
  have "\<forall>k'\<in>set ks. entries_of k1 k' = {}" using Cons.prems(1,2) by (auto simp: e)
  with Cons.IH [of k1] Cons.prems have ih: "dom (map_of k1) \<subseteq> dom (map_of (applyRules z p c base ks k1))"
      "\<forall>i\<in>dom (map_of k1). map_of (applyRules z p c base ks k1) i = map_of k1 i"
      "\<forall>k v. k \<in> set ks \<and> pp_Keep p k = Some v \<and> \<not> kv_isInterval v \<and> \<not> kv_IsAll v \<longrightarrow> card (entries_of (applyRules z p c base ks k1) k) \<le> nat (kv_count v)"
      "\<forall>k v. k \<in> set ks \<and> pp_Keep p k = Some v \<and> \<not> kv_isInterval v \<and> (kv_IsAll v \<or> 0 < kv_count v) \<and> c \<noteq> [] \<longrightarrow> i_ID (hd c) \<in> dom (map_of (applyRules z p c base ks k1))"
      "\<forall>k. k \<notin> set ks \<longrightarrow> entries_of (applyRules z p c base ks k1) k = entries_of k1 k" by auto
  have run: "applyRules z p c base (k # ks) keep = applyRules z p c base ks k1" by (simp add: k1_def v)
  have mine: "entries_of (applyRules z p c base ks k1) k = A" using ih(5) Cons.prems(1,2) by (simp add: e)
  have head: "i_ID (hd c) \<in> dom (map_of k1)" if h: "\<not> kv_isInterval v" "kv_IsAll v \<or> 0 < kv_count v" "c \<noteq> []"
  proof (cases "i_ID (hd c) \<in> dom (map_of keep)")
    case True
    then show ?thesis by (simp add: dm)
  next
    case False
    then have "map_of keep (i_ID (hd c)) = None" by blast
    then have "hd c \<in> set (selected z k v zeroTime keep c)" by (rule head_selected [OF h(3,1,2)])
    moreover have "\<not> kv_IsZero v" using h by (auto simp: kv_IsZero_def kv_IsAll_def)
    ultimately show ?thesis using sel h(1) dm(1) by auto
  qed
  show ?case unfolding run
  proof (intro conjI allI impI)
    show "dom (map_of keep) \<subseteq> dom (map_of (applyRules z p c base ks k1))" using dm(1) ih(1) by blast
    show "\<forall>i\<in>dom (map_of keep). map_of (applyRules z p c base ks k1) i = map_of keep i" using dm ih(2) by (metis UnI1)
    show "card (entries_of (applyRules z p c base ks k1) k') \<le> nat (kv_count v')"
      if "k' \<in> set (k # ks) \<and> pp_Keep p k' = Some v' \<and> \<not> kv_isInterval v' \<and> \<not> kv_IsAll v'" for k' v'
      using that mine a(2) v ih(3) by (cases "k' = k") auto
    show "i_ID (hd c) \<in> dom (map_of (applyRules z p c base ks k1))"
      if "k' \<in> set (k # ks) \<and> pp_Keep p k' = Some v' \<and> \<not> kv_isInterval v' \<and> (kv_IsAll v' \<or> 0 < kv_count v') \<and> c \<noteq> []" for k' v'
      using that head v ih(1,4) by (cases "k' = k") auto
    show "entries_of (applyRules z p c base ks k1) k' = entries_of keep k'" if "k' \<notin> set (k # ks)" for k'
      using that ih(5) by (simp add: e)
  qed
qed simp

lemma holdBack_spec:
  "distinct (map i_ID xs) \<Longrightarrow> \<forall>i\<in>set xs. map_of keep (i_ID i) = None \<Longrightarrow> set xs \<subseteq> set c \<Longrightarrow>
    snd (holdBack frm xs keep) = dropWhile (\<lambda>i. frm \<le> i_Time i) xs
    \<and> adds RuleFrom c keep (fst (holdBack frm xs keep)) (i_ID ` set (takeWhile (\<lambda>i. frm \<le> i_Time i) xs))"
proof (induction frm xs keep rule: holdBack.induct)
  case (2 frm i "is" keep)
  show ?case
  proof (cases "i_Time i < frm")
    case True
    then show ?thesis by (simp add: adds_refl)
  next
    case False
    let ?b = "\<lparr>kb_rule = RuleFrom, kb_index = length keep, kb_oldest = False\<rparr>"
    let ?k = "AList.update (i_ID i) ?b keep"
    have "\<forall>j\<in>set is. map_of ?k (i_ID j) = None"
    proof
      fix j
      assume j: "j \<in> set is"
      then have "i_ID j \<noteq> i_ID i" using 2(2) by (metis distinct.simps(2) image_eqI list.simps(9) set_map)
      then show "map_of ?k (i_ID j) = None" using 2(3) j by (simp add: update_conv')
    qed
    then have ih: "snd (holdBack frm is ?k) = dropWhile (\<lambda>i. frm \<le> i_Time i) is"
      "adds RuleFrom c ?k (fst (holdBack frm is ?k)) (i_ID ` set (takeWhile (\<lambda>i. frm \<le> i_Time i) is))" using 2(1) [OF False] 2(2,4) by auto
    have "adds RuleFrom c keep ?k {i_ID i}" using 2(3,4) by (intro adds_update) auto
    from adds_trans [OF this ih(2)] show ?thesis using False ih(1) by simp
  qed
qed (simp add: adds_refl)

lemma entries_of_Nil: "entries_of [] k = {}"
  by (simp add: entries_of_def)

lemma newest_first_props:
  "mset (newest_first archives) = mset (filter (\<lambda>i. \<not> hasProtectedTag i) archives)" "sorted_wrt (\<lambda>x y. i_Time y \<le> i_Time x) (newest_first archives)"
proof -
  show "mset (newest_first archives) = mset (filter (\<lambda>i. \<not> hasProtectedTag i) archives)" by (simp add: newest_first_def)
  have "sorted (map (\<lambda>i. - i_Time i) (newest_first archives))" by (simp add: newest_first_def)
  then show "sorted_wrt (\<lambda>x y. i_Time y \<le> i_Time x) (newest_first archives)" by (simp add: sorted_map)
qed

lemma decide_simps: "d_Info (decide keep i) = i" "d_Keep (decide keep i) \<longleftrightarrow> map_of keep (i_ID i) \<noteq> None" "d_Rule (decide keep i) = map_option kb_rule (map_of keep (i_ID i))"
  by (auto simp: decide_def split: option.split)

lemma RuleOrder_props: "distinct RuleOrder" "k \<in> set RuleOrder \<longleftrightarrow> k \<noteq> RuleFrom"
  by (simp add: RuleOrder_def) (cases k; simp add: RuleOrder_def)

lemma Active_props: "distinct (Active p)" "k \<in> set (Active p) \<Longrightarrow> pp_Keep p k \<noteq> None" "k \<in> set (Active p) \<Longrightarrow> k \<noteq> RuleFrom"
  "pp_Keep p k = Some v \<Longrightarrow> k \<noteq> RuleFrom \<Longrightarrow> k \<in> set (Active p)"
  by (simp_all add: Active_def RuleOrder_props)

lemma held_split:
  assumes "sorted_wrt (\<lambda>x y. i_Time y \<le> i_Time x) xs"
  shows "takeWhile (\<lambda>i. f \<le> i_Time i) xs = filter (\<lambda>i. f \<le> i_Time i) xs" "dropWhile (\<lambda>i. f \<le> i_Time i) xs = filter (\<lambda>i. i_Time i < f) xs"
proof -
  have "takeWhile (\<lambda>i. f \<le> i_Time i) xs = filter (\<lambda>i. f \<le> i_Time i) xs \<and> dropWhile (\<lambda>i. f \<le> i_Time i) xs = filter (\<lambda>i. i_Time i < f) xs"
    using assms
  proof (induction xs)
    case (Cons x xs)
    show ?case
    proof (cases "f \<le> i_Time x")
      case True
      then show ?thesis using Cons by simp
    next
      case False
      then have "\<forall>y\<in>set (x # xs). i_Time y < f" using Cons.prems by fastforce
      then have "filter (\<lambda>i. f \<le> i_Time i) (x # xs) = []" "filter (\<lambda>i. i_Time i < f) (x # xs) = x # xs" by (auto simp: filter_empty_conv filter_id_conv)
      then show ?thesis using False by simp
    qed
  qed simp
  then show "takeWhile (\<lambda>i. f \<le> i_Time i) xs = filter (\<lambda>i. f \<le> i_Time i) xs" "dropWhile (\<lambda>i. f \<le> i_Time i) xs = filter (\<lambda>i. i_Time i < f) xs" by auto
qed

text \<open>C34. Pruning decides every unprotected archive exactly once, newest first, and no protected one.
  Archives at or after \<open>--from\<close> are kept; a rule with a count keeps at most that many; and any
  rule with a positive count (or none at all) keeps the newest archive that is not held back.\<close>

theorem prune_decisions:
  assumes ids: "distinct (map i_ID archives)"
  shows "mset (map d_Info (Prune z now archives p)) = mset (filter (\<lambda>i. \<not> hasProtectedTag i) archives)
    \<and> sorted_wrt (\<lambda>x y. i_Time (d_Info y) \<le> i_Time (d_Info x)) (Prune z now archives p)
    \<and> (\<forall>d\<in>set (Prune z now archives p). \<not> time_IsZero (pp_From p) \<and> pp_From p \<le> i_Time (d_Info d) \<longrightarrow> d_Keep d \<and> d_Rule d = Some RuleFrom)
    \<and> (\<forall>k v. pp_Keep p k = Some v \<and> k \<noteq> RuleFrom \<and> \<not> kv_isInterval v \<and> \<not> kv_IsAll v
         \<longrightarrow> length (filter (\<lambda>d. d_Rule d = Some k) (Prune z now archives p)) \<le> nat (kv_count v))
    \<and> (\<forall>k v. pp_Keep p k = Some v \<and> k \<noteq> RuleFrom \<and> \<not> kv_isInterval v \<and> (kv_IsAll v \<or> 0 < kv_count v)
         \<and> filter (\<lambda>d. time_IsZero (pp_From p) \<or> i_Time (d_Info d) < pp_From p) (Prune z now archives p) \<noteq> []
         \<longrightarrow> d_Keep (hd (filter (\<lambda>d. time_IsZero (pp_From p) \<or> i_Time (d_Info d) < pp_From p) (Prune z now archives p))))"
proof -
  let ?fz = "time_IsZero (pp_From p)"
  define xs where "xs = newest_first archives"
  note nf = newest_first_props [of archives, folded xs_def]
  have "distinct (map i_ID (filter (\<lambda>i. \<not> hasProtectedTag i) archives))" using ids by (rule distinct_map_filter)
  then have dx: "distinct (map i_ID xs)" using nf(1) by (metis mset_eq_imp_distinct_iff mset_map)
  define hb where "hb = (if \<not> ?fz then holdBack (pp_From p) xs [] else ([], xs))"
  define A where "A = (if ?fz then {} else i_ID ` set (takeWhile (\<lambda>i. pp_From p \<le> i_Time i) xs))"
  have hb: "snd hb = (if ?fz then xs else dropWhile (\<lambda>i. pp_From p \<le> i_Time i) xs)" "adds RuleFrom xs [] (fst hb) A"
    using holdBack_spec [OF dx, of "[]" xs "pp_From p"] by (auto simp: hb_def A_def adds_refl)
  define base where "base = (if \<not> ?fz then pp_From p else if time_IsZero (pp_Now p) then now else pp_Now p)"
  define keep where "keep = applyRules z p (snd hb) base (Active p) (fst hb)"
  have run: "Prune z now archives p = map (decide keep) xs"
    by (simp add: Prune_def Let_def xs_def [symmetric] hb_def [symmetric] keep_def base_def split_beta)
  have dc: "distinct (map i_ID (snd hb))" using dx by (simp add: hb(1)) (metis distinct_append map_append takeWhile_dropWhile_id)
  have em: "\<forall>k\<in>set (Active p). entries_of (fst hb) k = {}" using adds_entries [OF hb(2)] Active_props(3) by (auto simp: entries_of_Nil)
  note r = applyRules_correct [OF dc Active_props(1) em, of p z base, folded keep_def]
  have r: "\<forall>i\<in>dom (map_of (fst hb)). map_of keep i = map_of (fst hb) i"
    "\<And>k v. pp_Keep p k = Some v \<Longrightarrow> k \<noteq> RuleFrom \<Longrightarrow> \<not> kv_isInterval v \<Longrightarrow> \<not> kv_IsAll v \<Longrightarrow> card (entries_of keep k) \<le> nat (kv_count v)"
    "\<And>k v. pp_Keep p k = Some v \<Longrightarrow> k \<noteq> RuleFrom \<Longrightarrow> \<not> kv_isInterval v \<Longrightarrow> kv_IsAll v \<or> 0 < kv_count v \<Longrightarrow> snd hb \<noteq> [] \<Longrightarrow> i_ID (hd (snd hb)) \<in> dom (map_of keep)"
    using r Active_props(2,4) by blast+
  have held: "d_Keep (decide keep i) \<and> d_Rule (decide keep i) = Some RuleFrom" if i: "i \<in> set xs" "\<not> ?fz" "pp_From p \<le> i_Time i" for i
  proof -
    have "takeWhile (\<lambda>i. pp_From p \<le> i_Time i) xs = filter (\<lambda>i. pp_From p \<le> i_Time i) xs"
      by (rule held_split [OF nf(2)])
    then have "i_ID i \<in> A" using i by (simp add: A_def)
    then have "i_ID i \<in> entries_of (fst hb) RuleFrom" using adds_entries [OF hb(2), of RuleFrom] by (simp add: entries_of_Nil)
    then obtain b where "map_of (fst hb) (i_ID i) = Some b" "kb_rule b = RuleFrom" by (auto simp: entries_of_def)
    then have "map_of keep (i_ID i) = Some b" "kb_rule b = RuleFrom" using r(1) by (auto simp: dom_def)
    then show ?thesis by (simp add: decide_simps)
  qed
  have count: "length (filter (\<lambda>d. d_Rule d = Some k) (map (decide keep) xs)) \<le> card (entries_of keep k)" for k
  proof -
    let ?f = "filter (\<lambda>i. d_Rule (decide keep i) = Some k) xs"
    have "length ?f = card (i_ID ` set ?f)" using dx by (metis distinct_card distinct_map_filter length_map set_map)
    also have "\<dots> \<le> card (entries_of keep k)" by (rule card_mono [OF finite_entries_of]) (auto simp: decide_simps entries_of_def)
    finally show ?thesis by (simp add: filter_map comp_def)
  qed
  have cand: "filter (\<lambda>d. ?fz \<or> i_Time (d_Info d) < pp_From p) (map (decide keep) xs) = map (decide keep) (snd hb)"
  proof -
    have "filter (\<lambda>i. i_Time i < pp_From p) xs = dropWhile (\<lambda>i. pp_From p \<le> i_Time i) xs"
      by (rule held_split(2) [OF nf(2), symmetric])
    then show ?thesis by (simp add: filter_map comp_def decide_simps hb(1))
  qed
  show ?thesis unfolding run cand
  proof (intro conjI allI impI ballI)
    show "mset (map d_Info (map (decide keep) xs)) = mset (filter (\<lambda>i. \<not> hasProtectedTag i) archives)" using nf(1) by (simp add: comp_def decide_simps)
    show "sorted_wrt (\<lambda>x y. i_Time (d_Info y) \<le> i_Time (d_Info x)) (map (decide keep) xs)" using nf(2) by (simp add: sorted_wrt_map decide_simps)
    show "d_Keep d" "d_Rule d = Some RuleFrom" if "d \<in> set (map (decide keep) xs)" "\<not> ?fz \<and> pp_From p \<le> i_Time (d_Info d)" for d
      using that held by (auto simp: decide_simps)
    show "length (filter (\<lambda>d. d_Rule d = Some k) (map (decide keep) xs)) \<le> nat (kv_count v)"
      if "pp_Keep p k = Some v \<and> k \<noteq> RuleFrom \<and> \<not> kv_isInterval v \<and> \<not> kv_IsAll v" for k v
      using that r(2) [of k v] count [of k] by force
    show "d_Keep (hd (map (decide keep) (snd hb)))"
      if "pp_Keep p k = Some v \<and> k \<noteq> RuleFrom \<and> \<not> kv_isInterval v \<and> (kv_IsAll v \<or> 0 < kv_count v) \<and> map (decide keep) (snd hb) \<noteq> []" for k v
      using that r(3) [of k v] by (auto simp: hd_map decide_simps)
  qed
qed

section \<open>Periods are calendar periods\<close>

text \<open>The numbers of a period key, read back from its text.\<close>

fun numbers :: "string \<Rightarrow> string list" where
  "numbers [] = [[]]"
| "numbers (c # cs) = (if digit_val c = None then [] # numbers cs else (case numbers cs of [] \<Rightarrow> [[c]] | f # fs \<Rightarrow> (c # f) # fs))"

definition is_num :: "string \<Rightarrow> bool" where
  "is_num s \<longleftrightarrow> (\<forall>c\<in>set s. digit_val c \<noteq> None)"

lemma numbers_ne: "numbers s \<noteq> []"
  by (induction s) (auto split: list.split)

lemma numbers_num: "is_num s \<Longrightarrow> numbers s = [s]"
  by (induction s) (auto simp: is_num_def)

lemma numbers_append: "is_num s \<Longrightarrow> digit_val c = None \<Longrightarrow> numbers (s @ c # t) = s # numbers t"
  by (induction s) (auto simp: is_num_def)

lemma digits_val_zeros: "digits_val 0 (replicate n CHR ''0'' @ s) = digits_val 0 s"
  by (induction n) (simp_all add: digit_val_def)

lemma padInt_num: "0 \<le> i \<Longrightarrow> is_num (padInt w i)" "0 \<le> i \<Longrightarrow> digits_val 0 (padInt w i) = Some (nat i)"
proof -
  have "\<exists>d. digit_val c = Some d" if "c \<in> set (nat_str n)" for c n using nat_str_digits [OF that] by auto
  moreover have "digit_val CHR ''0'' = Some 0" by (simp add: digit_val_def)
  ultimately show "0 \<le> i \<Longrightarrow> is_num (padInt w i)" by (auto simp: padInt_def is_num_def Let_def)
  show "0 \<le> i \<Longrightarrow> digits_val 0 (padInt w i) = Some (nat i)" by (simp add: padInt_def Let_def digits_val_zeros digits_val_nat_str)
qed

lemma padInt_inj: "0 \<le> i \<Longrightarrow> 0 \<le> j \<Longrightarrow> padInt w i = padInt w j \<longleftrightarrow> i = j"
  using padInt_num(2) by (metis eq_nat_nat_iff option.inject)

lemma Itoa_pad: "0 \<le> i \<Longrightarrow> Itoa i = padInt 0 i"
  by (simp add: Itoa_def padInt_def)

lemma separators: "digit_val CHR ''-'' = None" "digit_val CHR '' '' = None" "digit_val CHR '':'' = None"
  by (simp_all add: digit_val_def)

lemmas key_numbers = numbers_append numbers_num padInt_num(1) separators

text \<open>The running number of a calendar period.\<close>

fun period_no :: "rule_kind \<Rightarrow> int \<Rightarrow> int" where
  "period_no RuleSecondly l = l div second_ns"
| "period_no RuleMinutely l = l div minute_ns"
| "period_no RuleHourly l = l div hour_ns"
| "period_no RuleDaily l = l div day_ns"
| "period_no RuleWeekly l = dayOf l div 7"
| "period_no RuleMonthly l = 12 * yearOf (dayOf l) + (monthOfDay (dayOf l) - 1)"
| "period_no RuleQuarterly13Weekly l = (let th = thursday (dayOf l) in 4 * yearOf th + min 3 (yearDay th div 7 div 13))"
| "period_no RuleQuarterly3Monthly l = (12 * yearOf (dayOf l) + (monthOfDay (dayOf l) - 1)) div 3"
| "period_no RuleYearly l = yearOf (dayOf l)"
| "period_no RuleKeep l = l"
| "period_no RuleFrom l = 0"

lemma dayOf_mono: "l \<le> l' \<Longrightarrow> dayOf l \<le> dayOf l'"
  by (simp add: dayOf_def zdiv_mono1)

lemma period_no_mono:
  assumes "l \<le> l'"
  shows "period_no kind l \<le> period_no kind l'"
proof -
  note d = dayOf_mono [OF assms]
  note th = thursday_mono [OF d]
  have q: "4 * yearOf x + min 3 (yearDay x div 7 div 13) \<le> 4 * yearOf y + min 3 (yearDay y div 7 div 13)" if "x \<le> y" for x y
  proof (rule pair_mono)
    have "yearDay x div 7 div 13 \<le> yearDay y div 7 div 13" if "yearOf x = yearOf y"
      using \<open>x \<le> y\<close> that by (intro zdiv_mono1) (simp_all add: yearDay_def)
    then show "yearOf x < yearOf y \<or> yearOf x = yearOf y \<and> min 3 (yearDay x div 7 div 13) \<le> min 3 (yearDay y div 7 div 13)" using yearOf_mono [OF that] by fastforce
    show "0 \<le> min 3 (yearDay y div 7 div 13)" using yearDay_week(1) [of y] by (simp add: pos_imp_zdiv_nonneg_iff)
  qed simp_all
  show ?thesis
    by (cases kind) (use assms d th q [OF th] month_no_mono [OF d] yearOf_mono [OF d] in \<open>simp_all add: zdiv_mono1 Let_def\<close>)
qed

lemma cal_fields: "c_year (civil_of l) = yearOf (dayOf l)" "c_month (civil_of l) = monthOfDay (dayOf l)"
  by (simp_all add: civil_of_def Let_def)

lemma field_nonneg:
  "0 \<le> c_month (civil_of l)" "0 \<le> c_day (civil_of l)" "0 \<le> c_hour (civil_of l)" "0 \<le> c_minute (civil_of l)" "0 \<le> c_second (civil_of l)"
  using c_month_bounds [of l] c_day_bounds(1) [of l] clock_bounds [of l] by auto

lemma clock_iff:
  "l div hour_ns = l' div hour_ns \<longleftrightarrow> l div day_ns = l' div day_ns \<and> c_hour (civil_of l) = c_hour (civil_of l')"
  "l div minute_ns = l' div minute_ns \<longleftrightarrow> l div hour_ns = l' div hour_ns \<and> c_minute (civil_of l) = c_minute (civil_of l')"
  "l div second_ns = l' div second_ns \<longleftrightarrow> l div minute_ns = l' div minute_ns \<and> c_second (civil_of l) = c_second (civil_of l')"
  unfolding clock_units(3) [of l] clock_units(3) [of l'] by (simp_all only: clock_units(1,2) [of l] clock_units(1,2) [of l'] pair_code clock_bounds)

lemma date_numbers:
  assumes "0 \<le> c_year (civil_of x)"
  shows "numbers (fmt_date (civil_of x)) = [padInt 4 (c_year (civil_of x)), padInt 2 (c_month (civil_of x)), padInt 2 (c_day (civil_of x))]"
    "digit_val c = None \<Longrightarrow> numbers (fmt_date (civil_of x) @ c # t) = [padInt 4 (c_year (civil_of x)), padInt 2 (c_month (civil_of x)), padInt 2 (c_day (civil_of x))] @ numbers t"
    "numbers (fmt_month (civil_of x)) = [padInt 4 (c_year (civil_of x)), padInt 2 (c_month (civil_of x))]"
  using assms field_nonneg [of x] by (simp_all add: fmt_date_def fmt_month_def key_numbers)

lemma iso_year_nonneg: "0 \<le> c_year (civil_of l) \<Longrightarrow> 1 \<le> c_year (civil_of l) \<Longrightarrow> 0 \<le> yearOf (thursday (dayOf l))"
proof -
  assume "1 \<le> c_year (civil_of l)"
  then have "daysBeforeYear 1 \<le> daysBeforeYear (yearOf (dayOf l))" by (intro daysBeforeYear_mono) (simp add: cal_fields)
  then have "0 \<le> dayOf l" using yearOf_correct(1) [of "dayOf l"] by (simp add: daysBeforeYear_def)
  then have "daysBeforeYear 1 \<le> thursday (dayOf l)" by (simp add: thursday_def daysBeforeYear_def pos_imp_zdiv_nonneg_iff)
  then have "1 \<le> yearOf (thursday (dayOf l))" using yearOf_correct(2) by (rule daysBeforeYear_less)
  then show ?thesis by simp
qed

lemma quot_nonneg: "0 \<le> a \<Longrightarrow> 0 < b \<Longrightarrow> quot a b = a div b"
  by (cases "a = 0") (auto simp: quot_def)

lemma quarter_iff:
  fixes a b :: int
  assumes "0 \<le> a" "a < 12" "0 \<le> b" "b < 12"
  shows "(12 * y + a) div 3 = (12 * y' + b) div 3 \<longleftrightarrow> y = y' \<and> a div 3 = b div 3"
proof -
  have "(12 * x + c) div 3 = 4 * x + c div 3" for x c :: int using div_mult_self4 [of 3 "c" "4 * x"] by (simp add: algebra_simps)
  moreover have "0 \<le> c div 3 \<and> c div 3 < 4" if "0 \<le> c" "c < 12" for c :: int using that by auto
  ultimately show ?thesis using pair_code [of "a div 3" 4 "b div 3" y y'] assms by simp
qed

definition week13 :: "int \<Rightarrow> int" where
  "week13 l = min 3 (yearDay (thursday (dayOf l)) div 7 div 13)"

lemma week13_bounds: "0 \<le> week13 l" "week13 l < 4"
  using yearDay_week(1) [of "thursday (dayOf l)"] by (auto simp: week13_def pos_imp_zdiv_nonneg_iff)

lemma quarterly13: "periodOf z RuleQuarterly13Weekly t seq = Itoa (yearOf (thursday (dayOf (t + z t)))) @ ''-'' @ padInt 2 (week13 (t + z t))"
proof -
  let ?w = "yearDay (thursday (dayOf (t + z t))) div 7"
  have "quot ?w 13 = ?w div 13" "0 \<le> ?w div 13" using yearDay_week(1) [of "thursday (dayOf (t + z t))"] by (simp_all add: quot_nonneg pos_imp_zdiv_nonneg_iff)
  then show ?thesis by (simp add: ISOWeek_def Let_def week13_def min_def not_less)
qed

text \<open>The textual keys group archives by the periods of the local calendar: two times have the same key
  exactly when they lie in the same second, minute, hour, day, ISO week, month, quarter or year.\<close>

lemma calendar_keys:
  assumes y: "1 \<le> c_year (civil_of (t + z t))" "1 \<le> c_year (civil_of (u + z u))" and k: "kind \<noteq> RuleKeep" "kind \<noteq> RuleFrom"
  shows "periodOf z kind t seq = periodOf z kind u seq' \<longleftrightarrow> period_no kind (t + z t) = period_no kind (u + z u)"
proof -
  define l l' where l: "l = t + z t" "l' = u + z u"
  have y0: "0 \<le> c_year (civil_of l)" "0 \<le> c_year (civil_of l')" using y by (simp_all add: l)
  note pos = y0 field_nonneg [of l] field_nonneg [of l']
  note iso = iso_year_nonneg [of l] iso_year_nonneg [of l']
  note read = pos padInt_inj date_numbers [OF y0(1)] date_numbers [OF y0(2)] key_numbers
  have w: "0 \<le> yearDay (thursday (dayOf x)) div 7 + 1" for x using yearDay_week(1) [of "thursday (dayOf x)"] by simp
  have eq: "a = b \<longleftrightarrow> c" if "c \<Longrightarrow> a = b" "numbers a = numbers b \<Longrightarrow> c" for a b c using that by auto
  have date: "fmt_date (civil_of l) = fmt_date (civil_of l')" if "l div day_ns = l' div day_ns"
    using that date_iff [of l l'] by (simp add: fmt_date_def fmt_month_def)
  show ?thesis
  proof (cases kind)
    case RuleSecondly
    show ?thesis unfolding RuleSecondly periodOf.simps period_no.simps l [symmetric] Let_def
      by (rule eq) (auto simp: clock_iff date read date_iff [symmetric])
  next
    case RuleMinutely
    show ?thesis unfolding RuleMinutely periodOf.simps period_no.simps l [symmetric] Let_def
      by (rule eq) (auto simp: clock_iff date read date_iff [symmetric])
  next
    case RuleHourly
    show ?thesis unfolding RuleHourly periodOf.simps period_no.simps l [symmetric] Let_def
      by (rule eq) (auto simp: clock_iff date read date_iff [symmetric])
  next
    case RuleDaily
    show ?thesis unfolding RuleDaily periodOf.simps period_no.simps l [symmetric]
      by (rule eq) (auto simp: date read date_iff [symmetric])
  next
    case RuleWeekly
    have "numbers (case ISOWeek x of (y, w) \<Rightarrow> padInt 4 y @ ''-'' @ padInt 2 w) = [padInt 4 (fst (ISOWeek x)), padInt 2 (snd (ISOWeek x))]"
      if "0 \<le> yearOf (thursday (dayOf x))" for x using that w [of x] by (simp add: ISOWeek_def Let_def key_numbers)
    then show ?thesis unfolding RuleWeekly periodOf.simps period_no.simps l [symmetric]
      using ISOWeek_iff [of l l'] iso y w [of l] w [of l'] by (intro eq) (auto simp: l [symmetric] padInt_inj ISOWeek_def Let_def)
  next
    case RuleMonthly
    have "12 * yearOf (dayOf l) + (monthOfDay (dayOf l) - 1) = 12 * yearOf (dayOf l') + (monthOfDay (dayOf l') - 1) \<longleftrightarrow> c_year (civil_of l) = c_year (civil_of l') \<and> c_month (civil_of l) = c_month (civil_of l')"
      using c_month_bounds [of l] c_month_bounds [of l'] by (subst pair_code) (auto simp: cal_fields)
    then show ?thesis unfolding RuleMonthly periodOf.simps period_no.simps l [symmetric]
      by (intro eq) (auto simp: read fmt_month_def)
  next
    case RuleQuarterly13Weekly
    have "4 * yearOf (thursday (dayOf l)) + week13 l = 4 * yearOf (thursday (dayOf l')) + week13 l' \<longleftrightarrow> yearOf (thursday (dayOf l)) = yearOf (thursday (dayOf l')) \<and> week13 l = week13 l'"
      by (rule pair_code) (simp_all add: week13_bounds)
    then show ?thesis unfolding RuleQuarterly13Weekly quarterly13 period_no.simps l [symmetric] Let_def week13_def [symmetric]
      using iso y by (intro eq) (auto simp: l [symmetric] Itoa_pad key_numbers padInt_inj week13_bounds)
  next
    case RuleQuarterly3Monthly
    have q: "quot (c_month (civil_of x) - 1) 3 = (monthOfDay (dayOf x) - 1) div 3" "0 \<le> (monthOfDay (dayOf x) - 1) div 3" for x
      using c_month_bounds [of x] by (simp_all add: quot_nonneg cal_fields pos_imp_zdiv_nonneg_iff)
    have "(12 * yearOf (dayOf l) + (monthOfDay (dayOf l) - 1)) div 3 = (12 * yearOf (dayOf l') + (monthOfDay (dayOf l') - 1)) div 3
        \<longleftrightarrow> c_year (civil_of l) = c_year (civil_of l') \<and> (monthOfDay (dayOf l) - 1) div 3 = (monthOfDay (dayOf l') - 1) div 3"
      using c_month_bounds [of l] c_month_bounds [of l'] by (subst quarter_iff) (simp_all add: cal_fields)
    then show ?thesis unfolding RuleQuarterly3Monthly periodOf.simps period_no.simps l [symmetric] Let_def q
      using q(2) by (intro eq) (auto simp: Itoa_pad key_numbers padInt_inj pos)
  next
    case RuleYearly
    show ?thesis unfolding RuleYearly periodOf.simps period_no.simps l [symmetric] by (simp add: padInt_inj pos cal_fields [symmetric])
  qed (use k in simp_all)
qed

section \<open>A rule keeps the newest archive of each period\<close>

text \<open>The first element of a list for each value of a function.\<close>

fun first_of :: "('a \<Rightarrow> 'b) \<Rightarrow> 'b set \<Rightarrow> 'a list \<Rightarrow> 'a list" where
  "first_of f seen [] = []"
| "first_of f seen (x # xs) = (if f x \<in> seen then first_of f seen xs else x # first_of f (insert (f x) seen) xs)"

lemma run_heads_first_of:
  fixes f :: "info \<Rightarrow> int"
  assumes key: "\<And>i j s s'. i \<in> U \<Longrightarrow> j \<in> U \<Longrightarrow> per i s = per j s' \<longleftrightarrow> f i = f j"
  shows "set xs \<subseteq> U \<Longrightarrow> sorted_wrt (\<lambda>x y. f y \<le> f x) xs \<Longrightarrow> prev = None \<and> seen = {} \<or> (\<exists>j s. j \<in> U \<and> prev = Some (per j s) \<and> f j \<in> seen \<and> (\<forall>a\<in>seen. f j \<le> a) \<and> (\<forall>x\<in>set xs. f x \<le> f j))
    \<Longrightarrow> run_heads per seq prev xs = first_of f seen xs"
proof (induction xs arbitrary: seq prev seen)
  case (Cons x xs)
  have x: "x \<in> U" "set xs \<subseteq> U" "sorted_wrt (\<lambda>x y. f y \<le> f x) xs" "\<forall>y\<in>set xs. f y \<le> f x" using Cons.prems by auto
  have seen: "prev = Some (per x seq) \<longleftrightarrow> f x \<in> seen" using Cons.prems(3)
  proof (elim disjE exE conjE)
    fix j s
    assume j: "j \<in> U" "prev = Some (per j s)" "f j \<in> seen" "\<forall>a\<in>seen. f j \<le> a" "\<forall>y\<in>set (x # xs). f y \<le> f j"
    then show ?thesis using key [OF j(1) x(1), of s seq] by (metis antisym list.set_intros(1) option.inject)
  qed simp
  show ?case
  proof (cases "f x \<in> seen")
    case True
    then have "run_heads per (Suc seq) prev xs = first_of f seen xs" using Cons.prems(3) by (intro Cons.IH [OF x(2,3)]) auto
    then show ?thesis using True seen by simp
  next
    case False
    have "\<forall>a\<in>insert (f x) seen. f x \<le> a" using Cons.prems(3) by fastforce
    then have "\<exists>j s. j \<in> U \<and> Some (per x seq) = Some (per j s) \<and> f j \<in> insert (f x) seen \<and> (\<forall>a\<in>insert (f x) seen. f j \<le> a) \<and> (\<forall>y\<in>set xs. f y \<le> f j)"
      using x by blast
    then have "run_heads per (Suc seq) (Some (per x seq)) xs = first_of f (insert (f x) seen) xs" by (intro Cons.IH [OF x(2,3)]) blast
    then show ?thesis using False seen by simp
  qed
qed simp

lemma run_heads_keep:
  "prev = None \<or> (\<exists>s. s < seq \<and> prev = Some (padInt 9 (int s))) \<Longrightarrow> run_heads (\<lambda>i. periodOf z RuleKeep (i_Time i)) seq prev xs = xs"
proof (induction xs arbitrary: seq prev)
  case (Cons x xs)
  have "prev \<noteq> Some (padInt 9 (int seq))" using Cons.prems by (auto simp: padInt_inj)
  then show ?case using Cons.IH [of "Some (padInt 9 (int seq))" "Suc seq"] by auto
qed simp

text \<open>What a rule chooses from: the newest archive of each calendar period; for \<open>--keep\<close> every archive.\<close>

definition period_newest :: "zone \<Rightarrow> rule_kind \<Rightarrow> info list \<Rightarrow> info list" where
  "period_newest z kind xs = (if kind = RuleKeep then xs else first_of (\<lambda>i. period_no kind (i_Time i + z (i_Time i))) {} xs)"

lemma within_filter: "sorted_wrt (\<lambda>x y. i_Time y \<le> i_Time x) c \<Longrightarrow> within v e c = filter (\<lambda>i. kv_isInterval v \<longrightarrow> e \<le> i_Time i) c"
  by (simp add: within_def held_split(1))



theorem prune_decisions_witness:
  "mset (map d_Info (Prune (\<lambda>_. 0) 10 [named_info ''a'' 7, named_info ''b'' 9] \<lparr>pp_Keep = [RuleDaily \<mapsto> KeepCount 1], pp_From = zeroTime, pp_Now = 10\<rparr>))
    = {#named_info ''a'' 7, named_info ''b'' 9#}"
proof -
  have "distinct (map i_ID [named_info ''a'' 7, named_info ''b'' 9])" by (simp add: named_info_def)
  from prune_decisions [OF this, of "\<lambda>_. 0" 10 "\<lparr>pp_Keep = [RuleDaily \<mapsto> KeepCount 1], pp_From = zeroTime, pp_Now = 10\<rparr>"]
  show ?thesis by (simp add: hasProtectedTag_def named_info_def)
qed

end
