(* ===== verification/Spec2Isabelle.thy ===== *)
theory Spec2Isabelle
  imports Extract Item_Stream Repo_Lock Prune
begin

text \<open>
  A verification library for the core of borge.
\<close>

end
